(* ===== verification/Prelude.thy ===== *)
theory Prelude
  imports Main "HOL-Library.Word" "HOL-Library.Signed_Division"
begin

unbundle bit_operations_syntax

text \<open>
  Shared vocabulary of the development: the collections its proofs simplify with, Go's 64-bit
  signed integers (a mathematical integer with the wrap-around written out), the ways a Go call
  can end (\<open>outcome\<close>), state-passing computations over them, and list facts used by
  several components.
\<close>

section \<open>Collections\<close>

named_theorems go_int \<open>facts that remove a wrap-around from an in-range integer\<close>

named_theorems go_eval \<open>rewrite rules that run a state-passing Go computation\<close>

section \<open>Machine integers\<close>

text \<open>
  \<open>int64\<close> and \<open>int\<close> (64-bit platforms) hold the integers of \<open>in_i64\<close>. Every Go
  operation that can leave that range is followed by \<open>i64\<close>, the two's complement reduction.
\<close>

type_synonym byte = "8 word"

definition MaxInt64 :: int where
  "MaxInt64 = 2 ^ 63 - 1"

definition MinInt64 :: int where
  "MinInt64 = - (2 ^ 63)"

definition in_i64 :: "int \<Rightarrow> bool" where
  "in_i64 x \<longleftrightarrow> MinInt64 \<le> x \<and> x \<le> MaxInt64"

definition i64 :: "int \<Rightarrow> int" where
  "i64 x = signed_take_bit 63 x"

definition i32 :: "int \<Rightarrow> int" where
  "i32 x = signed_take_bit 31 x"

lemma in_i64_iff: "in_i64 x \<longleftrightarrow> - (2 ^ 63) \<le> x \<and> x < 2 ^ 63"
  by (auto simp: in_i64_def MinInt64_def MaxInt64_def)

lemma i64_id [go_int]: "in_i64 x \<Longrightarrow> i64 x = x"
  by (simp add: i64_def in_i64_iff signed_take_bit_int_eq_self)

lemma i64_small [simp]:
  "i64 0 = 0" "i64 1 = 1" "i64 (- 1) = - 1"
  "numeral n < (2 ^ 63 :: int) \<Longrightarrow> i64 (numeral n) = numeral n"
  "numeral n \<le> (2 ^ 63 :: int) \<Longrightarrow> i64 (- numeral n) = - numeral n"
  by (simp_all add: i64_id in_i64_iff)

lemma in_i64_i64 [simp]: "in_i64 (i64 x)"
  using signed_take_bit_int_less_exp [of 63 x]
    signed_take_bit_int_greater_eq_minus_exp [of 63 x]
  by (simp add: i64_def in_i64_iff)

lemma in_i64_between: "in_i64 a \<Longrightarrow> in_i64 b \<Longrightarrow> a \<le> x \<Longrightarrow> x \<le> b \<Longrightarrow> in_i64 x"
  by (simp add: in_i64_def)

lemma in_i64_nonneg: "0 \<le> x \<Longrightarrow> x \<le> MaxInt64 \<Longrightarrow> in_i64 x"
  by (simp add: in_i64_def MinInt64_def)

lemma in_i64_leD: "in_i64 x \<Longrightarrow> x \<le> MaxInt64"
  by (simp add: in_i64_def)

lemma div_mult_le_int: "0 < a \<Longrightarrow> x div a * a \<le> (x::int)"
  by (metis add.right_neutral add_le_cancel_left div_mult_mod_eq pos_mod_sign)

lemma div_mult_gt_int: "0 < a \<Longrightarrow> (x::int) < x div a * a + a"
  by (metis add_strict_left_mono div_mult_mod_eq pos_mod_bound)

section \<open>How a Go call ends\<close>

text \<open>
  A call returns, panics, or hangs: \<open>Hang\<close> stands for a goroutine that blocks or loops
  forever. Errors are ordinary results and are modelled as values, not as outcomes.
\<close>

datatype go_panic =
    IntegerDivideByZero
  | IndexOutOfRange
  | SliceBoundsOutOfRange
  | MakesliceLenOutOfRange
  | MakechanSizeOutOfRange
  | NilDereference
  | CloseOfClosedChannel
  | InterfaceConversion

datatype 'a outcome = Ret 'a | Panic go_panic | Hang

primrec is_ret :: "'a outcome \<Rightarrow> bool" where
  "is_ret (Ret a) = True"
| "is_ret (Panic p) = False"
| "is_ret Hang = False"

primrec obind :: "'a outcome \<Rightarrow> ('a \<Rightarrow> 'b outcome) \<Rightarrow> 'b outcome" where
  "obind (Ret a) f = f a"
| "obind (Panic p) f = Panic p"
| "obind Hang f = Hang"

lemma obind_eq_Ret: "obind m f = Ret b \<longleftrightarrow> (\<exists>a. m = Ret a \<and> f a = Ret b)"
  by (cases m) auto

section \<open>State-passing computations\<close>

text \<open>
  A Go function that reads or writes state is a function from the state to an outcome and the
  state left behind. The state survives a panic: what a panicking call wrote stays written, and a
  lock it held stays held.
\<close>

type_synonym ('s, 'a) go = "'s \<Rightarrow> 'a outcome \<times> 's"

definition ret :: "'a \<Rightarrow> ('s, 'a) go" where
  "ret a = (\<lambda>s. (Ret a, s))"

definition bind :: "('s, 'a) go \<Rightarrow> ('a \<Rightarrow> ('s, 'b) go) \<Rightarrow> ('s, 'b) go" where
  "bind m f = (\<lambda>s. case m s of
      (Ret a, s') \<Rightarrow> f a s'
    | (Panic p, s') \<Rightarrow> (Panic p, s')
    | (Hang, s') \<Rightarrow> (Hang, s'))"

definition gpanic :: "go_panic \<Rightarrow> ('s, 'a) go" where
  "gpanic p = (\<lambda>s. (Panic p, s))"

definition hang :: "('s, 'a) go" where
  "hang = (\<lambda>s. (Hang, s))"

definition gets :: "('s \<Rightarrow> 'a) \<Rightarrow> ('s, 'a) go" where
  "gets f = (\<lambda>s. (Ret (f s), s))"

definition modify :: "('s \<Rightarrow> 's) \<Rightarrow> ('s, unit) go" where
  "modify f = (\<lambda>s. (Ret (), f s))"

definition lift_outcome :: "'a outcome \<Rightarrow> ('s, 'a) go" where
  "lift_outcome x = (\<lambda>s. (x, s))"

lemma ret_apply [go_eval]: "ret a s = (Ret a, s)"
  by (simp add: ret_def)

lemma gpanic_apply [go_eval]: "gpanic p s = (Panic p, s)"
  by (simp add: gpanic_def)

lemma hang_apply [go_eval]: "hang s = (Hang, s)"
  by (simp add: hang_def)

lemma gets_apply [go_eval]: "gets f s = (Ret (f s), s)"
  by (simp add: gets_def)

lemma modify_apply [go_eval]: "modify f s = (Ret (), f s)"
  by (simp add: modify_def)

lemma lift_outcome_apply [go_eval]: "lift_outcome x s = (x, s)"
  by (simp add: lift_outcome_def)

lemma bind_apply [go_eval]:
  "bind m f s = (case m s of
      (Ret a, s') \<Rightarrow> f a s'
    | (Panic p, s') \<Rightarrow> (Panic p, s')
    | (Hang, s') \<Rightarrow> (Hang, s'))"
  by (simp add: bind_def)

lemma bind_eq_Ret:
  "bind m f s = (Ret b, s'') \<longleftrightarrow> (\<exists>a s'. m s = (Ret a, s') \<and> f a s' = (Ret b, s''))"
  by (auto simp: bind_def split: prod.splits outcome.splits)

lemma bind_assoc: "bind (bind m f) g = bind m (\<lambda>a. bind (f a) g)"
  by (rule ext) (simp add: bind_def split: prod.splits outcome.splits)

lemma bind_ret_left [simp]: "bind (ret a) f = f a"
  by (simp add: bind_def ret_def)

lemma bind_ret_right [simp]: "bind m ret = m"
  by (rule ext) (simp add: bind_def ret_def split: prod.splits outcome.splits)

section \<open>Triples\<close>

text \<open>
  \<open>runs P m Q\<close>: started in a state that satisfies \<open>P\<close>, the computation does not hang, and when
  it returns, its result and the state left behind satisfy \<open>Q\<close>. A panic is allowed.
\<close>

definition runs :: "('s \<Rightarrow> bool) \<Rightarrow> ('s, 'a) go \<Rightarrow> ('a \<Rightarrow> 's \<Rightarrow> bool) \<Rightarrow> bool" where
  "runs P m Q \<longleftrightarrow> (\<forall>s. P s \<longrightarrow> (case m s of
      (Ret a, s') \<Rightarrow> Q a s'
    | (Panic p, s') \<Rightarrow> True
    | (Hang, s') \<Rightarrow> False))"

lemma runsI:
  "(\<And>s. P s \<Longrightarrow> case m s of (Ret a, s') \<Rightarrow> Q a s' | (Panic p, s') \<Rightarrow> True | (Hang, s') \<Rightarrow> False)
   \<Longrightarrow> runs P m Q"
  by (simp add: runs_def)

lemma runs_case:
  "runs P m Q \<Longrightarrow> P s \<Longrightarrow>
   case m s of (Ret a, s') \<Rightarrow> Q a s' | (Panic p, s') \<Rightarrow> True | (Hang, s') \<Rightarrow> False"
  by (simp add: runs_def)

lemma runsD: "runs P m Q \<Longrightarrow> P s \<Longrightarrow> m s = (Ret a, s') \<Longrightarrow> Q a s'"
  by (force simp: runs_def)

lemma runs_no_hang: "runs P m Q \<Longrightarrow> P s \<Longrightarrow> fst (m s) \<noteq> Hang"
  by (cases "m s") (force simp: runs_def)

lemma runs_bind: "runs P m R \<Longrightarrow> (\<And>a. runs (R a) (f a) Q) \<Longrightarrow> runs P (bind m f) Q"
  by (fastforce simp: runs_def bind_def split: prod.splits outcome.splits)

lemma runs_ret: "(\<And>s. P s \<Longrightarrow> Q a s) \<Longrightarrow> runs P (ret a) Q"
  by (simp add: runs_def ret_def)

lemma runs_modify: "(\<And>s. P s \<Longrightarrow> Q () (f s)) \<Longrightarrow> runs P (modify f) Q"
  by (simp add: runs_def modify_def)

lemma runs_gets: "(\<And>s. P s \<Longrightarrow> Q (f s) s) \<Longrightarrow> runs P (gets f) Q"
  by (simp add: runs_def gets_def)

lemma runs_post: "runs P m R \<Longrightarrow> (\<And>a s. R a s \<Longrightarrow> Q a s) \<Longrightarrow> runs P m Q"
  by (fastforce simp: runs_def split: prod.splits outcome.splits)

section \<open>Lists\<close>

lemma take_drop_split:
  "a \<le> b \<Longrightarrow> b \<le> c \<Longrightarrow> take (b - a) (drop a xs) @ take (c - b) (drop b xs) = take (c - a) (drop a xs)"
proof -
  assume ab: "a \<le> b" and bc: "b \<le> c"
  have "drop b xs = drop (b - a) (drop a xs)"
    using ab by simp
  moreover have "c - a = (b - a) + (c - b)"
    using ab bc by simp
  ultimately show ?thesis
    by (metis take_add)
qed

lemma upto_split_int: "(a::int) \<le> b \<Longrightarrow> b \<le> c \<Longrightarrow> [a..b - 1] @ [b..c - 1] = [a..c - 1]"
proof (cases "a = b")
  case False
  moreover assume "a \<le> b" "b \<le> c"
  ultimately show ?thesis
    using upto_split2 [of a "b - 1" "c - 1"] by simp
qed simp

section \<open>Sums over lists\<close>

lemma sum_list_swap:
  fixes f :: "'a \<Rightarrow> 'b :: comm_monoid_add"
  assumes "i < length xs"
  shows "sum_list (map f (xs[i := x])) + f (xs ! i) = sum_list (map f xs) + f x"
  using assms
proof (induction xs arbitrary: i)
  case (Cons a xs)
  then show ?case by (cases i) (auto simp: ac_simps)
qed simp

lemma sum_list_remove_nth:
  fixes f :: "'a \<Rightarrow> 'b :: comm_monoid_add"
  shows "i < length xs \<Longrightarrow> sum_list (map f (take i xs @ drop (Suc i) xs)) + f (xs ! i) = sum_list (map f xs)"
  by (subst (3) id_take_nth_drop) (auto simp: ac_simps)

lemma sum_list_member_le:
  fixes f :: "'a \<Rightarrow> nat"
  shows "i < length xs \<Longrightarrow> f (xs ! i) \<le> sum_list (map f xs)"
  by (simp add: member_le_sum_list)

lemma sum_list_two:
  fixes f :: "'a \<Rightarrow> nat"
  assumes "i < length xs" "j < length xs" "i \<noteq> j"
  shows "f (xs ! i) + f (xs ! j) \<le> sum_list (map f xs)"
  using assms
proof (induction xs arbitrary: i j)
  case (Cons a xs)
  then show ?case
    by (cases i; cases j) (auto simp: sum_list_member_le trans_le_add2)
qed simp

lemma sum_list_posE:
  fixes f :: "'a \<Rightarrow> nat"
  assumes "0 < sum_list (map f xs)"
  obtains i where "i < length xs" "0 < f (xs ! i)"
  using assms by (metis gr0I in_set_conv_nth sum_list_eq_0_iff image_iff list.set_map)

section \<open>Transition systems\<close>

text \<open>The states a step relation reaches, and the rule by which a predicate that every step keeps holds in
  all of them. The concurrent components state their interleavings as step relations and their
  invariants by interpreting the locale on them.\<close>

inductive reach :: "('s \<Rightarrow> 's \<Rightarrow> bool) \<Rightarrow> 's \<Rightarrow> 's \<Rightarrow> bool" for step s0 where
  reach_init: "reach step s0 s0"
| reach_step: "reach step s0 s \<Longrightarrow> step s s' \<Longrightarrow> reach step s0 s'"

lemma reach_trans: "reach step s t \<Longrightarrow> reach step r s \<Longrightarrow> reach step r t"
  by (induction rule: reach.induct) (auto intro: reach.intros)

lemma reach_mono: "reach step s0 s \<Longrightarrow> (\<And>s s'. step s s' \<Longrightarrow> step' s s') \<Longrightarrow> reach step' s0 s"
  by (induction rule: reach.induct) (auto intro: reach.intros)

locale invariant_system =
  fixes step :: "'s \<Rightarrow> 's \<Rightarrow> bool" and inv :: "'s \<Rightarrow> bool"
  assumes step_inv: "inv s \<Longrightarrow> step s s' \<Longrightarrow> inv s'"
begin

lemma reach_inv: "reach step s0 s \<Longrightarrow> inv s0 \<Longrightarrow> inv s"
  by (induction rule: reach.induct) (blast intro: step_inv)+

end

text \<open>A system in which every step lowers a rank: it has no infinite run, and from every state it can come to
  a state where no step is left.\<close>

locale terminating_system =
  fixes step :: "'s \<Rightarrow> 's \<Rightarrow> bool" and rank :: "'s \<Rightarrow> 'r" and below :: "('r \<times> 'r) set"
  assumes wf_below: "wf below" and step_below: "step s s' \<Longrightarrow> (rank s', rank s) \<in> below"
begin

lemma no_infinite_run: "\<not> (\<forall>n. step (f n) (f (Suc n)))"
proof
  assume "\<forall>n. step (f n) (f (Suc n))"
  then have "\<forall>n. (rank (f (Suc n)), rank (f n)) \<in> below" by (blast intro: step_below)
  with wf_below show False
    unfolding wf_iff_no_infinite_down_chain by (elim notE) (rule exI [of _ "\<lambda>n. rank (f n)"])
qed

lemma stops: "\<exists>t. reach step s t \<and> (\<nexists>t'. step t t')"
proof (induction "rank s" arbitrary: s rule: wf_induct_rule [OF wf_below])
  case 1
  show ?case
  proof (cases "\<exists>s'. step s s'")
    case True
    then obtain s' where "step s s'" ..
    with 1 step_below obtain t where "reach step s' t" "\<nexists>t'. step t t'" by blast
    with \<open>step s s'\<close> show ?thesis by (blast intro: reach_trans reach.intros)
  qed (blast intro: reach_init)
qed

end

end
