(* ===== verification/GoLib.thy ===== *)
theory GoLib
  imports Prelude
begin

text \<open>
  The parts of Go's standard library that peerd's logic rests on: \<open>strconv\<close> (decimal
  formatting and parsing with its syntax and range errors), \<open>strings\<close> (splitting, prefixes,
  last index), \<open>path/filepath\<close> (lexical cleaning and joining) and \<open>net/http\<close> headers
  (canonical keys). Error values of every package are the constructors of \<open>goerr\<close>. A Go string
  is its list of bytes.
\<close>

section \<open>Errors\<close>

datatype num_error = ErrSyntax | ErrRange

text \<open>
  One constructor per error value or error message the sources build or compare against;
  \<open>Errno\<close> is a system call's error and \<open>LibError\<close> an error made by a third-party package.
\<close>

datatype goerr =
    EOF
  | ErrUnexpectedEOF
  | ErrNotExist
  | ErrInvalid
  | ErrClosed
  | Errno string
  | LibError string
  | NumError num_error string
  | NoRangeHeader
  | InvalidRangeFormat
  | EmptyUrl
  | UnknownUrl
  | FillCount int int
  | BytesCount int int
  | OnlySingleChunkAvailable
  | ReadAtFailed string int goerr
  | PeerNotFound
  | UnknownOperation
  | ContentNotFoundError string
  | RemoteError goerr
  | UnexpectedStatus int
  | AddrError string string
  | Wrapped string goerr
  | Message string

section \<open>strings\<close>

text \<open>\<open>strings.Split(s, sep)\<close> for a separator of one byte.\<close>

fun Split :: "char \<Rightarrow> string \<Rightarrow> string list" where
  "Split sep [] = [[]]"
| "Split sep (c # cs) =
     (if c = sep then [] # Split sep cs
      else case Split sep cs of [] \<Rightarrow> [[c]] | w # ws \<Rightarrow> (c # w) # ws)"

fun Join_sep :: "string \<Rightarrow> string list \<Rightarrow> string" where
  "Join_sep sep [] = []"
| "Join_sep sep [w] = w"
| "Join_sep sep (w # ws) = w @ sep @ Join_sep sep ws"

fun has_prefix :: "string \<Rightarrow> string \<Rightarrow> bool" where
  "has_prefix s [] = True"
| "has_prefix [] (p # ps) = False"
| "has_prefix (c # s) (p # ps) = (c = p \<and> has_prefix s ps)"

definition TrimPrefix :: "string \<Rightarrow> string \<Rightarrow> string" where
  "TrimPrefix s p = (if has_prefix s p then drop (length p) s else s)"

text \<open>\<open>strings.LastIndexByte\<close>: \<open>None\<close> where Go returns \<open>-1\<close>.\<close>

fun LastIndexByte :: "string \<Rightarrow> char \<Rightarrow> nat option" where
  "LastIndexByte [] b = None"
| "LastIndexByte (c # cs) b =
     (case LastIndexByte cs b of
        Some i \<Rightarrow> Some (Suc i)
      | None \<Rightarrow> if c = b then Some 0 else None)"

lemma Split_not_Nil [simp]: "Split sep s \<noteq> []"
  by (induction s) (auto split: list.splits)

lemma Split_no_sep: "sep \<notin> set s \<Longrightarrow> Split sep s = [s]"
  by (induction s) auto

lemma Split_append:
  "sep \<notin> set a \<Longrightarrow> Split sep (a @ sep # b) = a # Split sep b"
  by (induction a) (auto split: list.splits)

lemma Split_parts: "w \<in> set (Split sep s) \<Longrightarrow> sep \<notin> set w"
  by (induction s arbitrary: w) (auto split: list.splits if_splits)

lemma Split_Join: "Join_sep [sep] (Split sep s) = s"
proof (induction s)
  case (Cons c cs)
  then show ?case
    by (cases "Split sep cs"; cases "tl (Split sep cs)") auto
qed simp

lemma TrimPrefix_append [simp]: "TrimPrefix (p @ s) p = s"
proof -
  have "has_prefix (p @ s) p"
    by (induction p) auto
  then show ?thesis by (simp add: TrimPrefix_def)
qed

lemma LastIndexByte_append:
  "b \<notin> set t \<Longrightarrow> LastIndexByte (s @ b # t) b = Some (length s)"
proof (induction s)
  case Nil
  then have "LastIndexByte t b = None"
    by (induction t) (auto split: option.splits)
  then show ?case by simp
qed simp

lemma LastIndexByte_None: "b \<notin> set s \<Longrightarrow> LastIndexByte s b = None"
  by (induction s) auto

section \<open>strconv\<close>

definition digit_char :: "nat \<Rightarrow> char" where
  "digit_char d = char_of (48 + d)"

definition is_digit :: "char \<Rightarrow> bool" where
  "is_digit c \<longleftrightarrow> 48 \<le> (of_char c :: nat) \<and> (of_char c :: nat) \<le> 57"

definition digit_val :: "char \<Rightarrow> nat" where
  "digit_val c = of_char c - 48"

fun digits10 :: "nat \<Rightarrow> string" where
  "digits10 n =
     (if n < 10 then [digit_char n] else digits10 (n div 10) @ [digit_char (n mod 10)])"

text \<open>\<open>strconv.FormatInt(i, 10)\<close>, and \<open>fmt.Sprint\<close> of an \<open>int64\<close>.\<close>

definition FormatInt :: "int \<Rightarrow> string" where
  "FormatInt i = (if i < 0 then CHR ''-'' # digits10 (nat (- i)) else digits10 (nat i))"

text \<open>
  \<open>strconv.ParseUint(s, 10, 64)\<close>. An overflow stops the scan at once, so the bytes behind it are
  not looked at.
\<close>

fun ParseUint_loop :: "nat \<Rightarrow> string \<Rightarrow> nat \<times> num_error option" where
  "ParseUint_loop n [] = (n, None)"
| "ParseUint_loop n (c # cs) =
     (if \<not> is_digit c then (0, Some ErrSyntax)
      else if n \<ge> 1844674407370955162 then (18446744073709551615, Some ErrRange)
      else if n * 10 + digit_val c \<ge> 18446744073709551616
        then (18446744073709551615, Some ErrRange)
      else ParseUint_loop (n * 10 + digit_val c) cs)"

definition ParseUint :: "string \<Rightarrow> nat \<times> num_error option" where
  "ParseUint s = (if s = [] then (0, Some ErrSyntax) else ParseUint_loop 0 s)"

definition parse_sign :: "string \<Rightarrow> bool \<times> string" where
  "parse_sign s = (case s of
      [] \<Rightarrow> (False, [])
    | c # cs \<Rightarrow> if c = CHR ''+'' then (False, cs)
               else if c = CHR ''-'' then (True, cs) else (False, s))"

text \<open>\<open>strconv.ParseInt(s, 10, 64)\<close>: the value returned beside the error is the one Go returns.\<close>

definition ParseInt :: "string \<Rightarrow> int \<times> goerr option" where
  "ParseInt s =
     (if s = [] then (0, Some (NumError ErrSyntax s))
      else let (neg, t) = parse_sign s; (un, err) = ParseUint t in
        if err = Some ErrSyntax then (0, Some (NumError ErrSyntax s))
        else if \<not> neg \<and> un \<ge> 9223372036854775808
          then (9223372036854775807, Some (NumError ErrRange s))
        else if neg \<and> un > 9223372036854775808
          then (- 9223372036854775808, Some (NumError ErrRange s))
        else (if neg then - int un else int un, None))"

text \<open>\<open>strconv.Atoi\<close> on a 64-bit platform returns what \<open>ParseInt\<close> returns.\<close>

definition Atoi :: "string \<Rightarrow> int \<times> goerr option" where
  "Atoi s = ParseInt s"

declare digits10.simps [simp del]

lemma of_char_digit [simp]: "d < 10 \<Longrightarrow> (of_char (digit_char d) :: nat) = 48 + d"
  by (simp add: digit_char_def)

lemma is_digit_digit_char [simp]: "d < 10 \<Longrightarrow> is_digit (digit_char d)"
  by (simp add: is_digit_def)

lemma digit_val_digit_char [simp]: "d < 10 \<Longrightarrow> digit_val (digit_char d) = d"
  by (simp add: digit_val_def)

lemma digits10_digits: "\<forall>c \<in> set (digits10 n). is_digit c"
proof (induction n rule: digits10.induct)
  case (1 n)
  then show ?case
    by (subst digits10.simps) auto
qed

lemma digits10_not_Nil [simp]: "digits10 n \<noteq> []"
  by (subst digits10.simps) simp

lemma ParseUint_loop_append:
  assumes "ParseUint_loop n s = (m, None)"
  shows "ParseUint_loop n (s @ t) = ParseUint_loop m t"
  using assms
  by (induction n s rule: ParseUint_loop.induct) (auto split: if_splits)

lemma ParseUint_loop_digits10:
  "n < 18446744073709551616 \<Longrightarrow> ParseUint_loop 0 (digits10 n) = (n, None)"
proof (induction n rule: digits10.induct)
  case (1 n)
  show ?case
  proof (cases "n < 10")
    case True
    then show ?thesis by (subst digits10.simps) simp
  next
    case False
    with "1" have "ParseUint_loop 0 (digits10 (n div 10)) = (n div 10, None)"
      by simp
    from ParseUint_loop_append [OF this, of "[digit_char (n mod 10)]"]
    show ?thesis
      using False "1.prems" by (subst digits10.simps) simp
  qed
qed

lemma sign_not_digit:
  "\<not> is_digit (CHR ''-'')" "\<not> is_digit (CHR ''+'')" "\<not> is_digit (CHR ''_'')"
  "\<not> is_digit (CHR ''/'')" "\<not> is_digit (CHR ''='')" "\<not> is_digit (CHR ''.'')"
  by (simp_all add: is_digit_def)

lemma parse_sign_digits10: "parse_sign (digits10 n) = (False, digits10 n)"
  using digits10_digits [of n] sign_not_digit
  by (cases "digits10 n") (auto simp: parse_sign_def)

text \<open>Parsing what was formatted gives the number back: the round trip the chunk keys rely on.\<close>

lemma ParseInt_FormatInt [simp]: "in_i64 i \<Longrightarrow> ParseInt (FormatInt i) = (i, None)"
proof (cases "i < 0")
  case True
  assume i: "in_i64 i"
  with True have "nat (- i) < 18446744073709551616" "nat (- i) \<le> 9223372036854775808"
    by (auto simp: in_i64_iff)
  with True show ?thesis
    by (simp add: ParseInt_def FormatInt_def parse_sign_def ParseUint_def ParseUint_loop_digits10)
next
  case False
  assume i: "in_i64 i"
  with False have "nat i < 18446744073709551616" "nat i < 9223372036854775808"
    by (auto simp: in_i64_iff)
  with False show ?thesis
    by (simp add: ParseInt_def FormatInt_def parse_sign_digits10 ParseUint_def
        ParseUint_loop_digits10)
qed

lemma FormatInt_not_Nil [simp]: "FormatInt i \<noteq> []"
  by (simp add: FormatInt_def)

lemma FormatInt_chars:
  "c \<in> set (FormatInt i) \<Longrightarrow> is_digit c \<or> c = CHR ''-''"
  using digits10_digits by (auto simp: FormatInt_def split: if_splits)

lemma FormatInt_no_sep [simp]:
  "CHR ''_'' \<notin> set (FormatInt i)" "CHR ''/'' \<notin> set (FormatInt i)"
  "CHR ''='' \<notin> set (FormatInt i)" "CHR ''.'' \<notin> set (FormatInt i)"
  using FormatInt_chars [of _ i] sign_not_digit by fastforce+

lemma FormatInt_nonneg_no_minus [simp]: "0 \<le> i \<Longrightarrow> CHR ''-'' \<notin> set (FormatInt i)"
  using digits10_digits [of "nat i"] sign_not_digit by (auto simp: FormatInt_def)

lemma FormatInt_inject [simp]:
  "in_i64 i \<Longrightarrow> in_i64 j \<Longrightarrow> FormatInt i = FormatInt j \<longleftrightarrow> i = j"
  by (metis ParseInt_FormatInt prod.inject)

lemma ParseInt_in_i64: "in_i64 (fst (ParseInt s))"
  by (auto simp: ParseInt_def Let_def in_i64_iff split: prod.splits if_splits)

section \<open>path/filepath\<close>

text \<open>
  \<open>filepath.Clean\<close> on Unix: the components are kept on a stack (innermost first), empty
  components and dots are dropped, and a double dot removes the component before it.
\<close>

fun clean_parts :: "bool \<Rightarrow> string list \<Rightarrow> string list \<Rightarrow> string list" where
  "clean_parts rooted stk [] = rev stk"
| "clean_parts rooted stk (w # ws) =
     (if w = [] \<or> w = ''.'' then clean_parts rooted stk ws
      else if w = ''..'' then
        (case stk of
           [] \<Rightarrow> if rooted then clean_parts rooted [] ws else clean_parts rooted [w] ws
         | t # ts \<Rightarrow> if t = ''..'' then clean_parts rooted (w # stk) ws
                    else clean_parts rooted ts ws)
      else clean_parts rooted (w # stk) ws)"

definition Clean :: "string \<Rightarrow> string" where
  "Clean path =
     (let rooted = has_prefix path ''/'';
          out = (if rooted then ''/'' else '''') @
                Join_sep ''/'' (clean_parts rooted [] (Split (CHR ''/'') path))
      in if out = [] then ''.'' else out)"

text \<open>\<open>filepath.Join\<close>: leading empty elements are dropped, the rest joined and cleaned.\<close>

fun filepath_Join :: "string list \<Rightarrow> string" where
  "filepath_Join [] = []"
| "filepath_Join (e # es) = (if e = [] then filepath_Join es else Clean (Join_sep ''/'' (e # es)))"

text \<open>\<open>path.Dir\<close>: everything up to the last slash, cleaned.\<close>

definition path_Dir :: "string \<Rightarrow> string" where
  "path_Dir p = (case LastIndexByte p (CHR ''/'') of
      None \<Rightarrow> Clean []
    | Some i \<Rightarrow> Clean (take (Suc i) p))"

section \<open>net/http headers\<close>

definition is_upper :: "char \<Rightarrow> bool" where
  "is_upper c \<longleftrightarrow> 65 \<le> (of_char c :: nat) \<and> (of_char c :: nat) \<le> 90"

definition is_lower :: "char \<Rightarrow> bool" where
  "is_lower c \<longleftrightarrow> 97 \<le> (of_char c :: nat) \<and> (of_char c :: nat) \<le> 122"

definition to_upper :: "char \<Rightarrow> char" where
  "to_upper c = (if is_lower c then char_of (of_char c - 32 :: nat) else c)"

definition to_lower :: "char \<Rightarrow> char" where
  "to_lower c = (if is_upper c then char_of (of_char c + 32 :: nat) else c)"

definition is_token_char :: "char \<Rightarrow> bool" where
  "is_token_char c \<longleftrightarrow> is_upper c \<or> is_lower c \<or> is_digit c \<or> c \<in> set ''!#$%&*+-.^_`|~'' \<or> c = CHR 0x27"

fun canonical_chars :: "bool \<Rightarrow> string \<Rightarrow> string" where
  "canonical_chars up [] = []"
| "canonical_chars up (c # cs) =
     (if up then to_upper c else to_lower c) # canonical_chars (c = CHR ''-'') cs"

definition CanonicalHeaderKey :: "string \<Rightarrow> string" where
  "CanonicalHeaderKey s = (if list_all is_token_char s then canonical_chars True s else s)"

type_synonym header = "string \<rightharpoonup> string list"

definition header_Get :: "header \<Rightarrow> string \<Rightarrow> string" where
  "header_Get h k = (case h (CanonicalHeaderKey k) of
      None \<Rightarrow> [] | Some [] \<Rightarrow> [] | Some (v # vs) \<Rightarrow> v)"

definition header_Set :: "header \<Rightarrow> string \<Rightarrow> string \<Rightarrow> header" where
  "header_Set h k v = h(CanonicalHeaderKey k \<mapsto> [v])"

definition header_Del :: "header \<Rightarrow> string \<Rightarrow> header" where
  "header_Del h k = h(CanonicalHeaderKey k := None)"

lemma header_Get_Set [simp]:
  "header_Get (header_Set h k v) k' =
     (if CanonicalHeaderKey k' = CanonicalHeaderKey k then v else header_Get h k')"
  by (simp add: header_Get_def header_Set_def)

end
