(* ===== verification/OsFile.thy ===== *)
theory OsFile
  imports GoLib
begin

text \<open>
  The part of Go's \<open>os\<close> package the cache uses, over a file system of inodes: a path names an
  inode, an open file keeps its inode and its own write position, and removing a path leaves the
  inode readable through the files already open. Every system call may fail: the list \<open>faults\<close>
  scripts, call by call, whether it does, with the number of bytes moved before the failure.
\<close>

section \<open>Definitions\<close>

datatype io_fault = Fault string nat

record os_state =
  names :: "string \<rightharpoonup> nat"
  inodes :: "nat \<Rightarrow> byte list"
  next_inode :: nat
  faults :: "io_fault option list"

record os_file =
  fname :: string
  finode :: nat
  fpos :: nat
  fopen :: bool

definition next_fault :: "os_state \<Rightarrow> io_fault option \<times> os_state" where
  "next_fault os = (case faults os of
      [] \<Rightarrow> (None, os)
    | f # fs \<Rightarrow> (f, os\<lparr>faults := fs\<rparr>))"

text \<open>\<open>(*File).checkValid\<close> and the closed descriptor: a nil file is invalid.\<close>

definition valid_file :: "os_file option \<Rightarrow> goerr + os_file" where
  "valid_file f = (case f of
      None \<Rightarrow> Inl ErrInvalid
    | Some h \<Rightarrow> if fopen h then Inr h else Inl ErrClosed)"

definition content :: "os_state \<Rightarrow> os_file \<Rightarrow> byte list" where
  "content os h = inodes os (finode h)"

text \<open>The bytes stored under a path; none where there is no such file.\<close>

definition path_content :: "os_state \<Rightarrow> string \<Rightarrow> byte list" where
  "path_content os path = (case names os path of None \<Rightarrow> [] | Some i \<Rightarrow> inodes os i)"

definition os_Stat :: "os_state \<Rightarrow> os_file option \<Rightarrow> (goerr + nat) \<times> os_state" where
  "os_Stat os f = (case valid_file f of
      Inl e \<Rightarrow> (Inl e, os)
    | Inr h \<Rightarrow> (case next_fault os of
          (Some (Fault e k), os') \<Rightarrow> (Inl (Errno e), os')
        | (None, os') \<Rightarrow> (Inr (length (content os h)), os')))"

text \<open>
  \<open>(*File).ReadAt(b, off)\<close> with \<open>n = len(b)\<close>: it reads on until the buffer is full, the file
  ends (\<open>EOF\<close>) or a system call fails.
\<close>

definition os_ReadAt :: "os_state \<Rightarrow> os_file option \<Rightarrow> nat \<Rightarrow> nat \<Rightarrow> (byte list \<times> goerr option) \<times> os_state" where
  "os_ReadAt os f n off = (case valid_file f of
      Inl e \<Rightarrow> (([], Some e), os)
    | Inr h \<Rightarrow>
        if n = 0 then (([], None), os)
        else (case next_fault os of
            (Some (Fault e k), os') \<Rightarrow> ((take k (take (n - 1) (drop off (content os h))), Some (Errno e)), os')
          | (None, os') \<Rightarrow>
              let b = take n (drop off (content os h))
              in ((b, if length b < n then Some EOF else None), os')))"

definition os_Truncate :: "os_state \<Rightarrow> os_file option \<Rightarrow> goerr option \<times> os_state" where
  "os_Truncate os f = (case valid_file f of
      Inl e \<Rightarrow> (Some e, os)
    | Inr h \<Rightarrow> (case next_fault os of
          (Some (Fault e k), os') \<Rightarrow> (Some (Errno e), os')
        | (None, os') \<Rightarrow> (None, os'\<lparr>inodes := (inodes os')(finode h := [])\<rparr>)))"

text \<open>The bytes of a file after \<open>b\<close> is written at \<open>pos\<close>: a gap before \<open>pos\<close> reads as
  zeros, and writing nothing changes nothing.\<close>

definition write_at :: "nat \<Rightarrow> byte list \<Rightarrow> byte list \<Rightarrow> byte list" where
  "write_at pos b old =
     (if b = [] then old
      else take pos (old @ replicate pos 0) @ b @ drop (pos + length b) old)"

text \<open>\<open>(*File).Write\<close>: it writes at the file's position and moves it.\<close>

definition os_Write :: "os_state \<Rightarrow> os_file option \<Rightarrow> byte list \<Rightarrow> (nat \<times> goerr option) \<times> os_file option \<times> os_state" where
  "os_Write os f b = (case valid_file f of
      Inl e \<Rightarrow> ((0, Some e), f, os)
    | Inr h \<Rightarrow>
        let (flt, os1) = next_fault os;
            done = (case flt of Some (Fault e k) \<Rightarrow> take k b | None \<Rightarrow> b);
            os2 = os1\<lparr>inodes := (inodes os1)(finode h := write_at (fpos h) done (content os1 h))\<rparr>
        in ((length done, case flt of Some (Fault e k) \<Rightarrow> Some (Errno e) | None \<Rightarrow> None),
            Some (h\<lparr>fpos := fpos h + length done\<rparr>), os2))"

definition os_Close :: "os_state \<Rightarrow> os_file option \<Rightarrow> goerr option \<times> os_file option \<times> os_state" where
  "os_Close os f = (case valid_file f of
      Inl e \<Rightarrow> (Some e, f, os)
    | Inr h \<Rightarrow> (case next_fault os of
          (Some (Fault e k), os') \<Rightarrow> (Some (Errno e), Some (h\<lparr>fopen := False\<rparr>), os')
        | (None, os') \<Rightarrow> (None, Some (h\<lparr>fopen := False\<rparr>), os')))"

definition os_Remove :: "os_state \<Rightarrow> string \<Rightarrow> goerr option \<times> os_state" where
  "os_Remove os path = (case next_fault os of
      (Some (Fault e k), os') \<Rightarrow> (Some (Errno e), os')
    | (None, os') \<Rightarrow>
        if names os' path = None then (Some ErrNotExist, os')
        else (None, os'\<lparr>names := (names os')(path := None)\<rparr>))"

text \<open>Directories hold no data here: \<open>os.MkdirAll\<close> only succeeds or fails.\<close>

definition os_MkdirAll :: "os_state \<Rightarrow> string \<Rightarrow> goerr option \<times> os_state" where
  "os_MkdirAll os path = (case next_fault os of
      (Some (Fault e k), os') \<Rightarrow> (Some (Errno e), os')
    | (None, os') \<Rightarrow> (None, os'))"

text \<open>\<open>os.OpenFile(path, O_CREATE|O_RDWR, 0644)\<close>: an existing file keeps its bytes.\<close>

definition os_OpenFile :: "os_state \<Rightarrow> string \<Rightarrow> (goerr + os_file) \<times> os_state" where
  "os_OpenFile os path = (case next_fault os of
      (Some (Fault e k), os') \<Rightarrow> (Inl (Errno e), os')
    | (None, os') \<Rightarrow> (case names os' path of
          Some i \<Rightarrow> (Inr \<lparr>fname = path, finode = i, fpos = 0, fopen = True\<rparr>, os')
        | None \<Rightarrow>
            let i = next_inode os'
            in (Inr \<lparr>fname = path, finode = i, fpos = 0, fopen = True\<rparr>,
                os'\<lparr>names := (names os')(path \<mapsto> i), inodes := (inodes os')(i := []),
                    next_inode := Suc i\<rparr>)))"

section \<open>Calls that do not fail\<close>

lemma next_fault_none [simp]: "faults os = [] \<Longrightarrow> next_fault os = (None, os)"
  by (simp add: next_fault_def)

lemma next_fault_frame:
  "next_fault os = (flt, os') \<Longrightarrow> names os' = names os \<and> inodes os' = inodes os
     \<and> next_inode os' = next_inode os"
  by (auto simp: next_fault_def split: list.splits)

lemma valid_file_open [simp]: "fopen h \<Longrightarrow> valid_file (Some h) = Inr h"
  by (simp add: valid_file_def)

lemma valid_file_nil [simp]: "valid_file None = Inl ErrInvalid"
  by (simp add: valid_file_def)

lemma os_Stat_ok: "faults os = [] \<Longrightarrow> fopen h \<Longrightarrow> os_Stat os (Some h) = (Inr (length (content os h)), os)"
  by (simp add: os_Stat_def)

lemma os_Stat_nil [simp]: "os_Stat os None = (Inl ErrInvalid, os)"
  by (simp add: os_Stat_def)

lemma os_Stat_frame:
  "os_Stat os f = (r, os') \<Longrightarrow> names os' = names os \<and> inodes os' = inodes os"
  by (auto simp: os_Stat_def split: sum.splits prod.splits option.splits io_fault.splits
      dest: next_fault_frame)

lemma os_ReadAt_full:
  "os_ReadAt os f n off = ((b, None), os') \<Longrightarrow> length b = n"
  by (auto simp: os_ReadAt_def Let_def split: sum.splits if_splits prod.splits option.splits
      io_fault.splits)

lemma os_ReadAt_prefix:
  "os_ReadAt os (Some h) n off = ((b, e), os') \<Longrightarrow> b = take (length b) (drop off (content os h)) \<and> length b \<le> n"
  by (auto simp: os_ReadAt_def Let_def split: sum.splits if_splits prod.splits option.splits
      io_fault.splits simp: take_take min_def valid_file_def)

lemma os_ReadAt_frame:
  "os_ReadAt os f n off = (r, os') \<Longrightarrow> names os' = names os \<and> inodes os' = inodes os"
  by (auto simp: os_ReadAt_def Let_def split: sum.splits if_splits prod.splits option.splits
      io_fault.splits dest: next_fault_frame)

lemma write_at_empty: "write_at pos b [] = (if b = [] then [] else replicate pos 0 @ b)"
  by (simp add: write_at_def)

end
