(* ===== verification/SyncMap.thy ===== *)
theory SyncMap
  imports GoLib "HOL-Library.AList"
begin

text \<open>
  \<open>pkg/cache/syncmap.go\<close>: the bounded map that holds the files' sizes. Go's map is an
  association list with distinct keys; the order in which \<open>range\<close> visits it, which the language
  leaves open, is an argument (\<open>ord\<close>) of the operation that iterates. Every method holds the
  map's lock from its first to its last statement, so a method is one step of the map.
\<close>

section \<open>Definitions\<close>

definition defaultEvictionPercentage :: int where
  "defaultEvictionPercentage = 5"

record 'v SyncMap =
  mapObj :: "(string \<times> 'v) list"
  capacity :: int
  evictionPercentage :: int

definition SyncMap_Get :: "'v SyncMap \<Rightarrow> string \<Rightarrow> 'v option" where
  "SyncMap_Get sm key = map_of (mapObj sm) key"

fun evict_loop :: "int \<Rightarrow> int \<Rightarrow> string list \<Rightarrow> (string \<times> 'v) list \<Rightarrow> (string \<times> 'v) list" where
  "evict_loop numEvicted numToEvict [] m = m"
| "evict_loop numEvicted numToEvict (k # ks) m =
     (let m' = AList.delete k m; n = i64 (numEvicted + 1)
      in if n \<ge> numToEvict then m' else evict_loop n numToEvict ks m')"

definition num_to_evict :: "'v SyncMap \<Rightarrow> int" where
  "num_to_evict sm =
     (let numToEvict = i64 (int (length (mapObj sm)) * evictionPercentage sm) sdiv 100
      in if numToEvict \<le> 1 then 1 else numToEvict)"

definition SyncMap_Set :: "'v SyncMap \<Rightarrow> string list \<Rightarrow> string \<Rightarrow> 'v \<Rightarrow> 'v SyncMap" where
  "SyncMap_Set sm ord key entry =
     (let m = (if map_of (mapObj sm) key = None \<and> int (length (mapObj sm)) \<ge> capacity sm
               then evict_loop 0 (num_to_evict sm) ord (mapObj sm)
               else mapObj sm)
      in sm\<lparr>mapObj := AList.update key entry m\<rparr>)"

definition SyncMap_Delete :: "'v SyncMap \<Rightarrow> string \<Rightarrow> 'v SyncMap" where
  "SyncMap_Delete sm key = sm\<lparr>mapObj := AList.delete key (mapObj sm)\<rparr>"

definition NewSyncMap :: "int \<Rightarrow> 'v SyncMap" where
  "NewSyncMap maxEntries =
     \<lparr>mapObj = [], capacity = (if maxEntries \<le> 0 then 1 else maxEntries),
      evictionPercentage = defaultEvictionPercentage\<rparr>"

section \<open>Invariant\<close>

definition SyncMap_inv :: "'v SyncMap \<Rightarrow> bool" where
  "SyncMap_inv sm \<longleftrightarrow> distinct (map fst (mapObj sm)) \<and> 1 \<le> capacity sm
     \<and> int (length (mapObj sm)) \<le> capacity sm"

text \<open>A visiting order names every key of the map once.\<close>

definition range_order :: "'v SyncMap \<Rightarrow> string list \<Rightarrow> bool" where
  "range_order sm ord \<longleftrightarrow> distinct ord \<and> set ord = fst ` set (mapObj sm)"

lemma length_delete_le: "length (AList.delete k m) \<le> length m"
  by (simp add: AList.delete_eq)

lemma length_delete_mem:
  "distinct (map fst m) \<Longrightarrow> k \<in> fst ` set m \<Longrightarrow> Suc (length (AList.delete k m)) = length m"
proof (induction m)
  case (Cons x m)
  show ?case
  proof (cases "k = fst x")
    case True
    with Cons.prems have "AList.delete k m = m"
      by (auto intro: AList.delete_id)
    with True show ?thesis by (cases x) simp
  next
    case False
    with Cons show ?thesis by (cases x) auto
  qed
qed simp

lemma length_update:
  "distinct (map fst m) \<Longrightarrow>
   length (AList.update k v m) = (if k \<in> fst ` set m then length m else Suc (length m))"
  by (induction m) auto

lemma map_of_eq_None: "map_of m k = None \<longleftrightarrow> k \<notin> fst ` set m"
  by (simp add: map_of_eq_None_iff)

lemma evict_loop_distinct:
  "distinct (map fst m) \<Longrightarrow> distinct (map fst (evict_loop n t ord m))"
  by (induction n t ord m rule: evict_loop.induct)
    (auto simp: Let_def AList.distinct_delete)

lemma evict_loop_map_of:
  "map_of (evict_loop n t ord m) k = map_of m k \<or> map_of (evict_loop n t ord m) k = None"
proof (induction n t ord m rule: evict_loop.induct)
  case (2 n t j ks m)
  from "2" [OF refl refl] show ?case
    by (auto simp: Let_def AList.delete_conv' split: if_splits)
qed simp

lemma evict_loop_shrinks:
  assumes "distinct (map fst m)" "ord \<noteq> []" "hd ord \<in> fst ` set m"
  shows "length (evict_loop n t ord m) < length m"
proof -
  obtain k ks where ord: "ord = k # ks"
    using assms(2) by (cases ord) auto
  have le: "length (evict_loop n' t' ks' m') \<le> length m'" for n' t' ks' m'
    by (induction n' t' ks' m' rule: evict_loop.induct)
      (auto simp: Let_def intro: order_trans [OF _ length_delete_le] length_delete_le)
  have "length (AList.delete k m) < length m"
    using length_delete_mem [of m k] assms ord by simp
  then show ?thesis
    using le [of _ _ ks "AList.delete k m"] by (auto simp: ord Let_def intro: order_le_less_trans)
qed

text \<open>The number of entries the loop removes is the number it was asked to remove.\<close>

lemma evict_loop_length:
  assumes "distinct (map fst m)" "distinct ord" "set ord \<subseteq> fst ` set m"
    and "0 \<le> n" "n < t" "t - n \<le> int (length ord)" "t \<le> MaxInt64"
  shows "int (length (evict_loop n t ord m)) = int (length m) - (t - n)"
  using assms
proof (induction n t ord m rule: evict_loop.induct)
  case (2 n t k ks m)
  have n: "i64 (n + 1) = n + 1"
    using "2.prems" by (intro i64_id in_i64_nonneg) auto
  have len: "Suc (length (AList.delete k m)) = length m"
    using "2.prems" by (intro length_delete_mem) auto
  have keys: "set ks \<subseteq> fst ` set (AList.delete k m)"
    using "2.prems" by (auto simp: AList.delete_eq image_iff) force
  show ?case
  proof (cases "n + 1 \<ge> t")
    case True
    with "2.prems" len show ?thesis by (simp add: Let_def n)
  next
    case False
    with "2.IH" [OF refl refl] "2.prems" keys n len show ?thesis
      by (simp add: Let_def AList.distinct_delete)
  qed
qed simp

lemma SyncMap_Set_inv:
  assumes "SyncMap_inv sm" "range_order sm ord"
  shows "SyncMap_inv (SyncMap_Set sm ord key entry)"
proof (cases "map_of (mapObj sm) key = None \<and> int (length (mapObj sm)) \<ge> capacity sm")
  case True
  let ?m = "evict_loop 0 (num_to_evict sm) ord (mapObj sm)"
  have "mapObj sm \<noteq> []"
    using True assms(1) by (auto simp: SyncMap_inv_def)
  then have ord: "ord \<noteq> []"
    using assms(2) by (auto simp: range_order_def)
  then have hd: "hd ord \<in> fst ` set (mapObj sm)"
    using assms(2) list.set_sel(1) [of ord] by (simp add: range_order_def)
  have "length ?m < length (mapObj sm)"
    using assms ord hd by (intro evict_loop_shrinks) (auto simp: SyncMap_inv_def)
  then show ?thesis
    using True assms
    by (simp add: SyncMap_inv_def SyncMap_Set_def Let_def evict_loop_distinct AList.distinct_update
        length_update)
next
  case False
  then show ?thesis
    using assms
    by (auto simp: SyncMap_inv_def SyncMap_Set_def Let_def AList.distinct_update length_update
        map_of_eq_None)
qed

lemma SyncMap_Delete_inv: "SyncMap_inv sm \<Longrightarrow> SyncMap_inv (SyncMap_Delete sm key)"
  using length_delete_le [of key "mapObj sm"]
  by (simp add: SyncMap_inv_def SyncMap_Delete_def AList.distinct_delete)

lemma NewSyncMap_inv: "SyncMap_inv (NewSyncMap n)"
  by (simp add: SyncMap_inv_def NewSyncMap_def)

lemma Get_Set_same [simp]: "SyncMap_Get (SyncMap_Set sm ord key entry) key = Some entry"
  by (simp add: SyncMap_Get_def SyncMap_Set_def Let_def AList.update_conv')

lemma Get_Set_other:
  "k \<noteq> key \<Longrightarrow> SyncMap_Get (SyncMap_Set sm ord key entry) k = SyncMap_Get sm k
     \<or> SyncMap_Get (SyncMap_Set sm ord key entry) k = None"
  using evict_loop_map_of [of 0 "num_to_evict sm" ord "mapObj sm" k]
  by (auto simp: SyncMap_Get_def SyncMap_Set_def Let_def AList.update_conv')

lemma Get_Delete:
  "SyncMap_Get (SyncMap_Delete sm key) k = (if k = key then None else SyncMap_Get sm k)"
  by (simp add: SyncMap_Get_def SyncMap_Delete_def AList.delete_conv')

section \<open>The contract of a bounded key-value store\<close>

text \<open>
  What a client of such a map relies on: a stored value is found, no operation makes a value appear
  under another key, and the well-formedness of the store is kept. A store may forget a key at any
  time. The client's theorem: a value found for a key is the last one stored under it.
\<close>

datatype 'v kv_op = KvSet "string list" string 'v | KvDelete string

fun kv_run :: "('s \<Rightarrow> string list \<Rightarrow> string \<Rightarrow> 'v \<Rightarrow> 's) \<Rightarrow> ('s \<Rightarrow> string \<Rightarrow> 's) \<Rightarrow> 's \<Rightarrow> 'v kv_op list \<Rightarrow> 's" where
  "kv_run put del s [] = s"
| "kv_run put del s (KvSet ord k v # ops) = kv_run put del (put s ord k v) ops"
| "kv_run put del s (KvDelete k # ops) = kv_run put del (del s k) ops"

fun kv_ok :: "('s \<Rightarrow> string list \<Rightarrow> bool) \<Rightarrow> ('s \<Rightarrow> string list \<Rightarrow> string \<Rightarrow> 'v \<Rightarrow> 's) \<Rightarrow> ('s \<Rightarrow> string \<Rightarrow> 's) \<Rightarrow> 's \<Rightarrow> 'v kv_op list \<Rightarrow> bool" where
  "kv_ok okord put del s [] = True"
| "kv_ok okord put del s (KvSet ord k v # ops) =
     (okord s ord \<and> kv_ok okord put del (put s ord k v) ops)"
| "kv_ok okord put del s (KvDelete k # ops) = kv_ok okord put del (del s k) ops"

fun last_stored :: "'v option \<Rightarrow> 'v kv_op list \<Rightarrow> string \<Rightarrow> 'v option" where
  "last_stored d [] k = d"
| "last_stored d (KvSet ord j v # ops) k = last_stored (if j = k then Some v else d) ops k"
| "last_stored d (KvDelete j # ops) k = last_stored (if j = k then None else d) ops k"

locale kv_store =
  fixes get :: "'s \<Rightarrow> string \<Rightarrow> 'v option"
    and put :: "'s \<Rightarrow> string list \<Rightarrow> string \<Rightarrow> 'v \<Rightarrow> 's"
    and del :: "'s \<Rightarrow> string \<Rightarrow> 's"
    and okord :: "'s \<Rightarrow> string list \<Rightarrow> bool"
    and invar :: "'s \<Rightarrow> bool"
  assumes get_put_same: "get (put s ord k v) k = Some v"
    and get_put_other: "j \<noteq> k \<Longrightarrow> get (put s ord k v) j = get s j \<or> get (put s ord k v) j = None"
    and get_del: "get (del s k) j = (if j = k then None else get s j)"
    and invar_put: "invar s \<Longrightarrow> okord s ord \<Longrightarrow> invar (put s ord k v)"
    and invar_del: "invar s \<Longrightarrow> invar (del s k)"
begin

lemma run_invar: "invar s \<Longrightarrow> kv_ok okord put del s ops \<Longrightarrow> invar (kv_run put del s ops)"
proof (induction ops arbitrary: s)
  case (Cons x ops)
  then show ?case by (cases x) (auto intro: invar_put invar_del)
qed simp

lemma run_last_stored:
  assumes "get s k = None \<or> get s k = d" "get (kv_run put del s ops) k = Some v"
  shows "last_stored d ops k = Some v"
  using assms
proof (induction ops arbitrary: s d)
  case (Cons x ops)
  show ?case
  proof (cases x)
    case (KvSet ord j w)
    let ?d = "if j = k then Some w else d"
    have "get (put s ord j w) k = None \<or> get (put s ord j w) k = ?d"
      using Cons.prems(1) get_put_other [of k j s ord w] get_put_same by auto
    with Cons KvSet show ?thesis by simp
  next
    case (KvDelete j)
    let ?d = "if j = k then None else d"
    have "get (del s j) k = None \<or> get (del s j) k = ?d"
      using Cons.prems(1) by (auto simp: get_del)
    with Cons KvDelete show ?thesis by simp
  qed
qed auto

end

interpretation sm: kv_store SyncMap_Get SyncMap_Set SyncMap_Delete range_order SyncMap_inv
  by unfold_locales
    (simp_all add: Get_Delete Get_Set_other SyncMap_Set_inv SyncMap_Delete_inv)

section \<open>Properties\<close>

text \<open>Whatever the visiting orders of the evictions, a map that starts empty never holds more
  entries than its capacity and never holds a key twice, after any sequence of sets and deletes.\<close>

theorem SyncMap_bounded:
  assumes "kv_ok range_order SyncMap_Set SyncMap_Delete (NewSyncMap n :: 'v SyncMap) ops"
  shows "SyncMap_inv (kv_run SyncMap_Set SyncMap_Delete (NewSyncMap n) ops)"
  using NewSyncMap_inv assms by (rule sm.run_invar)

theorem SyncMap_bounded_witness:
  "SyncMap_inv (kv_run SyncMap_Set SyncMap_Delete (NewSyncMap 1)
     [KvSet [] ''a'' (1::int), KvSet [''a''] ''b'' 2])"
  by (rule SyncMap_bounded)
    (simp add: range_order_def NewSyncMap_def SyncMap_Set_def defaultEvictionPercentage_def)

text \<open>No stale reads. If a key is found after any sequence of sets and deletes on a new map, the
  value found is the one most recently set for that key, and the key was not deleted since.\<close>

theorem SyncMap_no_stale_read:
  assumes "SyncMap_Get (kv_run SyncMap_Set SyncMap_Delete (NewSyncMap n) ops) key = Some v"
  shows "last_stored None ops key = Some v"
proof -
  have "SyncMap_Get (NewSyncMap n :: 'a SyncMap) key = None"
    by (simp add: SyncMap_Get_def NewSyncMap_def)
  with assms show ?thesis
    by (intro sm.run_last_stored) simp_all
qed

theorem SyncMap_no_stale_read_witness:
  "last_stored None [KvSet [] ''a'' (1::int), KvSet [''a''] ''b'' 2, KvSet [''b''] ''b'' 3] ''b''
     = Some 3"
  by (rule SyncMap_no_stale_read [where n = 1])
    (simp add: SyncMap_Get_def NewSyncMap_def SyncMap_Set_def defaultEvictionPercentage_def
      num_to_evict_def)

text \<open>Setting a key evicts only when the key is new and the map is full; then exactly
  one twentieth of the entries, and at least one, leaves. The new entry is found afterwards, and every
  other key keeps its value or is among the evicted ones.\<close>

theorem SyncMap_Set_evicts:
  assumes "SyncMap_inv sm" "range_order sm ord"
    and "evictionPercentage sm = 5" "capacity sm \<le> 1000000000000"
  shows "let full = (SyncMap_Get sm key = None \<and> int (length (mapObj sm)) = capacity sm);
             sm' = SyncMap_Set sm ord key entry;
             evicted = {k. SyncMap_Get sm k \<noteq> None \<and> SyncMap_Get sm' k = None}
         in SyncMap_Get sm' key = Some entry
          \<and> (\<forall>k. k \<noteq> key \<and> k \<notin> evicted \<longrightarrow> SyncMap_Get sm' k = SyncMap_Get sm k)
          \<and> (\<not> full \<longrightarrow> evicted = {})
          \<and> (full \<longrightarrow> int (length (mapObj sm')) =
                capacity sm - max 1 (capacity sm * 5 div 100) + 1)"
proof -
  let ?n = "int (length (mapObj sm))" and ?sm = "SyncMap_Set sm ord key entry"
  have frame: "SyncMap_Get ?sm k = SyncMap_Get sm k"
    if "k \<noteq> key" "\<not> (SyncMap_Get sm k \<noteq> None \<and> SyncMap_Get ?sm k = None)" for k
    using that Get_Set_other [of k key sm ord entry] by auto
  have room: "SyncMap_Get ?sm k \<noteq> None"
    if "\<not> (SyncMap_Get sm key = None \<and> ?n = capacity sm)" "SyncMap_Get sm k \<noteq> None" for k
    using that assms(1)
    by (auto simp: SyncMap_Get_def SyncMap_Set_def Let_def AList.update_conv' SyncMap_inv_def)
  have full: "int (length (mapObj ?sm)) = capacity sm - max 1 (capacity sm * 5 div 100) + 1"
    if key: "SyncMap_Get sm key = None" and n: "?n = capacity sm"
  proof -
    let ?m = "evict_loop 0 (num_to_evict sm) ord (mapObj sm)"
    have c: "1 \<le> capacity sm" "distinct (map fst (mapObj sm))"
      using assms(1) by (simp_all add: SyncMap_inv_def)
    have "i64 (capacity sm * 5) = capacity sm * 5"
      using c assms(4) by (intro i64_id) (simp add: in_i64_iff)
    then have t: "num_to_evict sm = max 1 (capacity sm * 5 div 100)"
      using c by (simp add: num_to_evict_def n assms(3) signed_divide_int_def Let_def max_def)
    have "int (length ord) = ?n"
      using assms(2) c(2) by (metis distinct_card length_map range_order_def set_map)
    then have "int (length ?m) = ?n - (num_to_evict sm - 0)"
      using assms(2,4) c n by (intro evict_loop_length) (auto simp: range_order_def t MaxInt64_def)
    moreover have "map_of ?m key = None"
      using key evict_loop_map_of [of 0 "num_to_evict sm" ord "mapObj sm" key] by (auto simp: SyncMap_Get_def)
    moreover have "distinct (map fst ?m)"
      using c by (simp add: evict_loop_distinct)
    ultimately show ?thesis
      using key n t
      by (simp add: SyncMap_Set_def SyncMap_Get_def length_update map_of_eq_None)
  qed
  show ?thesis
    unfolding Let_def
  proof (intro conjI allI impI)
    fix k
    assume "k \<noteq> key \<and> k \<notin> {k. SyncMap_Get sm k \<noteq> None \<and> SyncMap_Get ?sm k = None}"
    then show "SyncMap_Get ?sm k = SyncMap_Get sm k"
      by (intro frame) simp_all
  next
    assume "\<not> (SyncMap_Get sm key = None \<and> ?n = capacity sm)"
    with room show "{k. SyncMap_Get sm k \<noteq> None \<and> SyncMap_Get ?sm k = None} = {}"
      by blast
  qed (use full in simp_all)
qed

theorem SyncMap_Set_evicts_witness:
  "length (mapObj (SyncMap_Set \<lparr>mapObj = [(''a'', 1::int), (''b'', 2)], capacity = 2,
     evictionPercentage = 5\<rparr> [''b'', ''a''] ''c'' 3)) = 2"
  using SyncMap_Set_evicts [of "\<lparr>mapObj = [(''a'', 1::int), (''b'', 2)], capacity = 2,
     evictionPercentage = 5\<rparr>" "[''b'', ''a'']" "''c''" 3]
  by (simp add: SyncMap_inv_def range_order_def SyncMap_Get_def Let_def insert_commute)

section \<open>Refinement of a bounded map\<close>

text \<open>The abstract specification knows no representation and no visiting order: a partial map of at most
  \<open>cap\<close> keys. Setting a key that is present, or that still fits, updates the map; otherwise some set of
  exactly \<open>max 1 (cap * 5 div 100)\<close> keys is forgotten first.\<close>

inductive bounded_run :: "int \<Rightarrow> (string \<rightharpoonup> 'v) \<Rightarrow> 'v kv_op list \<Rightarrow> (string \<rightharpoonup> 'v) \<Rightarrow> bool" for cap where
  bounded_nil: "bounded_run cap m [] m"
| bounded_fits: "k \<in> dom m \<or> int (card (dom m)) < cap \<Longrightarrow> bounded_run cap (m(k \<mapsto> v)) ops m' \<Longrightarrow>
    bounded_run cap m (KvSet ord k v # ops) m'"
| bounded_evicts: "k \<notin> dom m \<Longrightarrow> int (card (dom m)) = cap \<Longrightarrow> E \<subseteq> dom m \<Longrightarrow> int (card E) = max 1 (cap * 5 div 100) \<Longrightarrow>
    bounded_run cap ((m |` (- E))(k \<mapsto> v)) ops m' \<Longrightarrow> bounded_run cap m (KvSet ord k v # ops) m'"
| bounded_delete: "bounded_run cap (m(k := None)) ops m' \<Longrightarrow> bounded_run cap m (KvDelete k # ops) m'"

lemma dom_Get: "dom (SyncMap_Get sm) = fst ` set (mapObj sm)"
  by (simp add: SyncMap_Get_def [abs_def] dom_map_of_conv_image_fst)

lemma card_dom_Get: "SyncMap_inv sm \<Longrightarrow> card (dom (SyncMap_Get sm)) = length (mapObj sm)"
  by (metis SyncMap_inv_def distinct_card dom_Get length_map set_map)

lemma capacity_kept [simp]:
  "capacity (SyncMap_Set sm ord k v) = capacity sm" "evictionPercentage (SyncMap_Set sm ord k v) = evictionPercentage sm"
  "capacity (SyncMap_Delete sm k) = capacity sm" "evictionPercentage (SyncMap_Delete sm k) = evictionPercentage sm"
  by (simp_all add: SyncMap_Set_def SyncMap_Delete_def Let_def)

lemma Set_fits:
  assumes "SyncMap_inv sm" "key \<in> dom (SyncMap_Get sm) \<or> int (card (dom (SyncMap_Get sm))) < capacity sm"
  shows "SyncMap_Get (SyncMap_Set sm ord key v) = (SyncMap_Get sm)(key \<mapsto> v)"
proof
  fix k
  have "\<not> (map_of (mapObj sm) key = None \<and> capacity sm \<le> int (length (mapObj sm)))"
    using assms card_dom_Get [OF assms(1)] by (auto simp: SyncMap_Get_def)
  then show "SyncMap_Get (SyncMap_Set sm ord key v) k = ((SyncMap_Get sm)(key \<mapsto> v)) k"
    by (auto simp: SyncMap_Get_def SyncMap_Set_def AList.update_conv')
qed

lemma Set_evicts:
  assumes "SyncMap_inv sm" "range_order sm ord" "evictionPercentage sm = 5" "capacity sm \<le> 1000000000000"
    and "key \<notin> dom (SyncMap_Get sm)" "int (card (dom (SyncMap_Get sm))) = capacity sm"
  shows "\<exists>E \<subseteq> dom (SyncMap_Get sm). int (card E) = max 1 (capacity sm * 5 div 100)
    \<and> SyncMap_Get (SyncMap_Set sm ord key v) = (SyncMap_Get sm |` (- E))(key \<mapsto> v)"
proof (intro exI conjI)
  let ?g = "SyncMap_Get sm" and ?g' = "SyncMap_Get (SyncMap_Set sm ord key v)"
  let ?E = "{k. ?g k \<noteq> None \<and> ?g' k = None}"
  have key: "?g key = None" "int (length (mapObj sm)) = capacity sm"
    using assms(5,6) card_dom_Get [OF assms(1)] by auto
  note ev = SyncMap_Set_evicts [OF assms(1-4), of key v, unfolded Let_def]
  show sub: "?E \<subseteq> dom ?g" by auto
  show eq: "?g' = (?g |` (- ?E))(key \<mapsto> v)"
  proof
    fix k show "?g' k = ((?g |` (- ?E))(key \<mapsto> v)) k"
      using ev Get_Set_other [of k key sm ord v] by (cases "k = key") (auto simp: restrict_map_def)
  qed
  have fin: "finite (dom ?g)" by (simp add: dom_Get)
  have "dom ?g' = insert key (dom ?g - ?E)" by (subst eq) (auto simp: restrict_map_def split: if_splits)
  then have "card (dom ?g') = Suc (card (dom ?g - ?E))"
    using fin assms(5) by simp
  moreover have "card (dom ?g - ?E) = card (dom ?g) - card ?E" "card ?E \<le> card (dom ?g)"
    using sub fin by (auto intro: card_Diff_subset finite_subset card_mono)
  moreover have "int (card (dom ?g')) = capacity sm - max 1 (capacity sm * 5 div 100) + 1"
    using ev key card_dom_Get [OF SyncMap_Set_inv [OF assms(1,2)]] by simp
  ultimately show "int (card ?E) = max 1 (capacity sm * 5 div 100)"
    using assms(6) by simp
qed

lemma refines_from:
  assumes "SyncMap_inv sm" "kv_ok range_order SyncMap_Set SyncMap_Delete sm ops"
    and "evictionPercentage sm = 5" "capacity sm \<le> 1000000000000"
  shows "bounded_run (capacity sm) (SyncMap_Get sm) ops (SyncMap_Get (kv_run SyncMap_Set SyncMap_Delete sm ops))"
  using assms
proof (induction ops arbitrary: sm)
  case Nil
  show ?case by (simp add: bounded_nil)
next
  case (Cons x ops)
  show ?case
  proof (cases x)
    case (KvSet ord k v)
    let ?sm = "SyncMap_Set sm ord k v"
    have ord: "range_order sm ord" using Cons.prems(2) KvSet by simp
    have run: "bounded_run (capacity sm) (SyncMap_Get ?sm) ops (SyncMap_Get (kv_run SyncMap_Set SyncMap_Delete ?sm ops))"
      using Cons.IH [of ?sm] Cons.prems KvSet by (simp add: SyncMap_Set_inv)
    show ?thesis
    proof (cases "k \<in> dom (SyncMap_Get sm) \<or> int (card (dom (SyncMap_Get sm))) < capacity sm")
      case True
      from bounded_fits [OF this] run show ?thesis
        by (simp add: KvSet Set_fits [OF Cons.prems(1) True])
    next
      case False
      then have k: "k \<notin> dom (SyncMap_Get sm)" "int (card (dom (SyncMap_Get sm))) = capacity sm"
        using Cons.prems(1) card_dom_Get [OF Cons.prems(1)] by (auto simp: SyncMap_inv_def)
      from Set_evicts [OF Cons.prems(1) ord Cons.prems(3,4) k, of v] obtain E where
        "E \<subseteq> dom (SyncMap_Get sm)" "int (card E) = max 1 (capacity sm * 5 div 100)"
        "SyncMap_Get ?sm = (SyncMap_Get sm |` (- E))(k \<mapsto> v)" by auto
      with bounded_evicts [OF k] run show ?thesis by (simp add: KvSet)
    qed
  next
    case (KvDelete k)
    have "SyncMap_Get (SyncMap_Delete sm k) = (SyncMap_Get sm)(k := None)"
      by (auto simp: Get_Delete)
    moreover have "bounded_run (capacity sm) (SyncMap_Get (SyncMap_Delete sm k)) ops
        (SyncMap_Get (kv_run SyncMap_Set SyncMap_Delete (SyncMap_Delete sm k) ops))"
      using Cons.IH [of "SyncMap_Delete sm k"] Cons.prems KvDelete by (simp add: SyncMap_Delete_inv)
    ultimately show ?thesis
      by (simp add: KvDelete bounded_delete)
  qed
qed

text \<open>C22: the map refines the abstract bounded map: what the lookups of a new map show after any sequence
  of sets and deletes, with any visiting order in the evictions, is the result of a run of the
  specification with the map's capacity over the same operations. So a value is forgotten only where a
  new key meets a full map, then one twentieth of the keys and at least one, and a value found is the
  last one set.\<close>

theorem SyncMap_refines_bounded_map:
  assumes "kv_ok range_order SyncMap_Set SyncMap_Delete (NewSyncMap n) ops" "n \<le> 1000000000000"
  shows "bounded_run (max 1 n) Map.empty ops (SyncMap_Get (kv_run SyncMap_Set SyncMap_Delete (NewSyncMap n) ops))"
proof -
  have "SyncMap_Get (NewSyncMap n :: 'a SyncMap) = Map.empty" "capacity (NewSyncMap n :: 'a SyncMap) = max 1 n"
    "evictionPercentage (NewSyncMap n :: 'a SyncMap) = 5"
    by (auto simp: SyncMap_Get_def NewSyncMap_def defaultEvictionPercentage_def)
  with refines_from [OF NewSyncMap_inv assms(1)] assms(2) show ?thesis by simp
qed

theorem SyncMap_refines_bounded_map_witness:
  "bounded_run 1 Map.empty [KvSet [] ''a'' (1::int), KvSet [''a''] ''b'' 2]
     (SyncMap_Get (kv_run SyncMap_Set SyncMap_Delete (NewSyncMap 1) [KvSet [] ''a'' 1, KvSet [''a''] ''b'' 2]))"
  using SyncMap_refines_bounded_map [of 1 "[KvSet [] ''a'' (1::int), KvSet [''a''] ''b'' 2]"]
  by (simp add: range_order_def NewSyncMap_def SyncMap_Set_def defaultEvictionPercentage_def)

end
