(* ===== verification/Item.thy ===== *)
theory Item
  imports OsFile SyncMap
begin

text \<open>
  \<open>pkg/cache/item.go\<close>: a cached chunk, backed by a file. The functions that read and write the
  whole file (\<open>readFromStart\<close>, \<open>writeAll\<close>) act on the file system and the open file; the
  item's methods act on the heap of items that the cache and the eviction callback share.
\<close>

section \<open>State\<close>

text \<open>The state of a \<open>sync.RWMutex\<close>: how many readers hold it, and whether a writer does.\<close>

record rwmutex =
  readers :: nat
  writer :: bool

definition unlocked :: rwmutex where
  "unlocked = \<lparr>readers = 0, writer = False\<rparr>"

record item =
  item_key :: string
  item_file :: "os_file option"
  item_lock :: rwmutex

text \<open>
  What the cache package shares: the file system, the heap of \<open>*item\<close> objects, the global
  descriptor counter, the third-party cache (an abstract value), the size map, the cache's own lock
  and path. \<open>env\<close> is whatever the fetch callbacks act on.
\<close>

record ('rc, 'x) cstate =
  os :: os_state
  items :: "nat \<Rightarrow> item"
  next_item :: nat
  fdCnt :: int
  rist :: 'rc
  metadataCache :: "int SyncMap"
  cpath :: string
  clock :: bool
  env :: 'x

section \<open>Whole-file reads and writes\<close>

text \<open>
  The read loop of \<open>readFromStart\<close>: \<open>acc\<close> holds the bytes read so far, so its length is the
  source's \<open>offset\<close>.
\<close>

function read_loop :: "os_state \<Rightarrow> os_file option \<Rightarrow> nat \<Rightarrow> byte list \<Rightarrow> (byte list \<times> goerr option) \<times> os_state" where
  "read_loop s f fileSize acc =
     (if length acc < fileSize then
        (case os_ReadAt s f (fileSize - length acc) (length acc) of
           ((b, Some e), s') \<Rightarrow> ((acc @ b, Some e), s')
         | ((b, None), s') \<Rightarrow> read_loop s' f fileSize (acc @ b))
      else ((acc, None), s))"
  by pat_completeness auto
termination
  by (relation "measure (\<lambda>(s, f, n, acc). n - length acc)") (auto dest: os_ReadAt_full [OF sym])

definition readFromStart :: "os_state \<Rightarrow> os_file option \<Rightarrow> (byte list \<times> goerr option) \<times> os_state" where
  "readFromStart s f = (case os_Stat s f of
      (Inl e, s1) \<Rightarrow> (([], Some e), s1)
    | (Inr fileSize, s1) \<Rightarrow>
        let ((b, err), s2) = read_loop s1 f fileSize [];
            err = (if err = Some EOF then None else err)
        in if err \<noteq> None then (([], err), s2)
           else if length b \<noteq> fileSize then (([], Some ErrUnexpectedEOF), s2)
           else ((b, None), s2))"

definition file_Name :: "os_file option \<Rightarrow> string outcome" where
  "file_Name f = (case f of None \<Rightarrow> Panic NilDereference | Some h \<Rightarrow> Ret (fname h))"

definition writeAll :: "os_state \<Rightarrow> os_file option \<Rightarrow> byte list \<Rightarrow> (nat \<times> goerr option) outcome \<times> os_file option \<times> os_state" where
  "writeAll s f buff = (case os_Truncate s f of
      (Some e, s1) \<Rightarrow> (Ret (0, Some e), f, s1)
    | (None, s1) \<Rightarrow> (case os_Write s1 f buff of
          ((l, Some e), f2, s2) \<Rightarrow>
            (case file_Name f2 of
               Ret nm \<Rightarrow> (Ret (0, Some e), f2, snd (os_Remove s2 nm))
             | Panic p \<Rightarrow> (Panic p, f2, s2)
             | Hang \<Rightarrow> (Hang, f2, s2))
        | ((l, None), f2, s2) \<Rightarrow> (Ret (l, None), f2, s2)))"

section \<open>Locks and the heap of items\<close>

definition upd_item :: "nat \<Rightarrow> (item \<Rightarrow> item) \<Rightarrow> ('rc, 'x) cstate \<Rightarrow> ('rc, 'x) cstate" where
  "upd_item r f s = s\<lparr>items := (items s)(r := f (items s r))\<rparr>"

definition item_Lock :: "nat \<Rightarrow> (('rc, 'x) cstate, unit) go" where
  "item_Lock r = (\<lambda>s.
     if writer (item_lock (items s r)) \<or> 0 < readers (item_lock (items s r)) then (Hang, s)
     else (Ret (), upd_item r (\<lambda>i. i\<lparr>item_lock := (item_lock i)\<lparr>writer := True\<rparr>\<rparr>) s))"

definition item_Unlock :: "nat \<Rightarrow> (('rc, 'x) cstate, unit) go" where
  "item_Unlock r = modify (upd_item r (\<lambda>i. i\<lparr>item_lock := (item_lock i)\<lparr>writer := False\<rparr>\<rparr>))"

definition item_RLock :: "nat \<Rightarrow> (('rc, 'x) cstate, unit) go" where
  "item_RLock r = (\<lambda>s.
     if writer (item_lock (items s r)) then (Hang, s)
     else (Ret (), upd_item r (\<lambda>i. i\<lparr>item_lock := (item_lock i)\<lparr>readers := Suc (readers (item_lock i))\<rparr>\<rparr>) s))"

definition item_RUnlock :: "nat \<Rightarrow> (('rc, 'x) cstate, unit) go" where
  "item_RUnlock r = modify (upd_item r (\<lambda>i. i\<lparr>item_lock := (item_lock i)\<lparr>readers := readers (item_lock i) - 1\<rparr>\<rparr>))"

text \<open>\<open>defer fin()\<close>: the deferred call runs when the body returns and when it panics.\<close>

definition with_defer :: "('s, unit) go \<Rightarrow> ('s, 'a) go \<Rightarrow> ('s, 'a) go" where
  "with_defer fin m = (\<lambda>s. case m s of
      (Hang, s1) \<Rightarrow> (Hang, s1)
    | (x, s1) \<Rightarrow> (case fin s1 of (Hang, s2) \<Rightarrow> (Hang, s2) | (_, s2) \<Rightarrow> (x, s2)))"

definition item_Stat :: "nat \<Rightarrow> (('rc, 'x) cstate, goerr + nat) go" where
  "item_Stat r = (\<lambda>s. case os_Stat (os s) (item_file (items s r)) of (x, s') \<Rightarrow> (Ret x, s\<lparr>os := s'\<rparr>))"

definition item_Name :: "nat \<Rightarrow> (('rc, 'x) cstate, string) go" where
  "item_Name r = (\<lambda>s. (file_Name (item_file (items s r)), s))"

definition do_Remove :: "string \<Rightarrow> (('rc, 'x) cstate, goerr option) go" where
  "do_Remove path = (\<lambda>s. case os_Remove (os s) path of (x, s') \<Rightarrow> (Ret x, s\<lparr>os := s'\<rparr>))"

section \<open>The methods of item\<close>

definition item_drop_body :: "nat \<Rightarrow> (('rc, 'x) cstate, unit) go" where
  "item_drop_body r =
     bind (modify (\<lambda>s. s\<lparr>fdCnt := i32 (fdCnt s - 1)\<rparr>)) (\<lambda>_.
     bind (item_Name r) (\<lambda>nm.
     bind (\<lambda>s. case os_Close (os s) (item_file (items s r)) of
             (e, f, s') \<Rightarrow> (Ret e, upd_item r (\<lambda>i. i\<lparr>item_file := f\<rparr>) (s\<lparr>os := s'\<rparr>))) (\<lambda>_.
     bind (do_Remove nm) (\<lambda>_.
     modify (upd_item r (\<lambda>i. i\<lparr>item_file := None\<rparr>))))))"

definition item_drop :: "nat \<Rightarrow> (('rc, 'x) cstate, unit) go" where
  "item_drop r = bind (item_Lock r) (\<lambda>_. with_defer (item_Unlock r) (item_drop_body r))"

definition item_bytes :: "nat \<Rightarrow> (('rc, 'x) cstate, byte list) go" where
  "item_bytes r =
     bind (\<lambda>s. case readFromStart (os s) (item_file (items s r)) of (x, s') \<Rightarrow> (Ret x, s\<lparr>os := s'\<rparr>))
       (\<lambda>(b, err). if err \<noteq> None then bind (item_Name r) (\<lambda>_. ret []) else ret b)"

text \<open>The fetch callback acts on \<open>env\<close> only.\<close>

definition run_fetch :: "('x, byte list \<times> goerr option) go \<Rightarrow> (('rc, 'x) cstate, byte list \<times> goerr option) go" where
  "run_fetch fetch = (\<lambda>s. case fetch (env s) of (x, e') \<Rightarrow> (x, s\<lparr>env := e'\<rparr>))"

definition item_fill :: "nat \<Rightarrow> ('x, byte list \<times> goerr option) go \<Rightarrow> (('rc, 'x) cstate, nat \<times> goerr option) go" where
  "item_fill r fetch =
     bind (run_fetch fetch) (\<lambda>(buffer, err).
       case err of
         Some e \<Rightarrow> bind (item_Name r) (\<lambda>nm. bind (do_Remove nm) (\<lambda>_. ret (0, Some e)))
       | None \<Rightarrow> (\<lambda>s. case writeAll (os s) (item_file (items s r)) buffer of
             (x, f, s') \<Rightarrow> (x, upd_item r (\<lambda>i. i\<lparr>item_file := f\<rparr>) (s\<lparr>os := s'\<rparr>))))"

definition newItem :: "string \<Rightarrow> (('rc, 'x) cstate, goerr + nat) go" where
  "newItem key = (\<lambda>s. case os_MkdirAll (os s) (path_Dir key) of
      (Some e, os1) \<Rightarrow> (Ret (Inl e), s\<lparr>os := os1\<rparr>)
    | (None, os1) \<Rightarrow>
        let s1 = s\<lparr>os := os1, fdCnt := i32 (fdCnt s + 1)\<rparr>
        in (case os_OpenFile os1 key of
              (Inl e, os2) \<Rightarrow> (Ret (Inl e), s1\<lparr>os := os2\<rparr>)
            | (Inr h, os2) \<Rightarrow>
                (Ret (Inr (next_item s)),
                 s1\<lparr>os := os2, next_item := Suc (next_item s),
                    items := (items s)(next_item s :=
                      \<lparr>item_key = key, item_file = Some h, item_lock = unlocked\<rparr>)\<rparr>)))"

section \<open>Reading back what was written\<close>

declare read_loop.simps [simp del]

lemma read_loop_prefix:
  assumes "read_loop s (Some h) n acc = ((b, err), s')" "acc = take (length acc) (content s h)"
    and "length acc \<le> n"
  shows "b = take (length b) (content s h) \<and> length b \<le> n
    \<and> names s' = names s \<and> inodes s' = inodes s"
  using assms
proof (induction s "Some h" n acc rule: read_loop.induct)
  case (1 s n acc)
  show ?case
  proof (cases "length acc < n")
    case False
    with "1.prems" show ?thesis by (simp add: read_loop.simps [of s])
  next
    case True
    obtain c e s1 where r: "os_ReadAt s (Some h) (n - length acc) (length acc) = ((c, e), s1)"
      by (metis prod.collapse)
    have c: "c = take (length c) (drop (length acc) (content s h))" "length c \<le> n - length acc"
      using os_ReadAt_prefix [OF r] by auto
    have fr: "names s1 = names s" "inodes s1 = inodes s"
      using os_ReadAt_frame [OF r] by auto
    have "acc @ c = take (length acc) (content s h) @ take (length c) (drop (length acc) (content s h))"
      using "1.prems"(2) c(1) by metis
    then have acc: "acc @ c = take (length (acc @ c)) (content s h)"
      by (metis length_append take_add)
    have len: "length (acc @ c) \<le> n"
      using True c(2) by simp
    show ?thesis
    proof (cases e)
      case (Some e')
      with "1.prems"(1) r True acc len fr show ?thesis
        by (simp add: read_loop.simps [of s])
    next
      case None
      have "read_loop s1 (Some h) n (acc @ c) = ((b, err), s')"
        using "1.prems"(1) r True None by (simp add: read_loop.simps [of s])
      moreover have "content s1 h = content s h"
        by (simp add: content_def fr)
      ultimately show ?thesis
        using "1.hyps" [OF True r [symmetric] refl None] acc len fr by simp
    qed
  qed
qed

text \<open>Whatever fails on the way, a read that reports no error returned the whole file.\<close>

lemma readFromStart_sound:
  assumes "readFromStart s f = ((b, None), s')"
  shows "\<exists>h. f = Some h \<and> b = content s h \<and> inodes s' = inodes s \<and> names s' = names s"
proof (cases f)
  case None
  with assms show ?thesis by (simp add: readFromStart_def)
next
  case (Some h)
  obtain st s1 where st: "os_Stat s f = (st, s1)" by fastforce
  have fr: "names s1 = names s" "inodes s1 = inodes s"
    using os_Stat_frame [OF st] by auto
  obtain n where n: "st = Inr n"
    using assms st by (cases st) (auto simp: readFromStart_def)
  have size: "n = length (content s h)"
    using st n Some by (auto simp: os_Stat_def valid_file_def split: if_splits sum.splits prod.splits
        option.splits io_fault.splits)
  obtain c e s2 where r: "read_loop s1 (Some h) n [] = ((c, e), s2)"
    by (metis prod.collapse)
  have "c = take (length c) (content s1 h)" "inodes s2 = inodes s1" "names s2 = names s1"
    using read_loop_prefix [OF r] by simp_all
  moreover have "b = c" "length c = n" "s2 = s'"
    using assms st n Some r by (auto simp: readFromStart_def Let_def split: if_splits)
  ultimately show ?thesis
    using Some fr size by (auto simp: content_def)
qed

lemma readFromStart_inodes:
  assumes "readFromStart s f = (r, s')"
  shows "inodes s' = inodes s \<and> names s' = names s"
proof -
  obtain st s1 where st: "os_Stat s f = (st, s1)" by fastforce
  note fr = os_Stat_frame [OF st]
  show ?thesis
  proof (cases st)
    case (Inl e)
    with assms st fr show ?thesis by (auto simp: readFromStart_def)
  next
    case (Inr n)
    then obtain h where h: "f = Some h"
      using st by (cases f) auto
    obtain c e s2 where r: "read_loop s1 (Some h) n [] = ((c, e), s2)"
      by (metis prod.collapse)
    have "s' = s2"
      using assms st Inr h r by (auto simp: readFromStart_def Let_def split: if_splits)
    with read_loop_prefix [OF r] fr show ?thesis by simp
  qed
qed

lemma readFromStart_ok:
  assumes "faults s = []" "fopen h"
  shows "readFromStart s (Some h) = ((content s h, None), s)"
proof -
  let ?n = "length (content s h)"
  have "read_loop s (Some h) ?n [] = ((content s h, None), s)"
  proof (cases "content s h = []")
    case True
    then show ?thesis by (simp add: read_loop.simps)
  next
    case False
    then have "os_ReadAt s (Some h) ?n 0 = ((content s h, None), s)"
      using assms by (simp add: os_ReadAt_def)
    then show ?thesis
      using False by (simp add: read_loop.simps [of s "Some h" ?n "[]"]
          read_loop.simps [of s "Some h" ?n "content s h"])
  qed
  then show ?thesis
    using assms by (simp add: readFromStart_def os_Stat_ok)
qed

lemma writeAll_ok:
  assumes "faults s = []" "fopen h"
  shows "writeAll s (Some h) buff =
    (Ret (length buff, None), Some (h\<lparr>fpos := fpos h + length buff\<rparr>),
     s\<lparr>inodes := (inodes s)(finode h := write_at (fpos h) buff [])\<rparr>)"
  using assms by (simp add: writeAll_def os_Truncate_def os_Write_def Let_def content_def)

text \<open>On an open file that was not written through before, \<open>writeAll\<close> replaces the whole
  content, and \<open>readFromStart\<close> then returns exactly the bytes written.\<close>

theorem writeAll_readFromStart:
  assumes "faults s = []" "fopen h" "fpos h = 0"
    and "writeAll s (Some h) buff = (x, f', s')"
  shows "x = Ret (length buff, None) \<and> readFromStart s' f' = ((buff, None), s')"
proof -
  have eq: "x = Ret (length buff, None)" "f' = Some (h\<lparr>fpos := length buff\<rparr>)"
      "s' = s\<lparr>inodes := (inodes s)(finode h := buff)\<rparr>"
    using assms writeAll_ok [of s h buff] by (auto simp: write_at_empty)
  have "content s' (h\<lparr>fpos := length buff\<rparr>) = buff"
    by (simp add: eq content_def)
  then show ?thesis
    using readFromStart_ok [of s' "h\<lparr>fpos := length buff\<rparr>"] assms by (simp add: eq)
qed

theorem writeAll_readFromStart_witness:
  "let s = \<lparr>names = [''/c/0'' \<mapsto> 0], inodes = (\<lambda>_. [9, 9, 9]), next_inode = 1, faults = []\<rparr>;
       h = \<lparr>fname = ''/c/0'', finode = 0, fpos = 0, fopen = True\<rparr>;
       (x, f', s') = writeAll s (Some h) [1, 2]
   in fst (readFromStart s' f') = ([1, 2], None)"
proof -
  let ?s = "\<lparr>names = [''/c/0'' \<mapsto> 0], inodes = (\<lambda>_. [9, 9, 9]), next_inode = 1, faults = []\<rparr>"
  let ?h = "\<lparr>fname = ''/c/0'', finode = 0, fpos = 0, fopen = True\<rparr>"
  obtain x f' s' where w: "writeAll ?s (Some ?h) [1, 2] = (x, f', s')"
    using prod_cases3 by blast
  from writeAll_readFromStart [OF _ _ _ w] show ?thesis
    by (simp add: w [simplified])
qed

text \<open>\<open>Truncate\<close> empties the file but does not rewind it. A second \<open>writeAll\<close> through the
  same open file therefore leaves a gap of zeros as long as the first write in front of its bytes,
  and the file is longer than what was written.\<close>

theorem writeAll_twice_leaves_gap:
  assumes "faults s = []" "fopen h" "fpos h = 0" "b2 \<noteq> []"
    and "writeAll s (Some h) b1 = (x1, f1, s1)" "writeAll s1 f1 b2 = (x2, f2, s2)"
  shows "x2 = Ret (length b2, None)
    \<and> fst (readFromStart s2 f2) = (replicate (length b1) 0 @ b2, None)"
proof -
  let ?h1 = "h\<lparr>fpos := length b1\<rparr>"
  have eq1: "f1 = Some ?h1" "s1 = s\<lparr>inodes := (inodes s)(finode h := write_at 0 b1 [])\<rparr>"
    using assms writeAll_ok [of s h b1] by auto
  let ?h2 = "?h1\<lparr>fpos := length b1 + length b2\<rparr>"
  have eq2: "x2 = Ret (length b2, None)" "f2 = Some ?h2"
      "s2 = s1\<lparr>inodes := (inodes s1)(finode h := write_at (length b1) b2 [])\<rparr>"
    using assms writeAll_ok [of s1 ?h1 b2] by (auto simp: eq1)
  have "content s2 ?h2 = replicate (length b1) 0 @ b2"
    using assms(4) by (simp add: eq2 content_def write_at_empty)
  then show ?thesis
    using readFromStart_ok [of s2 ?h2] assms by (simp add: eq1 eq2)
qed

theorem writeAll_twice_leaves_gap_witness:
  "let s = \<lparr>names = [''/c/0'' \<mapsto> 0], inodes = (\<lambda>_. []), next_inode = 1, faults = []\<rparr>;
       h = \<lparr>fname = ''/c/0'', finode = 0, fpos = 0, fopen = True\<rparr>;
       (x1, f1, s1) = writeAll s (Some h) [1, 2];
       (x2, f2, s2) = writeAll s1 f1 [3]
   in fst (readFromStart s2 f2) = ([0, 0, 3], None)"
proof -
  let ?s = "\<lparr>names = [''/c/0'' \<mapsto> 0], inodes = (\<lambda>_. []), next_inode = 1, faults = []\<rparr>"
  let ?h = "\<lparr>fname = ''/c/0'', finode = 0, fpos = 0, fopen = True\<rparr>"
  obtain x1 f1 s1 where w1: "writeAll ?s (Some ?h) [1, 2] = (x1, f1, s1)"
    using prod_cases3 by blast
  obtain x2 f2 s2 where w2: "writeAll s1 f1 [3] = (x2, f2, s2)"
    using prod_cases3 by blast
  from writeAll_twice_leaves_gap [OF _ _ _ _ w1 w2] show ?thesis
    by (simp add: w1 [simplified] w2 numeral_2_eq_2)
qed

end
