(* ===== verification/FileCache.thy ===== *)
theory FileCache
  imports Item
begin

text \<open>
  \<open>pkg/cache/filecache.go\<close>: the cache of file chunks. The entries live in a \<open>ristretto\<close> cache,
  a third-party package, whose operations are arguments of the model (\<open>deps\<close>): \<open>rGet\<close> looks a
  key up; \<open>rSet\<close> reports whether the value was accepted and which values the cache gave up because
  of it, each of which it passes to the \<open>OnExit\<close> callback. Nothing else is assumed of it, so an
  entry may be refused or forgotten at any time.
\<close>

section \<open>Definitions\<close>

record 'rc deps =
  rGet :: "'rc \<Rightarrow> string \<Rightarrow> nat option \<times> 'rc"
  rSet :: "'rc \<Rightarrow> string \<Rightarrow> nat \<Rightarrow> bool \<times> nat list \<times> 'rc"
  rangeOrder :: "int SyncMap \<Rightarrow> string list"

definition getKey :: "string \<Rightarrow> string \<Rightarrow> int \<Rightarrow> string" where
  "getKey path name offset = filepath_Join [path, name, FormatInt offset]"

definition cache_Get :: "'rc deps \<Rightarrow> string \<Rightarrow> (('rc, 'x) cstate, nat option) go" where
  "cache_Get D key = (\<lambda>s. case rGet D (rist s) key of (v, rc) \<Rightarrow> (Ret v, s\<lparr>rist := rc\<rparr>))"

text \<open>\<open>OnExit\<close> drops every value the cache gives up.\<close>

fun OnExit :: "nat list \<Rightarrow> (('rc, 'x) cstate, unit) go" where
  "OnExit [] = ret ()"
| "OnExit (r # rs) = bind (item_drop r) (\<lambda>_. OnExit rs)"

definition cache_Set :: "'rc deps \<Rightarrow> string \<Rightarrow> nat \<Rightarrow> (('rc, 'x) cstate, bool) go" where
  "cache_Set D key v = (\<lambda>s. case rSet D (rist s) key v of
      (ok, out, rc) \<Rightarrow> bind (OnExit out) (\<lambda>_. ret ok) (s\<lparr>rist := rc\<rparr>))"

definition c_Lock :: "(('rc, 'x) cstate, unit) go" where
  "c_Lock = (\<lambda>s. if clock s then (Hang, s) else (Ret (), s\<lparr>clock := True\<rparr>))"

definition c_Unlock :: "(('rc, 'x) cstate, unit) go" where
  "c_Unlock = modify (\<lambda>s. s\<lparr>clock := False\<rparr>)"

definition Exists :: "'rc deps \<Rightarrow> string \<Rightarrow> int \<Rightarrow> (('rc, 'x) cstate, bool) go" where
  "Exists D name offset =
     bind (gets (\<lambda>s. getKey (cpath s) name offset)) (\<lambda>key.
     bind (cache_Get D key) (\<lambda>val.
       case val of
         None \<Rightarrow> ret False
       | Some r \<Rightarrow>
           bind (item_Lock r) (\<lambda>_. with_defer (item_Unlock r)
             (bind (item_Stat r) (\<lambda>info. case info of
                  Inl e \<Rightarrow> ret False
                | Inr sz \<Rightarrow> ret (sz > 0))))))"

text \<open>The first half of \<open>GetOrCreate\<close>: the item of a key, found or newly made under the lock.\<close>

definition lookup_or_new :: "'rc deps \<Rightarrow> string \<Rightarrow> (('rc, 'x) cstate, goerr + nat) go" where
  "lookup_or_new D key =
     bind (cache_Get D key) (\<lambda>val. case val of
       Some r \<Rightarrow> ret (Inr r)
     | None \<Rightarrow>
         bind c_Lock (\<lambda>_.
         bind (cache_Get D key) (\<lambda>val. case val of
           Some r \<Rightarrow> bind c_Unlock (\<lambda>_. ret (Inr r))
         | None \<Rightarrow>
             bind (newItem key) (\<lambda>val. case val of
               Inl err \<Rightarrow> bind c_Unlock (\<lambda>_. ret (Inl err))
             | Inr r \<Rightarrow>
                 bind (cache_Set D key r) (\<lambda>ok.
                   if \<not> ok then bind c_Unlock (\<lambda>_. ret (Inl ErrUnexpectedEOF))
                   else bind c_Unlock (\<lambda>_. ret (Inr r)))))))"

text \<open>With the item's write lock held: check the size again and fill the file if it still differs.
  The lock is released on every returning path; the result is the error \<open>GetOrCreate\<close> returns.\<close>

definition fill_locked :: "nat \<Rightarrow> int \<Rightarrow> ('x, byte list \<times> goerr option) go \<Rightarrow> (('rc, 'x) cstate, goerr option) go" where
  "fill_locked r count fetch =
     bind (item_Stat r) (\<lambda>info. case info of
       Inl err \<Rightarrow> bind (item_Unlock r) (\<lambda>_. ret (Some err))
     | Inr sz \<Rightarrow>
         if int sz \<noteq> count then
           bind (item_fill r fetch) (\<lambda>(n, err).
           bind (item_Unlock r) (\<lambda>_.
             case err of
               Some e \<Rightarrow> ret (Some e)
             | None \<Rightarrow> if int n \<noteq> count then ret (Some (FillCount count (int n))) else ret None))
         else bind (item_Unlock r) (\<lambda>_. ret None))"

text \<open>Fill the file unless it already has the expected size; on success the read lock is held.\<close>

definition ensure_filled :: "nat \<Rightarrow> int \<Rightarrow> ('x, byte list \<times> goerr option) go \<Rightarrow> (('rc, 'x) cstate, goerr option) go" where
  "ensure_filled r count fetch =
     bind (item_RLock r) (\<lambda>_.
     bind (item_Stat r) (\<lambda>info. case info of
       Inl err \<Rightarrow> bind (item_RUnlock r) (\<lambda>_. ret (Some err))
     | Inr sz \<Rightarrow>
         if int sz \<noteq> count then
           bind (item_RUnlock r) (\<lambda>_.
           bind (item_Lock r) (\<lambda>_.
           bind (fill_locked r count fetch) (\<lambda>err. case err of
               Some e \<Rightarrow> ret (Some e)
             | None \<Rightarrow> bind (item_RLock r) (\<lambda>_. ret None))))
         else ret None))"

definition serve_item :: "nat \<Rightarrow> int \<Rightarrow> ('x, byte list \<times> goerr option) go \<Rightarrow> (('rc, 'x) cstate, byte list \<times> goerr option) go" where
  "serve_item r count fetch =
     bind (ensure_filled r count fetch) (\<lambda>err. case err of
       Some e \<Rightarrow> ret ([], Some e)
     | None \<Rightarrow>
         bind (item_bytes r) (\<lambda>result.
         bind (item_RUnlock r) (\<lambda>_.
           if int (length result) \<noteq> count
           then ret (result, Some (BytesCount count (int (length result))))
           else ret (result, None))))"

definition GetOrCreate :: "'rc deps \<Rightarrow> string \<Rightarrow> int \<Rightarrow> int \<Rightarrow> ('x, byte list \<times> goerr option) go \<Rightarrow> (('rc, 'x) cstate, byte list \<times> goerr option) go" where
  "GetOrCreate D name alignedOffset count fetch =
     bind (gets (\<lambda>s. getKey (cpath s) name alignedOffset)) (\<lambda>key.
     bind (lookup_or_new D key) (\<lambda>val. case val of
       Inl err \<Rightarrow> ret ([], Some err)
     | Inr r \<Rightarrow> serve_item r count fetch))"

definition size_key :: "string \<Rightarrow> string" where
  "size_key name = filepath_Join [name, ''metainfo'']"

definition Size :: "string \<Rightarrow> (('rc, 'x) cstate, int \<times> bool) go" where
  "Size name = gets (\<lambda>s. case SyncMap_Get (metadataCache s) (size_key name) of
      None \<Rightarrow> (0, False)
    | Some len \<Rightarrow> (len, True))"

definition PutSize :: "'rc deps \<Rightarrow> string \<Rightarrow> int \<Rightarrow> (('rc, 'x) cstate, bool) go" where
  "PutSize D name len =
     bind (modify (\<lambda>s. s\<lparr>metadataCache := SyncMap_Set (metadataCache s)
             (rangeOrder D (metadataCache s)) (size_key name) len\<rparr>)) (\<lambda>_. ret True)"

text \<open>\<open>NewCache\<close>: \<open>None\<close> where the process exits because the directory or the third-party cache
  (\<open>rnew\<close>, given its capacity and the fixed cost of an entry) cannot be set up.\<close>

definition FilesCacheMaxCost :: int where
  "FilesCacheMaxCost = 4 * 1024 * 1024 * 1024"

definition NewCache :: "(int \<Rightarrow> int \<Rightarrow> 'rc option) \<Rightarrow> os_state \<Rightarrow> 'x \<Rightarrow> int \<Rightarrow> string \<Rightarrow> ('rc, 'x) cstate option" where
  "NewCache rnew fs e cacheBlockSize path = (case os_MkdirAll fs path of
      (Some err, fs') \<Rightarrow> None
    | (None, fs') \<Rightarrow> (case rnew FilesCacheMaxCost cacheBlockSize of
          None \<Rightarrow> None
        | Some rc \<Rightarrow> Some \<lparr>os = fs', items = (\<lambda>_. \<lparr>item_key = [], item_file = None, item_lock = unlocked\<rparr>),
              next_item = 0, fdCnt = 0, rist = rc, metadataCache = NewSyncMap 10000000,
              cpath = path, clock = False, env = e\<rparr>))"

section \<open>Running the steps\<close>

lemma upd_item_simps [simp]:
  "items (upd_item r f s) r' = (if r' = r then f (items s r) else items s r')"
  "os (upd_item r f s) = os s" "env (upd_item r f s) = env s" "clock (upd_item r f s) = clock s"
  "rist (upd_item r f s) = rist s" "cpath (upd_item r f s) = cpath s"
  "metadataCache (upd_item r f s) = metadataCache s" "fdCnt (upd_item r f s) = fdCnt s"
  "next_item (upd_item r f s) = next_item s"
  by (simp_all add: upd_item_def)

lemma item_Lock_Ret:
  "item_Lock r s = (Ret u, s') \<longleftrightarrow> item_lock (items s r) = unlocked
     \<and> s' = upd_item r (\<lambda>i. i\<lparr>item_lock := (item_lock i)\<lparr>writer := True\<rparr>\<rparr>) s"
  by (cases "item_lock (items s r)") (auto simp: item_Lock_def unlocked_def)

lemma item_RLock_Ret:
  "item_RLock r s = (Ret u, s') \<longleftrightarrow> \<not> writer (item_lock (items s r))
     \<and> s' = upd_item r (\<lambda>i. i\<lparr>item_lock := (item_lock i)\<lparr>readers := Suc (readers (item_lock i))\<rparr>\<rparr>) s"
  by (auto simp: item_RLock_def)

lemma item_Stat_Ret:
  "item_Stat r s = (Ret info, s') \<longleftrightarrow>
     (\<exists>o'. os_Stat (os s) (item_file (items s r)) = (info, o') \<and> s' = s\<lparr>os := o'\<rparr>)"
  by (auto simp: item_Stat_def split: prod.splits)

lemma os_Stat_Inr:
  "os_Stat fs f = (Inr n, fs') \<Longrightarrow> \<exists>h. f = Some h \<and> fopen h \<and> n = length (content fs h)"
  by (auto simp: os_Stat_def valid_file_def split: option.splits sum.splits if_splits prod.splits
      io_fault.splits)

lemma item_Stat_Inr:
  assumes "item_Stat r s = (Ret (Inr n), s')"
  shows "\<exists>h. item_file (items s r) = Some h \<and> n = length (content (os s) h)"
    and "items s' = items s" "env s' = env s" "inodes (os s') = inodes (os s)"
proof -
  obtain o' where o: "os_Stat (os s) (item_file (items s r)) = (Inr n, o')" "s' = s\<lparr>os := o'\<rparr>"
    using assms by (auto simp: item_Stat_Ret)
  show "\<exists>h. item_file (items s r) = Some h \<and> n = length (content (os s) h)"
    using os_Stat_Inr [OF o(1)] by blast
  show "items s' = items s" "env s' = env s" "inodes (os s') = inodes (os s)"
    using os_Stat_frame [OF o(1)] o(2) by simp_all
qed

lemma writeAll_Ret_None:
  assumes "writeAll s f buff = (Ret (n, None), f', s')"
  shows "\<exists>h. f = Some h \<and> fopen h \<and> n = length buff \<and> f' = Some (h\<lparr>fpos := fpos h + length buff\<rparr>)
    \<and> inodes s' = (inodes s)(finode h := write_at (fpos h) buff []) \<and> names s' = names s"
proof -
  from assms obtain h where h: "f = Some h" "fopen h"
    by (auto simp: writeAll_def os_Truncate_def valid_file_def
        split: option.splits prod.splits if_splits sum.splits)
  from assms h obtain s1 where t: "next_fault s = (None, s1)"
    by (auto simp: writeAll_def os_Truncate_def split: option.splits prod.splits io_fault.splits)
  let ?s1 = "s1\<lparr>inodes := (inodes s1)(finode h := [])\<rparr>"
  from assms h t obtain s2 where w: "next_fault ?s1 = (None, s2)"
    by (cases "next_fault ?s1")
      (auto simp: writeAll_def os_Truncate_def os_Write_def Let_def file_Name_def
        split: option.splits io_fault.splits)
  show ?thesis
    using assms h t w next_fault_frame [OF t] next_fault_frame [OF w]
    by (auto simp: writeAll_def os_Truncate_def os_Write_def Let_def content_def)
qed

lemma item_bytes_Ret:
  assumes "item_bytes r s = (Ret b, s')"
  shows "(b = [] \<or> (\<exists>h. item_file (items s r) = Some h \<and> b = content (os s) h))
    \<and> items s' = items s \<and> env s' = env s \<and> inodes (os s') = inodes (os s)
    \<and> clock s' = clock s \<and> rist s' = rist s \<and> cpath s' = cpath s"
proof -
  obtain c e o' where r: "readFromStart (os s) (item_file (items s r)) = ((c, e), o')"
    by (metis prod.collapse)
  show ?thesis
  proof (cases e)
    case None
    with r have "readFromStart (os s) (item_file (items s r)) = ((c, None), o')" by simp
    from readFromStart_sound [OF this] r assms None show ?thesis
      by (auto simp: item_bytes_def bind_apply ret_apply)
  next
    case (Some err)
    have "inodes o' = inodes (os s)"
      using readFromStart_inodes [OF r] by simp
    with Some r assms show ?thesis
      by (auto simp: item_bytes_def bind_apply ret_apply item_Name_def split: outcome.splits)
  qed
qed

section \<open>Where the returned bytes come from\<close>

lemma item_fill_Ret_None:
  assumes "item_fill r fetch s = (Ret (n, None), s')"
  shows "\<exists>buf h h'. fetch (env s) = (Ret (buf, None), env s') \<and> n = length buf
    \<and> item_file (items s r) = Some h \<and> item_file (items s' r) = Some h'
    \<and> content (os s') h' = write_at (fpos h) buf []"
proof -
  obtain buf err e' where f: "fetch (env s) = (Ret (buf, err), e')"
    using assms by (auto simp: item_fill_def bind_eq_Ret run_fetch_def split: prod.splits)
  have err: "err = None"
    using assms f
    by (auto simp: item_fill_def bind_apply run_fetch_def ret_apply item_Name_def do_Remove_def
        file_Name_def split: option.splits prod.splits)
  obtain x g o' where w: "writeAll (os s) (item_file (items s r)) buf = (x, g, o')"
    using prod_cases3 by blast
  have s': "x = Ret (n, None)" "s' = upd_item r (\<lambda>i. i\<lparr>item_file := g\<rparr>) (s\<lparr>env := e', os := o'\<rparr>)"
    using assms f err w by (auto simp: item_fill_def bind_apply run_fetch_def)
  from writeAll_Ret_None [of "os s" "item_file (items s r)" buf n g o'] w s'(1)
  obtain h where h: "item_file (items s r) = Some h" "n = length buf"
      "g = Some (h\<lparr>fpos := fpos h + length buf\<rparr>)"
      "inodes o' = (inodes (os s))(finode h := write_at (fpos h) buf [])"
    by auto
  then show ?thesis
    using f err by (auto simp: s'(2) content_def)
qed

text \<open>After the check, either the file was complete from the start, or the callback ran once and
  its bytes were written.\<close>

lemma ensure_filled_None:
  assumes "ensure_filled r count fetch s = (Ret None, s')"
  shows "(\<exists>h. item_file (items s r) = Some h \<and> item_file (items s' r) = Some h
            \<and> content (os s') h = content (os s) h \<and> int (length (content (os s) h)) = count
            \<and> env s' = env s)
    \<or> (\<exists>buf h h'. fetch (env s) = (Ret (buf, None), env s') \<and> int (length buf) = count
            \<and> item_file (items s r) = Some h \<and> item_file (items s' r) = Some h'
            \<and> content (os s') h' = write_at (fpos h) buf [])"
proof -
  from assms obtain s1 info s2 where
    l: "item_RLock r s = (Ret (), s1)" and st: "item_Stat r s1 = (Ret info, s2)"
    by (auto simp: ensure_filled_def bind_eq_Ret)
  from assms l st obtain n where n: "info = Inr n"
    by (cases info) (auto simp: ensure_filled_def bind_apply item_RUnlock_def modify_apply ret_apply)
  have s1: "item_file (items s1 r) = item_file (items s r)" "os s1 = os s" "env s1 = env s"
    using l by (auto simp: item_RLock_Ret)
  note st = st [unfolded n]
  obtain h where h: "item_file (items s r) = Some h" "n = length (content (os s) h)"
    using item_Stat_Inr(1) [OF st] s1 by auto
  have fr1: "inodes (os s2) = inodes (os s)" "items s2 = items s1" "env s2 = env s"
    using item_Stat_Inr(2-4) [OF st] s1 by simp_all
  note items1 = s1(1)
  show ?thesis
  proof (cases "int n = count")
    case True
    then show ?thesis
      using assms l st h fr1 items1
      by (auto simp: ensure_filled_def bind_apply ret_apply content_def)
  next
    case False
    obtain s3 s4 s5 where
      ru: "item_RUnlock r s2 = (Ret (), s3)" and lk: "item_Lock r s3 = (Ret (), s4)"
      and fl: "fill_locked r count fetch s4 = (Ret None, s5)" and rl: "item_RLock r s5 = (Ret (), s')"
      using assms l st False
      by (auto simp: ensure_filled_def bind_apply ret_apply split: outcome.splits prod.splits option.splits)
    have fr2: "item_file (items s4 r) = Some h" "os s4 = os s2" "env s4 = env s"
      using ru lk h(1) fr1 items1 by (auto simp: item_RUnlock_def modify_apply item_Lock_Ret)
    have fr3: "item_file (items s' r) = item_file (items s5 r)" "os s' = os s5" "env s' = env s5"
      using rl by (auto simp: item_RLock_Ret)
    obtain m s6 where st2: "item_Stat r s4 = (Ret (Inr m), s6)"
      using fl by (cases "item_Stat r s4")
        (auto simp: fill_locked_def bind_apply ret_apply item_Unlock_def modify_apply
          split: outcome.splits sum.splits)
    have m: "m = n" "items s6 = items s4" "inodes (os s6) = inodes (os s2)" "env s6 = env s4"
      using item_Stat_Inr [OF st2] fr2 fr1 h(2) by (auto simp: content_def)
    obtain k s7 where fi: "item_fill r fetch s6 = (Ret (k, None), s7)" "int k = count"
      and un: "item_Unlock r s7 = (Ret (), s5)"
      using fl st2 m(1) False
      by (auto simp: fill_locked_def bind_apply ret_apply split: outcome.splits prod.splits
          option.splits if_splits)
    have fr4: "item_file (items s5 r) = item_file (items s7 r)" "os s5 = os s7" "env s5 = env s7"
      using un by (auto simp: item_Unlock_def modify_apply)
    from item_fill_Ret_None [OF fi(1)] show ?thesis
      using h(1) fi(2) fr2 fr3 fr4 m by auto
  qed
qed

lemma serve_item_sound:
  assumes "serve_item r count fetch s = (Ret (b, None), s')"
  shows "int (length b) = count
    \<and> (fetch (env s) = (Ret (b, None), env s')
       \<or> (\<exists>h. item_file (items s r) = Some h \<and> b = content (os s) h \<and> env s' = env s))"
proof -
  from assms obtain s1 s2 where e: "ensure_filled r count fetch s = (Ret None, s1)"
    and rd: "item_bytes r s1 = (Ret b, s2)" and ru: "item_RUnlock r s2 = (Ret (), s')"
    and len: "int (length b) = count"
    by (auto simp: serve_item_def bind_eq_Ret ret_def split: option.splits if_splits)
  have env: "env s' = env s1"
    using item_bytes_Ret [OF rd] ru by (auto simp: item_RUnlock_def modify_apply)
  have bytes: "b = [] \<or> (\<exists>h. item_file (items s1 r) = Some h \<and> b = content (os s1) h)"
    using item_bytes_Ret [OF rd] by simp
  from ensure_filled_None [OF e] show ?thesis
  proof (elim disjE exE conjE)
    fix h
    assume "item_file (items s r) = Some h" "item_file (items s1 r) = Some h"
      "content (os s1) h = content (os s) h" "int (length (content (os s) h)) = count" "env s1 = env s"
    with bytes len env show ?thesis by auto
  next
    fix buf h h'
    assume a: "fetch (env s) = (Ret (buf, None), env s1)" "int (length buf) = count"
      "item_file (items s1 r) = Some h'" "content (os s1) h' = write_at (fpos h) buf []"
    with bytes len have "b = buf"
      by (auto simp: write_at_empty split: if_splits)
    with a env len show ?thesis by simp
  qed
qed

lemma OnExit_frame:
  "OnExit rs s = (Ret u, s') \<Longrightarrow> env s' = env s \<and> inodes (os s') = inodes (os s)
     \<and> cpath s' = cpath s \<and> (\<forall>r. r \<notin> set rs \<longrightarrow> items s' r = items s r)
     \<and> (\<forall>r \<in> set rs. item_file (items s' r) = None)"
proof (induction rs arbitrary: s)
  case Nil
  then show ?case by (simp add: ret_apply)
next
  case (Cons r rs)
  then obtain s1 where d: "item_drop r s = (Ret (), s1)" and o: "OnExit rs s1 = (Ret u, s')"
    by (auto simp: bind_eq_Ret)
  have "env s1 = env s \<and> inodes (os s1) = inodes (os s) \<and> cpath s1 = cpath s
      \<and> (\<forall>r'. r' \<noteq> r \<longrightarrow> items s1 r' = items s r') \<and> item_file (items s1 r) = None"
    using d next_fault_frame
    by (fastforce simp: item_drop_def item_drop_body_def bind_eq_Ret with_defer_def item_Lock_Ret
        item_Unlock_def modify_apply item_Name_def do_Remove_def os_Remove_def os_Close_def
        split: prod.splits outcome.splits sum.splits option.splits io_fault.splits if_splits)
  with Cons.IH [OF o] show ?case
    by (cases "r \<in> set rs") auto
qed

lemma newItem_Inr:
  assumes "newItem key s = (Ret (Inr r), s')"
  shows "r = next_item s \<and> env s' = env s \<and> cpath s' = cpath s
    \<and> (\<exists>h. item_file (items s' r) = Some h \<and>
         content (os s') h = path_content (os s) key)"
proof -
  obtain o1 where o1: "os_MkdirAll (os s) (path_Dir key) = (None, o1)"
    using assms by (cases "os_MkdirAll (os s) (path_Dir key)")
      (auto simp: newItem_def split: option.splits)
  have fr1: "names o1 = names (os s)" "inodes o1 = inodes (os s)"
    using o1 next_fault_frame by (fastforce simp: os_MkdirAll_def split: prod.splits option.splits io_fault.splits)+
  obtain h o2 where o2: "os_OpenFile o1 key = (Inr h, o2)"
    using assms o1 by (cases "os_OpenFile o1 key")
      (auto simp: newItem_def Let_def split: sum.splits)
  have "content o2 h = path_content (os s) key"
    using o2 fr1 next_fault_frame
    by (fastforce simp: os_OpenFile_def content_def path_content_def Let_def
        split: prod.splits option.splits io_fault.splits)
  with assms o1 o2 show ?thesis
    by (auto simp: newItem_def Let_def)
qed

text \<open>The two lookups of \<open>GetOrCreate\<close>: one before and one after taking the lock.\<close>

definition finds :: "'rc deps \<Rightarrow> 'rc \<Rightarrow> string \<Rightarrow> nat \<Rightarrow> bool" where
  "finds D rc key r \<longleftrightarrow> fst (rGet D rc key) = Some r
     \<or> fst (rGet D (snd (rGet D rc key)) key) = Some r"

text \<open>The item of a key is the one the cache holds, or a new one opened on the key's path.\<close>

lemma lookup_or_new_Inr:
  assumes "lookup_or_new D key s = (Ret (Inr r), s')"
  shows "env s' = env s \<and> cpath s' = cpath s \<and>
    (\<forall>h. item_file (items s' r) = Some h \<longrightarrow>
       (finds D (rist s) key r \<and> item_file (items s r) = Some h \<and> content (os s') h = content (os s) h)
       \<or> content (os s') h = path_content (os s) key)"
proof -
  obtain v1 rc1 where g1: "rGet D (rist s) key = (v1, rc1)" by fastforce
  obtain v2 rc2 where g2: "rGet D rc1 key = (v2, rc2)" by fastforce
  consider (hit) "v1 = Some r" "s' = s\<lparr>rist := rc1\<rparr>"
    | (hit2) "v2 = Some r" "s' = s\<lparr>rist := rc2, clock := False\<rparr>"
    | (new) s3 ok out rc3 s4 where
        "newItem key (s\<lparr>clock := True, rist := rc2\<rparr>) = (Ret (Inr r), s3)"
        "rSet D (rist s3) key r = (ok, out, rc3)" "OnExit out (s3\<lparr>rist := rc3\<rparr>) = (Ret (), s4)"
        "s' = s4\<lparr>clock := False\<rparr>"
  proof (cases v1)
    case (Some r1)
    then show thesis
      using assms g1 hit by (auto simp: lookup_or_new_def bind_apply cache_Get_def ret_apply)
  next
    case None
    have nl: "\<not> clock s"
      using assms g1 None by (auto simp: lookup_or_new_def bind_apply cache_Get_def c_Lock_def)
    show thesis
    proof (cases v2)
      case (Some r2)
      then show thesis
        using assms g1 g2 None nl hit2
        by (auto simp: lookup_or_new_def bind_apply cache_Get_def ret_apply c_Lock_def c_Unlock_def
            modify_apply)
    next
      case None2: None
      from assms obtain s3 where n: "newItem key (s\<lparr>clock := True, rist := rc2\<rparr>) = (Ret (Inr r), s3)"
        using g1 g2 None nl
        by (cases "newItem key (s\<lparr>clock := True, rist := rc2\<rparr>)")
          (auto simp: lookup_or_new_def bind_apply cache_Get_def ret_apply c_Lock_def c_Unlock_def
            modify_apply None2 split: outcome.splits sum.splits if_splits prod.splits)
      obtain ok out rc3 where st: "rSet D (rist s3) key r = (ok, out, rc3)"
        using prod_cases3 by blast
      show thesis
        using assms g1 g2 None nl None2 n st new
        by (cases "OnExit out (s3\<lparr>rist := rc3\<rparr>)")
          (auto simp: lookup_or_new_def bind_apply cache_Get_def ret_apply c_Lock_def c_Unlock_def
            modify_apply cache_Set_def split: outcome.splits if_splits)
    qed
  qed
  then show ?thesis
  proof cases
    case new
    from newItem_Inr [OF new(1)] OnExit_frame [OF new(3)] show ?thesis
      by (cases "r \<in> set out") (auto simp: new(4) content_def)
  qed (auto simp: content_def finds_def g1 g2)
qed

section \<open>Properties of GetOrCreate\<close>

text \<open>Whatever the third-party cache does and whichever system calls fail, bytes that
  \<open>GetOrCreate\<close> returns without an error have the requested length, and they are either exactly
  what this call's fetch returned, or, with the fetch not run, the whole content of the file of the
  item the cache holds for the key, or of the file already stored under the key's path.\<close>

theorem GetOrCreate_provenance:
  assumes "GetOrCreate D name off count fetch s = (Ret (b, None), s')"
  shows "int (length b) = count
    \<and> (fetch (env s) = (Ret (b, None), env s')
       \<or> env s' = env s \<and>
         (b = path_content (os s) (getKey (cpath s) name off)
          \<or> (\<exists>r h. finds D (rist s) (getKey (cpath s) name off) r
                 \<and> item_file (items s r) = Some h \<and> b = content (os s) h)))"
proof -
  let ?key = "getKey (cpath s) name off"
  obtain r s1 where l: "lookup_or_new D ?key s = (Ret (Inr r), s1)"
    and sv: "serve_item r count fetch s1 = (Ret (b, None), s')"
    using assms by (cases "lookup_or_new D ?key s")
      (auto simp: GetOrCreate_def bind_apply gets_apply ret_apply split: outcome.splits sum.splits)
  note f = lookup_or_new_Inr [OF l]
  from serve_item_sound [OF sv] show ?thesis
  proof (elim conjE disjE exE)
    fix h
    assume "int (length b) = count" "item_file (items s1 r) = Some h" "b = content (os s1) h"
      "env s' = env s1"
    with f show ?thesis by metis
  qed (use f in simp)
qed

lemma GetOrCreate_length:
  assumes "GetOrCreate D name off count fetch s = (Ret (b, None), s')"
  shows "int (length b) = count"
proof -
  let ?key = "getKey (cpath s) name off"
  obtain r s1 where "serve_item r count fetch s1 = (Ret (b, None), s')"
    using assms by (cases "lookup_or_new D ?key s")
      (auto simp: GetOrCreate_def bind_apply gets_apply ret_apply split: outcome.splits sum.splits)
  then show ?thesis
    by (blast dest: serve_item_sound)
qed

text \<open>\<open>Exists\<close> never runs a callback.\<close>

lemma Exists_env:
  assumes "Exists D name off s = (x, s')"
  shows "env s' = env s"
  using assms
  by (auto simp: Exists_def bind_apply gets_apply ret_apply cache_Get_def item_Lock_def item_Unlock_def
      item_Stat_def with_defer_def modify_apply split: prod.splits option.splits if_splits outcome.splits sum.splits)

section \<open>Hits, misses and failed fetches\<close>

lemma upd_item_twice [simp]: "upd_item r f (upd_item r g s) = upd_item r (\<lambda>i. f (g i)) s"
  by (simp add: upd_item_def)

lemma upd_item_same: "f (items s r) = items s r \<Longrightarrow> upd_item r f s = s"
  by (simp add: upd_item_def)

lemma item_lock_roundtrip [simp]:
  "item_lock i = unlocked \<Longrightarrow> i\<lparr>item_lock := \<lparr>readers = 0, writer = False\<rparr>\<rparr> = i"
  by (cases i) (simp add: unlocked_def)

text \<open>An item at rest: nobody holds its lock and its file is open.\<close>

definition at_rest :: "('rc, 'x) cstate \<Rightarrow> nat \<Rightarrow> os_file \<Rightarrow> bool" where
  "at_rest s r h \<longleftrightarrow> item_lock (items s r) = unlocked \<and> item_file (items s r) = Some h \<and> fopen h"

lemma item_bytes_ok:
  "faults (os s) = [] \<Longrightarrow> item_file (items s r) = Some h \<Longrightarrow> fopen h \<Longrightarrow>
   item_bytes r s = (Ret (content (os s) h), s)"
  by (simp add: item_bytes_def bind_apply readFromStart_ok ret_apply)

lemma serve_item_hit:
  assumes "faults (os s) = []" "at_rest s r h" "int (length (content (os s) h)) = count"
  shows "serve_item r count fetch s = (Ret (content (os s) h, None), s)"
proof -
  let ?s1 = "upd_item r (\<lambda>i. i\<lparr>item_lock := (item_lock i)\<lparr>readers := Suc (readers (item_lock i))\<rparr>\<rparr>) s"
  have e: "ensure_filled r count fetch s = (Ret None, ?s1)"
    using assms
    by (simp add: ensure_filled_def bind_apply item_RLock_def item_Stat_def at_rest_def unlocked_def
        os_Stat_ok ret_apply)
  have b: "item_bytes r ?s1 = (Ret (content (os s) h), ?s1)"
    using assms by (subst item_bytes_ok [of _ _ h]) (simp_all add: at_rest_def)
  have "item_RUnlock r ?s1 = (Ret (), s)"
    using assms by (simp add: item_RUnlock_def modify_apply at_rest_def unlocked_def upd_item_same)
  then show ?thesis
    using e b assms(3) by (simp add: serve_item_def bind_apply ret_apply)
qed

text \<open>A file of the wrong size is filled by one run of the callback.\<close>

lemma ensure_filled_fetch:
  assumes "faults (os s) = []" "at_rest s r h" "int (length (content (os s) h)) \<noteq> count"
    and "fetch (env s) = (Ret (d, None), e')" "int (length d) = count"
  shows "ensure_filled r count fetch s = (Ret None,
    upd_item r (\<lambda>i. i\<lparr>item_file := Some (h\<lparr>fpos := fpos h + length d\<rparr>),
                      item_lock := \<lparr>readers = Suc 0, writer = False\<rparr>\<rparr>)
      (s\<lparr>os := (os s)\<lparr>inodes := (inodes (os s))(finode h := write_at (fpos h) d [])\<rparr>, env := e'\<rparr>))"
  using assms
  by (simp add: ensure_filled_def fill_locked_def bind_apply item_RLock_def item_Stat_def
      item_RUnlock_def item_Lock_def item_Unlock_def modify_apply ret_apply item_fill_def
      run_fetch_def writeAll_ok os_Stat_ok at_rest_def unlocked_def upd_item_def)

lemma serve_item_fetch:
  assumes "faults (os s) = []" "at_rest s r h" "int (length (content (os s) h)) \<noteq> count"
    and "fetch (env s) = (Ret (d, None), e')" "int (length d) = count" "fpos h = 0"
  shows "serve_item r count fetch s = (Ret (d, None),
    upd_item r (\<lambda>i. i\<lparr>item_file := Some (h\<lparr>fpos := length d\<rparr>)\<rparr>)
      (s\<lparr>os := (os s)\<lparr>inodes := (inodes (os s))(finode h := d)\<rparr>, env := e'\<rparr>))"
proof -
  let ?fs = "(os s)\<lparr>inodes := (inodes (os s))(finode h := d)\<rparr>"
  let ?s1 = "upd_item r (\<lambda>i. i\<lparr>item_file := Some (h\<lparr>fpos := length d\<rparr>),
                      item_lock := \<lparr>readers = Suc 0, writer = False\<rparr>\<rparr>) (s\<lparr>os := ?fs, env := e'\<rparr>)"
  have w: "write_at 0 d [] = d"
    by (simp add: write_at_empty)
  have e: "ensure_filled r count fetch s = (Ret None, ?s1)"
    using ensure_filled_fetch [of s r h count fetch d e'] assms by (simp add: w)
  have b: "item_bytes r ?s1 = (Ret d, ?s1)"
    using assms by (subst item_bytes_ok [of _ _ "h\<lparr>fpos := length d\<rparr>"])
      (simp_all add: at_rest_def content_def)
  have "item_RUnlock r ?s1 =
      (Ret (), upd_item r (\<lambda>i. i\<lparr>item_file := Some (h\<lparr>fpos := length d\<rparr>)\<rparr>) (s\<lparr>os := ?fs, env := e'\<rparr>))"
    using assms(2) by (cases "items s r")
      (simp add: item_RUnlock_def modify_apply at_rest_def unlocked_def upd_item_def)
  then show ?thesis
    using e b assms(5) by (simp add: serve_item_def bind_apply ret_apply)
qed

text \<open>The calm runtime in which the exact behaviour of a call is stated: no system call fails and
  no lock is held.\<close>

definition calm :: "('rc, 'x) cstate \<Rightarrow> bool" where
  "calm s \<longleftrightarrow> faults (os s) = [] \<and> \<not> clock s \<and> (\<forall>r. item_lock (items s r) = unlocked)"

lemma lookup_or_new_hit:
  "rGet D (rist s) key = (Some r, rc) \<Longrightarrow> lookup_or_new D key s = (Ret (Inr r), s\<lparr>rist := rc\<rparr>)"
  by (simp add: lookup_or_new_def bind_apply cache_Get_def ret_apply)

lemma lookup_or_new_miss:
  assumes "calm s" "rGet D (rist s) key = (None, rc1)" "rGet D rc1 key = (None, rc2)"
    and "names (os s) key = None" "rSet D rc2 key (next_item s) = (True, [], rc3)"
  shows "lookup_or_new D key s = (Ret (Inr (next_item s)),
    s\<lparr>os := (os s)\<lparr>names := (names (os s))(key \<mapsto> next_inode (os s)),
                  inodes := (inodes (os s))(next_inode (os s) := []),
                  next_inode := Suc (next_inode (os s))\<rparr>,
      items := (items s)(next_item s := \<lparr>item_key = key,
        item_file = Some \<lparr>fname = key, finode = next_inode (os s), fpos = 0, fopen = True\<rparr>,
        item_lock = unlocked\<rparr>),
      next_item := Suc (next_item s), fdCnt := i32 (fdCnt s + 1), rist := rc3, clock := False\<rparr>)"
  using assms
  by (simp add: lookup_or_new_def bind_apply cache_Get_def ret_apply c_Lock_def c_Unlock_def
      modify_apply newItem_def os_MkdirAll_def os_OpenFile_def Let_def cache_Set_def calm_def)

lemma GetOrCreate_miss:
  assumes "calm s" "key = getKey (cpath s) name off"
    and "rGet D (rist s) key = (None, rc1)" "rGet D rc1 key = (None, rc2)"
    and "names (os s) key = None" "rSet D rc2 key (next_item s) = (True, [], rc3)"
    and "fetch (env s) = (Ret (d, None), e')" "int (length d) = count" "d \<noteq> []"
  shows "\<exists>s1 h. GetOrCreate D name off count fetch s = (Ret (d, None), s1)
    \<and> env s1 = e' \<and> path_content (os s1) key = d \<and> calm s1 \<and> rist s1 = rc3
    \<and> cpath s1 = cpath s \<and> at_rest s1 (next_item s) h \<and> content (os s1) h = d"
proof -
  let ?r = "next_item s"
  let ?h = "\<lparr>fname = key, finode = next_inode (os s), fpos = 0, fopen = True\<rparr>"
  obtain s0 where s0: "lookup_or_new D key s = (Ret (Inr ?r), s0)" "at_rest s0 ?r ?h"
      "faults (os s0) = []" "content (os s0) ?h = []" "env s0 = env s" "rist s0 = rc3"
      "cpath s0 = cpath s" "names (os s0) key = Some (next_inode (os s))" "calm s0"
    using lookup_or_new_miss [OF assms(1,3-6)] assms(1)
    by (auto simp: at_rest_def calm_def content_def)
  let ?fs1 = "(os s0)\<lparr>inodes := (inodes (os s0))(finode ?h := d)\<rparr>" and ?h1 = "?h\<lparr>fpos := length d\<rparr>"
  let ?s1 = "upd_item ?r (\<lambda>i. i\<lparr>item_file := Some ?h1\<rparr>) (s0\<lparr>os := ?fs1, env := e'\<rparr>)"
  have "serve_item ?r count fetch s0 = (Ret (d, None), ?s1)"
    using assms s0 by (intro serve_item_fetch) auto
  then have "GetOrCreate D name off count fetch s = (Ret (d, None), ?s1)"
    using s0 assms(2) by (simp add: GetOrCreate_def bind_apply gets_apply)
  then show ?thesis
    using s0 by (intro exI [of _ ?s1] exI [of _ ?h1])
      (auto simp: path_content_def calm_def at_rest_def content_def)
qed

lemma GetOrCreate_hit:
  assumes "calm s" "rGet D (rist s) (getKey (cpath s) name off) = (Some r, rc)"
    and "at_rest s r h" "int (length (content (os s) h)) = count"
  shows "GetOrCreate D name off count fetch s = (Ret (content (os s) h, None), s\<lparr>rist := rc\<rparr>)"
proof -
  have "serve_item r count fetch (s\<lparr>rist := rc\<rparr>)
      = (Ret (content (os (s\<lparr>rist := rc\<rparr>)) h, None), s\<lparr>rist := rc\<rparr>)"
    using assms by (intro serve_item_hit) (auto simp: calm_def at_rest_def)
  then show ?thesis
    using lookup_or_new_hit [of D s _ r rc] assms(2)
    by (simp add: GetOrCreate_def bind_apply gets_apply)
qed

text \<open>A chunk is fetched once. On a miss for a path not yet on disk, \<open>GetOrCreate\<close> runs the
  fetch, stores its bytes under the key's path and returns them; while the third-party cache keeps the
  entry, a second call for the same chunk returns the same bytes from the file, and its own fetch,
  whatever it would do, is not run.\<close>

theorem GetOrCreate_miss_then_hit:
  assumes "calm s" "key = getKey (cpath s) name off"
    and "rGet D (rist s) key = (None, rc1)" "rGet D rc1 key = (None, rc2)"
    and "names (os s) key = None" "rSet D rc2 key (next_item s) = (True, [], rc3)"
    and "fetch (env s) = (Ret (d, None), e')" "int (length d) = count" "d \<noteq> []"
    and "rGet D rc3 key = (Some (next_item s), rc4)"
  shows "\<exists>s1 s2. GetOrCreate D name off count fetch s = (Ret (d, None), s1)
    \<and> env s1 = e' \<and> path_content (os s1) key = d \<and> calm s1
    \<and> GetOrCreate D name off count fetch2 s1 = (Ret (d, None), s2)
    \<and> env s2 = e' \<and> os s2 = os s1 \<and> calm s2"
proof -
  obtain s1 h where s1: "GetOrCreate D name off count fetch s = (Ret (d, None), s1)"
      "env s1 = e'" "path_content (os s1) key = d" "calm s1" "rist s1 = rc3"
      "cpath s1 = cpath s" "at_rest s1 (next_item s) h" "content (os s1) h = d"
    using GetOrCreate_miss [of s key name off D rc1 rc2 rc3 fetch d e' count] assms by blast
  have "GetOrCreate D name off count fetch2 s1 = (Ret (content (os s1) h, None), s1\<lparr>rist := rc4\<rparr>)"
    using s1 assms(2,8,10) by (intro GetOrCreate_hit [of _ _ _ _ "next_item s"]) auto
  with s1 show ?thesis
    by (intro exI [of _ s1] exI [of _ "s1\<lparr>rist := rc4\<rparr>"]) (auto simp: calm_def)
qed

text \<open>A third-party cache that never forgets, and an empty cache over it, for the witnesses.\<close>

definition keep_all :: "(string \<times> nat) list deps" where
  "keep_all = \<lparr>rGet = (\<lambda>rc k. (map_of rc k, rc)), rSet = (\<lambda>rc k v. (True, [], (k, v) # rc)),
     rangeOrder = (\<lambda>sm. map fst (mapObj sm))\<rparr>"

definition empty_cache :: "'x \<Rightarrow> ((string \<times> nat) list, 'x) cstate" where
  "empty_cache e = \<lparr>os = \<lparr>names = Map.empty, inodes = (\<lambda>_. []), next_inode = 0, faults = []\<rparr>,
     items = (\<lambda>_. \<lparr>item_key = [], item_file = None, item_lock = unlocked\<rparr>), next_item = 0,
     fdCnt = 0, rist = [], metadataCache = NewSyncMap 10000000, cpath = ''/cache'',
     clock = False, env = e\<rparr>"

lemma empty_cache_is_NewCache:
  "NewCache (\<lambda>maxCost cost. Some []) (os (empty_cache e)) e 1048576 ''/cache'' = Some (empty_cache e)"
  by (simp add: NewCache_def empty_cache_def os_MkdirAll_def)

lemma keep_all_empty:
  fixes key :: string and e :: 'x
  shows "calm (empty_cache e)" "rGet keep_all (rist (empty_cache e)) key = (None, [])"
    "rGet keep_all [] key = (None, [])" "names (os (empty_cache e)) key = None"
    "rSet keep_all [] key (next_item (empty_cache e)) = (True, [], [(key, 0)])"
    "rGet keep_all [(key, 0)] key = (Some (next_item (empty_cache e)), [(key, 0)])"
  by (simp_all add: calm_def empty_cache_def keep_all_def)

definition fetch_78 :: "nat \<Rightarrow> (byte list \<times> goerr option) outcome \<times> nat" where
  "fetch_78 n = (Ret ([7, 8], None), Suc n)"

theorem GetOrCreate_miss_then_hit_witness:
  "\<exists>s1 s2. GetOrCreate keep_all ''sha256:ab'' 0 2 fetch_78 (empty_cache 0)
       = (Ret ([7, 8], None), s1) \<and> env s1 = 1
     \<and> GetOrCreate keep_all ''sha256:ab'' 0 2 (\<lambda>n. (Hang, n)) s1 = (Ret ([7, 8], None), s2)
     \<and> env s2 = 1"
  using GetOrCreate_miss_then_hit [where s = "empty_cache 0" and fetch = fetch_78 and d = "[7, 8]"
      and e' = 1 and count = 2 and ?fetch2.0 = "\<lambda>n. (Hang, n)" and name = "''sha256:ab''" and off = 0,
      OF keep_all_empty(1) refl keep_all_empty(2-5) _ _ _ keep_all_empty(6)]
  by (auto simp: fetch_78_def empty_cache_def)

theorem GetOrCreate_provenance_witness:
  "\<exists>s'. GetOrCreate keep_all ''sha256:ab'' 0 2 fetch_78 (empty_cache 0) = (Ret ([7, 8], None), s')
     \<and> int (length [7, 8 :: byte]) = 2 \<and> (env s' = 1 \<or> env s' = 0)"
proof -
  obtain s' where g: "GetOrCreate keep_all ''sha256:ab'' 0 2 fetch_78 (empty_cache 0)
      = (Ret ([7, 8], None), s')"
    using GetOrCreate_miss [where s = "empty_cache 0" and fetch = fetch_78 and d = "[7, 8]"
      and e' = 1 and count = 2 and name = "''sha256:ab''" and off = 0,
      OF keep_all_empty(1) refl keep_all_empty(2-5)]
    by (auto simp: fetch_78_def empty_cache_def)
  from GetOrCreate_provenance [OF g] g show ?thesis
    by (auto simp: empty_cache_def fetch_78_def)
qed

text \<open>A failed fetch is reported and leaves no trace that a later call would mistake for data: the
  error is returned, the path is removed from the disk, every lock is free again, and the next call
  for the chunk runs its own fetch and returns that fetch's bytes.\<close>

theorem GetOrCreate_failed_fetch_retried:
  assumes "calm s" "key = getKey (cpath s) name off"
    and "rGet D (rist s) key = (None, rc1)" "rGet D rc1 key = (None, rc2)"
    and "names (os s) key = None" "rSet D rc2 key (next_item s) = (True, [], rc3)"
    and "fetch (env s) = (Ret (b, Some err), e1)" "0 < count"
    and "rGet D rc3 key = (Some (next_item s), rc4)"
    and "fetch2 e1 = (Ret (d, None), e2)" "int (length d) = count"
  shows "\<exists>s1 s2. GetOrCreate D name off count fetch s = (Ret ([], Some err), s1)
    \<and> names (os s1) key = None \<and> calm s1
    \<and> GetOrCreate D name off count fetch2 s1 = (Ret (d, None), s2) \<and> env s2 = e2 \<and> calm s2"
proof -
  let ?r = "next_item s"
  let ?h = "\<lparr>fname = key, finode = next_inode (os s), fpos = 0, fopen = True\<rparr>"
  obtain s0 where s0: "lookup_or_new D key s = (Ret (Inr ?r), s0)" "at_rest s0 ?r ?h"
      "faults (os s0) = []" "content (os s0) ?h = []" "env s0 = env s" "rist s0 = rc3"
      "cpath s0 = cpath s" "names (os s0) key = Some (next_inode (os s))" "calm s0"
    using lookup_or_new_miss [OF assms(1,3-6)] assms(1)
    by (auto simp: at_rest_def calm_def content_def)
  let ?s1 = "s0\<lparr>os := (os s0)\<lparr>names := (names (os s0))(key := None)\<rparr>, env := e1\<rparr>"
  have "serve_item ?r count fetch s0 = (Ret ([], Some err), ?s1)"
    using s0 assms(7,8)
    by (cases "items s0 ?r")
      (simp add: serve_item_def ensure_filled_def fill_locked_def bind_apply item_RLock_def
        item_Stat_def item_RUnlock_def item_Lock_def item_Unlock_def modify_apply ret_apply
        item_fill_def run_fetch_def os_Stat_ok at_rest_def unlocked_def upd_item_def item_Name_def
        file_Name_def do_Remove_def os_Remove_def fun_upd_idem)
  then have g1: "GetOrCreate D name off count fetch s = (Ret ([], Some err), ?s1)"
    using s0 assms(2) by (simp add: GetOrCreate_def bind_apply gets_apply)
  have rest: "at_rest (?s1\<lparr>rist := rc4\<rparr>) ?r ?h"
    using s0(2) by (simp add: at_rest_def)
  have l2: "lookup_or_new D key ?s1 = (Ret (Inr ?r), ?s1\<lparr>rist := rc4\<rparr>)"
    using assms(9) s0 by (intro lookup_or_new_hit) simp
  show ?thesis
    using g1 serve_item_fetch [OF _ rest, of count fetch2 d e2] l2 assms(2,8,10,11) s0
    by (auto simp: GetOrCreate_def bind_apply gets_apply calm_def content_def)
qed

theorem GetOrCreate_failed_fetch_retried_witness:
  "\<exists>s1 s2. GetOrCreate keep_all ''sha256:ab'' 0 2 (\<lambda>n. (Ret ([], Some ErrUnexpectedEOF), n))
        (empty_cache 0) = (Ret ([], Some ErrUnexpectedEOF), s1)
     \<and> GetOrCreate keep_all ''sha256:ab'' 0 2 fetch_78 s1 = (Ret ([7, 8], None), s2)"
  using GetOrCreate_failed_fetch_retried [where s = "empty_cache 0" and ?fetch2.0 = fetch_78
      and fetch = "\<lambda>n. (Ret ([], Some ErrUnexpectedEOF), n)" and b = "[]" and err = ErrUnexpectedEOF
      and ?e1.0 = 0 and d = "[7, 8]" and ?e2.0 = 1 and count = 2 and name = "''sha256:ab''" and off = 0,
      OF keep_all_empty(1) refl keep_all_empty(2-5) _ _ keep_all_empty(6)]
  by (auto simp: fetch_78_def empty_cache_def)

section \<open>Lock discipline\<close>

definition locks_are :: "bool \<Rightarrow> (nat \<Rightarrow> rwmutex) \<Rightarrow> ('rc, 'x) cstate \<Rightarrow> bool" where
  "locks_are c L s \<longleftrightarrow> clock s = c \<and> (\<forall>r. item_lock (items s r) = L r)"

definition no_hang :: "('x, 'a) go \<Rightarrow> bool" where
  "no_hang m \<longleftrightarrow> (\<forall>e. fst (m e) \<noteq> Hang)"

text \<open>Steps that leave every lock as it is.\<close>

definition keeps_locks :: "(('rc, 'x) cstate, 'a) go \<Rightarrow> bool" where
  "keeps_locks m \<longleftrightarrow> (\<forall>c L. runs (locks_are c L) m (\<lambda>_. locks_are c L))"

lemma keeps_locks_runs: "keeps_locks m \<Longrightarrow> runs (locks_are c L) m (\<lambda>_. locks_are c L)"
  by (simp add: keeps_locks_def)

lemma keeps_locks_bind: "keeps_locks m \<Longrightarrow> (\<And>a. keeps_locks (f a)) \<Longrightarrow> keeps_locks (bind m f)"
  unfolding keeps_locks_def
proof (intro allI)
  fix c L
  assume "\<forall>c L. runs (locks_are c L) m (\<lambda>_. locks_are c L)"
    and "\<And>a. \<forall>c L. runs (locks_are c L) (f a) (\<lambda>_. locks_are c L)"
  then show "runs (locks_are c L) (bind m f) (\<lambda>_. locks_are c L)"
    by (intro runs_bind [of _ m "\<lambda>_. locks_are c L"]) auto
qed

lemma keeps_locks_ret [simp]: "keeps_locks (ret a)"
  by (auto simp: keeps_locks_def intro: runs_ret)

lemma keeps_locksI:
  fixes m :: "(('rc, 'x) cstate, 'a) go"
  assumes "\<And>s. fst (m s) \<noteq> Hang \<and> clock (snd (m s)) = clock s
      \<and> (\<forall>r. item_lock (items (snd (m s)) r) = item_lock (items s r))"
  shows "keeps_locks m"
  unfolding keeps_locks_def
proof (intro allI runsI)
  fix c L and s :: "('rc, 'x) cstate"
  assume "locks_are c L s"
  with assms [of s] show "case m s of (Ret a, s') \<Rightarrow> locks_are c L s' | (Panic p, s') \<Rightarrow> True
      | (Hang, s') \<Rightarrow> False"
    by (cases "m s"; cases "fst (m s)") (auto simp: locks_are_def)
qed

lemma keeps_locks_unlocked:
  fixes m :: "(('rc, 'x) cstate, 'a) go"
  assumes "\<And>s. fst (m s) \<noteq> Hang" "\<And>s. clock (snd (m s)) = clock s"
    and "\<And>s r. item_lock (items s r) = unlocked \<Longrightarrow> item_lock (items (snd (m s)) r) = unlocked"
  shows "runs (locks_are c (\<lambda>_. unlocked)) m (\<lambda>_. locks_are c (\<lambda>_. unlocked))"
proof (rule runsI)
  fix s :: "('rc, 'x) cstate"
  assume "locks_are c (\<lambda>_. unlocked) s"
  with assms [of s] show "case m s of (Ret a, s') \<Rightarrow> locks_are c (\<lambda>_. unlocked) s'
      | (Panic p, s') \<Rightarrow> True | (Hang, s') \<Rightarrow> False"
    by (cases "m s"; cases "fst (m s)") (auto simp: locks_are_def)
qed

lemma keeps_locks_steps [simp]:
  "keeps_locks (item_Stat r)" "keeps_locks (item_Name r)" "keeps_locks (do_Remove p)"
  by (rule keeps_locksI,
      simp add: item_Stat_def item_Name_def do_Remove_def file_Name_def split: prod.splits option.splits)+

lemma keeps_locks_cache_Get [simp]: "keeps_locks (cache_Get D key)"
  by (rule keeps_locksI) (simp add: cache_Get_def split: prod.splits)

lemma keeps_locks_item_bytes [simp]: "keeps_locks (item_bytes r)"
  unfolding item_bytes_def
proof (rule keeps_locks_bind)
  show "keeps_locks (\<lambda>s. case readFromStart (os s) (item_file (items s r)) of
      (x, s') \<Rightarrow> (Ret x, s\<lparr>os := s'\<rparr>))"
    by (rule keeps_locksI) (simp split: prod.splits)
qed (auto intro: keeps_locks_bind split: prod.splits)

lemma writeAll_no_hang: "writeAll s f b = (x, y) \<Longrightarrow> x \<noteq> Hang"
  by (auto simp: writeAll_def file_Name_def split: prod.splits option.splits)

lemma keeps_locks_item_fill: "no_hang fetch \<Longrightarrow> keeps_locks (item_fill r fetch)"
  unfolding item_fill_def
proof (rule keeps_locks_bind)
  assume "no_hang fetch"
  then show "keeps_locks (run_fetch fetch)"
    by (intro keeps_locksI) (simp add: run_fetch_def no_hang_def split_beta)
next
  show "keeps_locks (case x of (buffer, err) \<Rightarrow> (case err of
         Some e \<Rightarrow> bind (item_Name r) (\<lambda>nm. bind (do_Remove nm) (\<lambda>_. ret (0, Some e)))
       | None \<Rightarrow> (\<lambda>s. case writeAll (os s) (item_file (items s r)) buffer of
             (x, f, s') \<Rightarrow> (x, upd_item r (\<lambda>i. i\<lparr>item_file := f\<rparr>) (s\<lparr>os := s'\<rparr>)))))" for x
  proof (cases "snd x")
    case None
    then show ?thesis
      by (cases x) (auto intro!: keeps_locksI dest: writeAll_no_hang split: prod.splits)
  qed (cases x, simp add: keeps_locks_bind)
qed

text \<open>Steps on a lock.\<close>

lemma runs_Lock:
  "L r = unlocked \<Longrightarrow> runs (locks_are c L) (item_Lock r) (\<lambda>_. locks_are c (L(r := \<lparr>readers = 0, writer = True\<rparr>)))"
  by (auto simp: runs_def locks_are_def item_Lock_def unlocked_def)

lemma runs_RLock:
  "L r = unlocked \<Longrightarrow> runs (locks_are c L) (item_RLock r) (\<lambda>_. locks_are c (L(r := \<lparr>readers = Suc 0, writer = False\<rparr>)))"
  by (auto simp: runs_def locks_are_def item_RLock_def unlocked_def)

lemma runs_Unlock:
  "runs (locks_are c (L(r := \<lparr>readers = 0, writer = True\<rparr>))) (item_Unlock r) (\<lambda>_. locks_are c (L(r := unlocked)))"
  unfolding item_Unlock_def by (rule runs_modify) (auto simp: locks_are_def unlocked_def)

lemma runs_RUnlock:
  "runs (locks_are c (L(r := \<lparr>readers = Suc 0, writer = False\<rparr>))) (item_RUnlock r) (\<lambda>_. locks_are c (L(r := unlocked)))"
  unfolding item_RUnlock_def by (rule runs_modify) (auto simp: locks_are_def unlocked_def)

lemma runs_fill_locked:
  assumes "no_hang fetch"
  shows "runs (locks_are c (L(r := \<lparr>readers = 0, writer = True\<rparr>))) (fill_locked r count fetch)
     (\<lambda>_. locks_are c (L(r := unlocked)))"
  unfolding fill_locked_def
proof (rule runs_bind [OF keeps_locks_runs])
  fix info
  show "runs (locks_are c (L(r := \<lparr>readers = 0, writer = True\<rparr>)))
     (case info of
       Inl err \<Rightarrow> bind (item_Unlock r) (\<lambda>_. ret (Some err))
     | Inr sz \<Rightarrow>
         if int sz \<noteq> count then
           bind (item_fill r fetch) (\<lambda>(n, err).
           bind (item_Unlock r) (\<lambda>_.
             case err of
               Some e \<Rightarrow> ret (Some e)
             | None \<Rightarrow> if int n \<noteq> count then ret (Some (FillCount count (int n))) else ret None))
         else bind (item_Unlock r) (\<lambda>_. ret None)) (\<lambda>_. locks_are c (L(r := unlocked)))"
    by (cases info)
      (auto intro!: runs_bind [OF runs_Unlock] runs_ret
        runs_bind [OF keeps_locks_runs [OF keeps_locks_item_fill [OF assms]]] split: option.splits)
qed simp

lemma runs_ensure_filled:
  assumes "no_hang fetch" "L r = unlocked"
  shows "runs (locks_are c L) (ensure_filled r count fetch)
     (\<lambda>err. if err = None then locks_are c (L(r := \<lparr>readers = Suc 0, writer = False\<rparr>)) else locks_are c L)"
  unfolding ensure_filled_def
proof (rule runs_bind [OF runs_RLock [of L r c, OF assms(2)]], rule runs_bind [OF keeps_locks_runs])
  fix info :: "goerr + nat"
  have L: "L(r := unlocked) = L"
    using assms(2) by auto
  note un = runs_RUnlock [of c L r, unfolded L]
  note lk = runs_Lock [of L r c, OF assms(2)]
  note fl = runs_fill_locked [OF assms(1), of c L r count, unfolded L]
  note rl = runs_RLock [of L r c, OF assms(2)]
  show "runs (locks_are c (L(r := \<lparr>readers = Suc 0, writer = False\<rparr>)))
     (case info of
       Inl err \<Rightarrow> bind (item_RUnlock r) (\<lambda>_. ret (Some err))
     | Inr sz \<Rightarrow>
         if int sz \<noteq> count then
           bind (item_RUnlock r) (\<lambda>_.
           bind (item_Lock r) (\<lambda>_.
           bind (fill_locked r count fetch) (\<lambda>err. case err of
               Some e \<Rightarrow> ret (Some e)
             | None \<Rightarrow> bind (item_RLock r) (\<lambda>_. ret None))))
         else ret None)
     (\<lambda>err. if err = None then locks_are c (L(r := \<lparr>readers = Suc 0, writer = False\<rparr>)) else locks_are c L)"
    by (cases info)
      (auto intro!: runs_bind [OF un] runs_bind [OF lk] runs_bind [OF fl] runs_bind [OF rl] runs_ret
        split: option.splits)
qed simp

lemma runs_pre_False: "runs (\<lambda>_. False) m Q"
  by (simp add: runs_def)

lemma runs_serve_item:
  assumes "no_hang fetch" "L r = unlocked"
  shows "runs (locks_are c L) (serve_item r count fetch) (\<lambda>_. locks_are c L)"
  unfolding serve_item_def
proof (rule runs_bind [OF runs_ensure_filled [of fetch L r c count, OF assms]])
  fix err :: "goerr option"
  have L: "L(r := unlocked) = L"
    using assms(2) by auto
  note un = runs_RUnlock [of c L r, unfolded L]
  show "runs (if err = None then locks_are c (L(r := \<lparr>readers = Suc 0, writer = False\<rparr>)) else locks_are c L)
     (case err of
       Some e \<Rightarrow> ret ([], Some e)
     | None \<Rightarrow>
         bind (item_bytes r) (\<lambda>result.
         bind (item_RUnlock r) (\<lambda>_.
           if int (length result) \<noteq> count
           then ret (result, Some (BytesCount count (int (length result))))
           else ret (result, None))))
     (\<lambda>_. locks_are c L)"
    by (cases err)
      (auto intro!: runs_bind [OF keeps_locks_runs [OF keeps_locks_item_bytes]] runs_bind [OF un] runs_ret)
qed

lemma runs_defer_modify: "runs P m (\<lambda>a s. Q a (f s)) \<Longrightarrow> runs P (with_defer (modify f) m) Q"
  by (fastforce simp: runs_def with_defer_def modify_def split: prod.splits outcome.splits)

lemma keeps_locks_drop_body: "keeps_locks (item_drop_body r)"
proof -
  have "keeps_locks (\<lambda>s. case os_Close (os s) (item_file (items s r)) of
      (e, f, s') \<Rightarrow> (Ret e, upd_item r (\<lambda>i. i\<lparr>item_file := f\<rparr>) (s\<lparr>os := s'\<rparr>)))"
    by (rule keeps_locksI) (simp split: prod.splits)
  moreover have "keeps_locks (modify (\<lambda>s. s\<lparr>fdCnt := i32 (fdCnt s - 1)\<rparr>))"
    "keeps_locks (modify (upd_item r (\<lambda>i. i\<lparr>item_file := None\<rparr>)))"
    by (rule keeps_locksI, simp add: modify_def)+
  ultimately show ?thesis
    unfolding item_drop_body_def by (intro keeps_locks_bind) simp_all
qed

lemma runs_drop:
  assumes "L r = unlocked"
  shows "runs (locks_are c L) (item_drop r) (\<lambda>_. locks_are c L)"
  unfolding item_drop_def item_Unlock_def
proof (rule runs_bind [OF runs_Lock [of L r c, OF assms]], rule runs_defer_modify)
  let ?L = "L(r := \<lparr>readers = 0, writer = True\<rparr>)"
  show "runs (locks_are c ?L) (item_drop_body r)
     (\<lambda>_ s. locks_are c L (upd_item r (\<lambda>i. i\<lparr>item_lock := (item_lock i)\<lparr>writer := False\<rparr>\<rparr>) s))"
    using assms by (intro runs_post [OF keeps_locks_runs [OF keeps_locks_drop_body]])
      (auto simp: locks_are_def unlocked_def)
qed

lemma runs_OnExit: "runs (locks_are c (\<lambda>_. unlocked)) (OnExit rs) (\<lambda>_. locks_are c (\<lambda>_. unlocked))"
  by (induction rs) (auto intro: runs_ret runs_bind [OF runs_drop])

lemma runs_OnExit_ret:
  "runs (locks_are c (\<lambda>_. unlocked)) (bind (OnExit rs) (\<lambda>_. ret a)) (\<lambda>_. locks_are c (\<lambda>_. unlocked))"
  by (auto intro: runs_bind [OF runs_OnExit] runs_ret)

lemma runs_cache_Set:
  fixes D :: "'rc deps"
  shows "runs (locks_are c (\<lambda>_. unlocked)) (cache_Set D key v :: (('rc, 'x) cstate, bool) go)
    (\<lambda>_. locks_are c (\<lambda>_. unlocked))"
proof (rule runsI)
  fix s :: "('rc, 'x) cstate"
  assume s: "locks_are c (\<lambda>_. unlocked) s"
  obtain ok out rc where r: "rSet D (rist s) key v = (ok, out, rc)"
    using prod_cases3 by blast
  have s1: "locks_are c (\<lambda>_. unlocked) (s\<lparr>rist := rc\<rparr>)"
    using s by (simp add: locks_are_def)
  show "case cache_Set D key v s of (Ret a, s') \<Rightarrow> locks_are c (\<lambda>_. unlocked) s'
      | (Panic p, s') \<Rightarrow> True | (Hang, s') \<Rightarrow> False"
    using runs_case [OF runs_OnExit_ret s1, of out ok] by (simp only: cache_Set_def r prod.case)
qed

lemma runs_lookup_or_new:
  "runs (locks_are False (\<lambda>_. unlocked)) (lookup_or_new D key) (\<lambda>_. locks_are False (\<lambda>_. unlocked))"
proof -
  let ?F = "locks_are False (\<lambda>_. unlocked)" and ?T = "locks_are True (\<lambda>_. unlocked)"
  have lk: "runs ?F c_Lock (\<lambda>_. ?T)"
    by (simp add: runs_def c_Lock_def locks_are_def)
  have un: "runs ?T c_Unlock (\<lambda>_. ?F)"
    unfolding c_Unlock_def by (rule runs_modify) (simp add: locks_are_def)
  have ni: "runs ?T (newItem key) (\<lambda>_. ?T)"
    by (rule keeps_locks_unlocked) (auto simp: newItem_def Let_def split: prod.splits option.splits sum.splits)
  have st: "runs ?T (cache_Set D key v) (\<lambda>_. ?T)" for v
    by (rule runs_cache_Set)
  note get = runs_bind [OF keeps_locks_runs [OF keeps_locks_cache_Get]]
  note ret = runs_bind [OF un] runs_ret
  have tail: "runs ?T (bind (newItem key) (\<lambda>val. case val of
               Inl err \<Rightarrow> bind c_Unlock (\<lambda>_. ret (Inl err))
             | Inr r \<Rightarrow>
                 bind (cache_Set D key r) (\<lambda>ok.
                   if \<not> ok then bind c_Unlock (\<lambda>_. ret (Inl ErrUnexpectedEOF))
                   else bind c_Unlock (\<lambda>_. ret (Inr r))))) (\<lambda>_. ?F)"
    by (rule runs_bind [OF ni]) (auto intro!: ret runs_bind [OF st] split: sum.splits)
  show ?thesis
    unfolding lookup_or_new_def
    by (rule get) (auto intro!: runs_ret runs_bind [OF lk] get ret tail split: option.splits)
qed

lemma runs_GetOrCreate:
  assumes "no_hang fetch"
  shows "runs (locks_are False (\<lambda>_. unlocked)) (GetOrCreate D name off count fetch)
     (\<lambda>_. locks_are False (\<lambda>_. unlocked))"
  unfolding GetOrCreate_def
proof (rule runs_bind [OF runs_gets], assumption, rule runs_bind [OF runs_lookup_or_new])
  fix val :: "goerr + nat"
  show "runs (locks_are False (\<lambda>_. unlocked))
      (case val of Inl err \<Rightarrow> ret ([], Some err) | Inr r \<Rightarrow> serve_item r count fetch)
      (\<lambda>_. locks_are False (\<lambda>_. unlocked))"
    by (cases val) (auto intro: runs_ret runs_serve_item [OF assms])
qed

text \<open>No call leaks a lock or deadlocks. Started with every lock free, and with a fetch that does
  not hang, \<open>GetOrCreate\<close> does not hang, and whenever it returns, be it bytes or an error, every
  lock is free again, whatever the third-party cache evicts and whichever system calls fail.\<close>

theorem GetOrCreate_releases_locks:
  assumes "no_hang fetch"
  shows "runs (locks_are False (\<lambda>_. unlocked)) (GetOrCreate D name off count fetch)
     (\<lambda>_. locks_are False (\<lambda>_. unlocked))"
  by (rule runs_GetOrCreate [OF assms])

theorem GetOrCreate_releases_locks_witness:
  "runs (locks_are False (\<lambda>_. unlocked)) (GetOrCreate keep_all ''sha256:ab'' 0 2 fetch_78)
     (\<lambda>_. locks_are False (\<lambda>_. unlocked))
   \<and> locks_are False (\<lambda>_. unlocked) (empty_cache (0::nat))"
  by (intro conjI GetOrCreate_releases_locks)
    (simp_all add: no_hang_def fetch_78_def locks_are_def empty_cache_def)

text \<open>A fetch that panics is different. \<open>GetOrCreate\<close> holds the item's write lock around the
  fetch without deferring its release, so after the panic is recovered the lock stays held, and the
  next call for the same chunk hangs.\<close>

theorem GetOrCreate_panicking_fetch_leaks_lock:
  assumes "calm s" "key = getKey (cpath s) name off"
    and "rGet D (rist s) key = (Some r, rc1)" "rGet D rc1 key = (Some r, rc2)"
    and "at_rest s r h" "int (length (content (os s) h)) \<noteq> count"
    and "fetch (env s) = (Panic p, e')"
  shows "\<exists>s1. GetOrCreate D name off count fetch s = (Panic p, s1)
    \<and> item_lock (items s1 r) = \<lparr>readers = 0, writer = True\<rparr>
    \<and> fst (GetOrCreate D name off count' fetch' s1) = Hang"
proof -
  let ?s1 = "upd_item r (\<lambda>i. i\<lparr>item_lock := \<lparr>readers = 0, writer = True\<rparr>\<rparr>) (s\<lparr>rist := rc1, env := e'\<rparr>)"
  have "ensure_filled r count fetch (s\<lparr>rist := rc1\<rparr>) = (Panic p, ?s1)"
    using assms
    by (simp add: ensure_filled_def fill_locked_def bind_apply item_RLock_def item_Stat_def
        item_RUnlock_def item_Lock_def modify_apply item_fill_def run_fetch_def os_Stat_ok
        at_rest_def unlocked_def upd_item_def calm_def)
  then have g: "GetOrCreate D name off count fetch s = (Panic p, ?s1)"
    using lookup_or_new_hit [of D s key r rc1] assms(2,3)
    by (simp add: GetOrCreate_def bind_apply gets_apply serve_item_def)
  have "fst (GetOrCreate D name off count' fetch' ?s1) = Hang"
    using lookup_or_new_hit [of D ?s1 key r rc2] assms(2,4)
    by (simp add: GetOrCreate_def bind_apply gets_apply serve_item_def ensure_filled_def item_RLock_def)
  with g show ?thesis by auto
qed

text \<open>An item with an empty file in the cache, as a failed or interrupted fill leaves it.\<close>

definition one_empty_item :: "'x \<Rightarrow> ((string \<times> nat) list, 'x) cstate" where
  "one_empty_item e = (empty_cache e)\<lparr>
     items := (\<lambda>_. \<lparr>item_key = [], item_file = Some \<lparr>fname = [], finode = 0, fpos = 0, fopen = True\<rparr>,
                   item_lock = unlocked\<rparr>),
     rist := [(getKey ''/cache'' ''sha256:ab'' 0, 0)]\<rparr>"

lemma one_empty_item_facts:
  fixes e :: 'x
  defines "s \<equiv> one_empty_item e" and "h \<equiv> \<lparr>fname = [], finode = 0, fpos = 0, fopen = True\<rparr>"
    and "key \<equiv> getKey ''/cache'' ''sha256:ab'' 0"
  shows "calm s" "key = getKey (cpath s) ''sha256:ab'' 0"
    "rGet keep_all (rist s) key = (Some 0, rist s)" "at_rest s 0 h" "content (os s) h = []"
  by (simp_all add: s_def h_def key_def one_empty_item_def empty_cache_def calm_def at_rest_def
      keep_all_def content_def)

theorem GetOrCreate_panicking_fetch_leaks_lock_witness:
  "\<exists>s1. GetOrCreate keep_all ''sha256:ab'' 0 2 (\<lambda>n. (Panic MakesliceLenOutOfRange, n)) (one_empty_item (0::nat))
       = (Panic MakesliceLenOutOfRange, s1)
     \<and> item_lock (items s1 0) = \<lparr>readers = 0, writer = True\<rparr>
     \<and> fst (GetOrCreate keep_all ''sha256:ab'' 0 2 fetch_78 s1) = Hang"
  by (rule GetOrCreate_panicking_fetch_leaks_lock [where e' = 0,
      OF one_empty_item_facts(1,2,3,3,4)]) (simp_all add: one_empty_item_def empty_cache_def content_def)

section \<open>Sizes and existence\<close>

text \<open>The size stored for a file is the size read back, and storing the size of one file changes the
  recorded size of another only by forgetting it. No operation on sizes blocks or panics.\<close>

theorem PutSize_Size:
  "\<exists>s'. PutSize D name len s = (Ret True, s')
     \<and> Size name s' = (Ret (len, True), s')
     \<and> (\<forall>other. size_key other \<noteq> size_key name \<longrightarrow>
          Size other s' = (fst (Size other s), s') \<or> Size other s' = (Ret (0, False), s'))"
proof -
  let ?s' = "s\<lparr>metadataCache := SyncMap_Set (metadataCache s) (rangeOrder D (metadataCache s)) (size_key name) len\<rparr>"
  have "PutSize D name len s = (Ret True, ?s')"
    by (simp add: PutSize_def bind_apply modify_apply ret_apply)
  moreover have "Size other ?s' = (fst (Size other s), ?s') \<or> Size other ?s' = (Ret (0, False), ?s')"
    if "size_key other \<noteq> size_key name" for other
    using Get_Set_other [OF that, of "metadataCache s" "rangeOrder D (metadataCache s)" len]
    by (auto simp: Size_def gets_apply)
  ultimately show ?thesis
    by (auto simp: Size_def gets_apply)
qed

theorem PutSize_Size_witness:
  "\<exists>s'. PutSize keep_all ''blob'' 42 (empty_cache ()) = (Ret True, s')
     \<and> Size ''blob'' s' = (Ret (42, True), s')
     \<and> (Size ''other'' s' = (Ret (0, False), s'))"
proof -
  have "size_key ''other'' \<noteq> size_key ''blob''"
    by code_simp
  moreover have "fst (Size ''other'' (empty_cache ())) = Ret (0, False)"
    by (simp add: Size_def gets_apply empty_cache_def SyncMap_Get_def NewSyncMap_def)
  ultimately show ?thesis
    using PutSize_Size [of keep_all "''blob''" 42 "empty_cache ()"] by fastforce
qed

end
