(* ===== verification/Coherence.thy ===== *)
theory Coherence
  imports FileCache
begin

text \<open>
  The contents of the cache over time. If every fetch delivers the right bytes of its chunk, then,
  as long as no write fails half-way, no sequence of operations on the cache can ever make it serve
  wrong bytes: not through evictions, removed files, refused entries or failed fetches. A write that
  fails half-way breaks this.
\<close>

section \<open>The invariant\<close>

text \<open>What the third-party cache documents: \<open>Get\<close> returns a value that was \<open>Set\<close> under the key.
  \<open>holds\<close> abstracts its contents.\<close>

definition kv_lawful :: "'rc deps \<Rightarrow> ('rc \<Rightarrow> (string \<times> nat) set) \<Rightarrow> bool" where
  "kv_lawful D holds \<longleftrightarrow>
     (\<forall>rc k v rc'. rGet D rc k = (v, rc') \<longrightarrow> holds rc' \<subseteq> holds rc \<and> (\<forall>r. v = Some r \<longrightarrow> (k, r) \<in> holds rc))
     \<and> (\<forall>rc k r ok out rc'. rSet D rc k r = (ok, out, rc') \<longrightarrow> holds rc' \<subseteq> insert (k, r) (holds rc))"

text \<open>The bytes of a file are the right ones or have the wrong length.\<close>

definition sound_bytes :: "byte list \<Rightarrow> byte list \<Rightarrow> bool" where
  "sound_bytes want c \<longleftrightarrow> c = want \<or> length c \<noteq> length want"

text \<open>\<open>truth\<close> gives the right bytes of every key; \<open>own\<close> tells which path an inode was made for.\<close>

definition owned_inv :: "(string \<Rightarrow> byte list) \<Rightarrow> (nat \<Rightarrow> string) \<Rightarrow> os_state \<Rightarrow> (nat \<Rightarrow> item) \<Rightarrow> bool" where
  "owned_inv truth own fs its \<longleftrightarrow> faults fs = []
     \<and> (\<forall>p n. names fs p = Some n \<longrightarrow> own n = p \<and> n < next_inode fs)
     \<and> (\<forall>r h. item_file (its r) = Some h \<longrightarrow> own (finode h) = item_key (its r) \<and> finode h < next_inode fs)
     \<and> (\<forall>n < next_inode fs. sound_bytes (truth (own n)) (inodes fs n))"

definition chunk_inv :: "(string \<Rightarrow> byte list) \<Rightarrow> ('rc \<Rightarrow> (string \<times> nat) set) \<Rightarrow> ('rc, 'x) cstate \<Rightarrow> bool" where
  "chunk_inv truth holds s \<longleftrightarrow> (\<exists>own. owned_inv truth own (os s) (items s))
     \<and> (\<forall>k r. (k, r) \<in> holds (rist s) \<longrightarrow> item_key (items s r) = k \<and> r < next_item s)"

section \<open>Every step keeps it\<close>

text \<open>A computation keeps a predicate whatever its outcome.\<close>

definition keeps :: "('s \<Rightarrow> bool) \<Rightarrow> ('s, 'a) go \<Rightarrow> bool" where
  "keeps I m \<longleftrightarrow> (\<forall>s. I s \<longrightarrow> I (snd (m s)))"

lemma keepsD: "keeps I m \<Longrightarrow> I s \<Longrightarrow> m s = (x, s') \<Longrightarrow> I s'"
  by (metis keeps_def snd_conv)

lemma keeps_bind: "keeps I m \<Longrightarrow> (\<And>a. keeps I (f a)) \<Longrightarrow> keeps I (bind m f)"
  by (auto simp: keeps_def bind_def split: prod.splits outcome.splits)

lemma keeps_ret [simp]: "keeps I (ret a)"
  by (simp add: keeps_def ret_def)

lemma keeps_gets [simp]: "keeps I (gets f)"
  by (simp add: keeps_def gets_def)

lemma keeps_modify: "(\<And>s. I s \<Longrightarrow> I (f s)) \<Longrightarrow> keeps I (modify f)"
  by (simp add: keeps_def modify_def)

lemma keeps_cases:
  "(\<And>a. x = Inl a \<Longrightarrow> keeps I (f a)) \<Longrightarrow> (\<And>b. x = Inr b \<Longrightarrow> keeps I (g b)) \<Longrightarrow>
     keeps I (case x of Inl a \<Rightarrow> f a | Inr b \<Rightarrow> g b)"
  "keeps I m \<Longrightarrow> (\<And>a. keeps I (f' a)) \<Longrightarrow> keeps I (case y of None \<Rightarrow> m | Some a \<Rightarrow> f' a)"
  "(\<And>a b. keeps I (h a b)) \<Longrightarrow> keeps I (case z of (a, b) \<Rightarrow> h a b)"
  "keeps I m \<Longrightarrow> keeps I m' \<Longrightarrow> keeps I (if c then m else m')"
  by (simp_all split: sum.splits option.splits prod.splits)

lemma keeps_with_defer:
  assumes "keeps I fin" "keeps I m"
  shows "keeps I (with_defer fin m)"
  unfolding keeps_def
proof (intro allI impI)
  fix s assume "I s"
  obtain x s1 where 1: "m s = (x, s1)" by fastforce
  obtain y s2 where 2: "fin s1 = (y, s2)" by fastforce
  have "I s1" "I s2"
    using assms \<open>I s\<close> 1 2 by (blast dest: keepsD)+
  then show "I (snd (with_defer fin m s))"
    using 1 2 by (auto simp: with_defer_def split: outcome.splits)
qed

text \<open>For an item \<open>r\<close> whose key is known, as it is once it was looked up.\<close>

definition item_inv :: "(string \<Rightarrow> byte list) \<Rightarrow> ('rc \<Rightarrow> (string \<times> nat) set) \<Rightarrow> nat \<Rightarrow> string \<Rightarrow> ('rc, 'x) cstate \<Rightarrow> bool" where
  "item_inv truth holds r k s \<longleftrightarrow> chunk_inv truth holds s \<and> item_key (items s r) = k"

lemma item_inv_cong:
  assumes "os s' = os s" "rist s' = rist s" "next_item s' = next_item s"
    and "\<And>r. item_file (items s' r) = item_file (items s r)" "\<And>r. item_key (items s' r) = item_key (items s r)"
  shows "item_inv truth holds r k s' = item_inv truth holds r k s"
  using assms by (simp add: item_inv_def chunk_inv_def owned_inv_def)

lemma item_inv_upd_lock [simp]:
  "item_inv truth holds r k (upd_item i (\<lambda>x. x\<lparr>item_lock := f x\<rparr>) s) = item_inv truth holds r k s"
  by (rule item_inv_cong) (simp_all add: upd_item_def)

lemma item_inv_fields [simp]:
  "item_inv truth holds r k (s\<lparr>env := e\<rparr>) = item_inv truth holds r k s"
  "item_inv truth holds r k (s\<lparr>fdCnt := c\<rparr>) = item_inv truth holds r k s"
  "item_inv truth holds r k (s\<lparr>clock := b\<rparr>) = item_inv truth holds r k s"
  by (rule item_inv_cong; simp)+

lemma keeps_locks:
  "keeps (item_inv truth holds r k) (item_Lock i)" "keeps (item_inv truth holds r k) (item_Unlock i)"
  "keeps (item_inv truth holds r k) (item_RLock i)" "keeps (item_inv truth holds r k) (item_RUnlock i)"
  by (simp_all add: keeps_def item_Lock_def item_Unlock_def item_RLock_def item_RUnlock_def modify_apply)

lemma item_inv_no_faults: "item_inv truth holds r k s \<Longrightarrow> faults (os s) = []"
  by (auto simp: item_inv_def chunk_inv_def owned_inv_def)

text \<open>Without faults a read changes nothing.\<close>

lemma os_Stat_calm: "faults fs = [] \<Longrightarrow> snd (os_Stat fs f) = fs"
  by (simp add: os_Stat_def split: sum.splits)

lemma os_ReadAt_calm: "faults fs = [] \<Longrightarrow> snd (os_ReadAt fs f n off) = fs"
  by (simp add: os_ReadAt_def Let_def split: sum.splits)

lemma read_loop_calm: "faults fs = [] \<Longrightarrow> snd (read_loop fs f n acc) = fs"
proof (induction fs f n acc rule: read_loop.induct)
  case (1 fs f n acc)
  have "snd (os_ReadAt fs f (n - length acc) (length acc)) = fs"
    using "1.prems" by (rule os_ReadAt_calm)
  then show ?case
    using "1.IH" "1.prems" by (subst read_loop.simps) (auto split: prod.splits option.splits)
qed

lemma readFromStart_calm:
  assumes "faults fs = []"
  shows "snd (readFromStart fs f) = fs"
proof -
  obtain x s1 where x: "os_Stat fs f = (x, s1)" by fastforce
  then have s1: "s1 = fs" using os_Stat_calm [OF assms, of f] by simp
  show ?thesis
  proof (cases x)
    case (Inr n)
    obtain b e s2 where r: "read_loop fs f n [] = ((b, e), s2)" by (metis prod.collapse)
    then have "s2 = fs" using read_loop_calm [OF assms, of f n "[]"] by simp
    with x s1 Inr r show ?thesis by (simp add: readFromStart_def Let_def)
  qed (use x s1 in \<open>simp add: readFromStart_def\<close>)
qed

lemma item_Stat_calm: "faults (os s) = [] \<Longrightarrow> snd (item_Stat i s) = s"
  using os_Stat_calm [of "os s" "item_file (items s i)"]
  by (auto simp: item_Stat_def split: prod.splits)

lemma item_bytes_calm: "faults (os s) = [] \<Longrightarrow> snd (item_bytes i s) = s"
  using readFromStart_calm [of "os s" "item_file (items s i)"]
  by (auto simp: item_bytes_def bind_apply item_Name_def ret_apply split: prod.splits outcome.splits)

lemma keeps_reads:
  "keeps (item_inv truth holds r k) (item_Stat i)" "keeps (item_inv truth holds r k) (item_bytes i)"
  by (simp_all add: keeps_def item_Stat_calm item_bytes_calm item_inv_no_faults)

text \<open>Removing a path and closing a file.\<close>

lemma os_Remove_calm:
  "faults fs = [] \<Longrightarrow> snd (os_Remove fs p) = fs\<lparr>names := (names fs)(p := None)\<rparr>"
  by (auto simp: os_Remove_def fun_upd_idem)

lemma do_Remove_calm:
  "faults (os s) = [] \<Longrightarrow> do_Remove p s = (Ret (fst (os_Remove (os s) p)), s\<lparr>os := (os s)\<lparr>names := (names (os s))(p := None)\<rparr>\<rparr>)"
  using os_Remove_calm [of "os s" p] by (auto simp: do_Remove_def split: prod.splits)

lemma owned_inv_remove:
  "owned_inv truth own fs its \<Longrightarrow> owned_inv truth own (fs\<lparr>names := (names fs)(p := None)\<rparr>) its"
  by (auto simp: owned_inv_def)

lemma keeps_Remove: "keeps (item_inv truth holds r k) (do_Remove p)"
proof -
  have "item_inv truth holds r k (s\<lparr>os := (os s)\<lparr>names := (names (os s))(p := None)\<rparr>\<rparr>)"
    if "item_inv truth holds r k s" for s :: "('a, 'b) cstate"
    using that owned_inv_remove by (fastforce simp: item_inv_def chunk_inv_def)
  moreover have "snd (do_Remove p s) = s\<lparr>os := (os s)\<lparr>names := (names (os s))(p := None)\<rparr>\<rparr>"
    if "item_inv truth holds r k s" for s :: "('a, 'b) cstate"
    using do_Remove_calm [OF item_inv_no_faults [OF that], of p] by simp
  ultimately show ?thesis
    by (simp add: keeps_def)
qed

lemma owned_inv_file:
  assumes "owned_inv truth own fs its" "\<And>h. f = Some h \<Longrightarrow> \<exists>h0. item_file (its i) = Some h0 \<and> finode h = finode h0"
  shows "owned_inv truth own fs (its(i := (its i)\<lparr>item_file := f\<rparr>))"
  using assms by (fastforce simp: owned_inv_def)

lemma keeps_drop: "keeps (item_inv truth holds r k) (item_drop i)"
proof -
  have close: "item_inv truth holds r k (upd_item i (\<lambda>x. x\<lparr>item_file := f\<rparr>) s)"
    if "item_inv truth holds r k s"
      "\<And>h. f = Some h \<Longrightarrow> \<exists>h0. item_file (items s i) = Some h0 \<and> finode h = finode h0" for s :: "('a, 'b) cstate" and f
    using that(1) owned_inv_file [where fs = "os s" and its = "items s" and i = i and f = f and truth = truth, OF _ that(2)]
    by (auto simp: item_inv_def chunk_inv_def upd_item_def fun_upd_def)
  have "keeps (item_inv truth holds r k)
     (\<lambda>s :: ('a, 'b) cstate. case os_Close (os s) (item_file (items s i)) of
        (e, f, s') \<Rightarrow> (Ret e, upd_item i (\<lambda>x. x\<lparr>item_file := f\<rparr>) (s\<lparr>os := s'\<rparr>)))"
    unfolding keeps_def
  proof (intro allI impI)
    fix s :: "('a, 'b) cstate" assume s: "item_inv truth holds r k s"
    obtain e f fs where c: "os_Close (os s) (item_file (items s i)) = (e, f, fs)" using prod_cases3 by blast
    have "fs = os s" "\<And>h. f = Some h \<Longrightarrow> \<exists>h0. item_file (items s i) = Some h0 \<and> finode h = finode h0"
      using c item_inv_no_faults [OF s]
      by (auto simp: os_Close_def valid_file_def split: option.splits if_splits sum.splits)
    with c close [OF s] show "item_inv truth holds r k (snd (case os_Close (os s) (item_file (items s i)) of
        (e, f, s') \<Rightarrow> (Ret e, upd_item i (\<lambda>x. x\<lparr>item_file := f\<rparr>) (s\<lparr>os := s'\<rparr>))))"
      by simp
  qed
  then have "keeps (item_inv truth holds r k) (item_drop_body i :: (('a, 'b) cstate, unit) go)"
    unfolding item_drop_body_def
    by (intro keeps_bind keeps_Remove keeps_modify close) (auto simp: keeps_def item_Name_def)
  then show ?thesis
    unfolding item_drop_def by (intro keeps_bind keeps_locks keeps_with_defer)
qed

text \<open>Making an item for a path: its inode is fresh, or belongs to the path already.\<close>

lemma owned_inv_open:
  assumes "owned_inv truth own fs its" "os_OpenFile fs path = (Inr h, fs')" "item_key it = path" "item_file it = Some h"
  shows "\<exists>own'. owned_inv truth own' fs' (its(i := it))"
proof (cases "names fs path")
  case (Some n)
  with assms have "h = \<lparr>fname = path, finode = n, fpos = 0, fopen = True\<rparr>" "fs' = fs"
    by (auto simp: os_OpenFile_def owned_inv_def)
  with Some assms show ?thesis
    by (intro exI [of _ own]) (auto simp: owned_inv_def)
next
  case None
  let ?n = "next_inode fs"
  have h: "h = \<lparr>fname = path, finode = ?n, fpos = 0, fopen = True\<rparr>"
    "fs' = fs\<lparr>names := (names fs)(path \<mapsto> ?n), inodes := (inodes fs)(?n := []), next_inode := Suc ?n\<rparr>"
    using None assms(1,2) by (auto simp: os_OpenFile_def owned_inv_def Let_def)
  have "sound_bytes (truth path) []"
    by (auto simp: sound_bytes_def)
  with h assms(1,3,4) show ?thesis
    by (intro exI [of _ "own(?n := path)"]) (fastforce simp: owned_inv_def less_Suc_eq)
qed

lemma newItem_inv:
  assumes "newItem path s = (x, s')" "chunk_inv truth holds s"
  shows "chunk_inv truth holds s' \<and> rist s' = rist s \<and>
    (\<forall>i. x = Ret (Inr i) \<longrightarrow> item_key (items s' i) = path \<and> i < next_item s')"
proof -
  obtain own where own: "owned_inv truth own (os s) (items s)"
    using assms(2) by (auto simp: chunk_inv_def)
  then have nf: "faults (os s) = []" by (simp add: owned_inv_def)
  then have md: "os_MkdirAll (os s) (path_Dir path) = (None, os s)"
    by (simp add: os_MkdirAll_def)
  obtain y fs' where o: "os_OpenFile (os s) path = (y, fs')" by fastforce
  with nf obtain h where y: "y = Inr h"
    by (auto simp: os_OpenFile_def Let_def split: option.splits)
  let ?it = "\<lparr>item_key = path, item_file = Some h, item_lock = unlocked\<rparr>"
  obtain own' where "owned_inv truth own' fs' ((items s)(next_item s := ?it))"
    using owned_inv_open [OF own o [unfolded y], of ?it "next_item s"] by auto
  moreover have "s' = s\<lparr>os := fs', fdCnt := i32 (fdCnt s + 1), next_item := Suc (next_item s),
      items := (items s)(next_item s := ?it)\<rparr>" "x = Ret (Inr (next_item s))"
    using assms(1) md o y by (auto simp: newItem_def Let_def)
  moreover have "item_key (items s r) = k" "r < next_item s" if "(k, r) \<in> holds (rist s)" for k r
    using assms(2) that by (auto simp: chunk_inv_def)
  ultimately show ?thesis
    by (auto simp: chunk_inv_def less_Suc_eq)
qed

lemma keeps_OnExit: "keeps (item_inv truth holds r k) (OnExit out)"
  by (induction out) (simp_all add: keeps_bind keeps_drop)

text \<open>The same for the state before any item was looked up.\<close>

lemma chunk_inv_item_inv: "chunk_inv truth holds s \<longleftrightarrow> item_inv truth holds r (item_key (items s r)) s"
  by (simp add: item_inv_def)

lemma cache_Get_inv:
  assumes "kv_lawful D holds" "cache_Get D key s = (x, s')" "chunk_inv truth holds s"
  shows "chunk_inv truth holds s' \<and> items s' = items s \<and>
    (\<forall>i. x = Ret (Some i) \<longrightarrow> item_key (items s' i) = key \<and> i < next_item s')"
proof -
  obtain v rc where g: "rGet D (rist s) key = (v, rc)" by fastforce
  then have h: "holds rc \<subseteq> holds (rist s)" "\<And>r. v = Some r \<Longrightarrow> (key, r) \<in> holds (rist s)"
    using assms(1) by (auto simp: kv_lawful_def)
  have "x = Ret v" "s' = s\<lparr>rist := rc\<rparr>"
    using assms(2) g by (auto simp: cache_Get_def)
  with h assms(3) show ?thesis
    by (auto simp: chunk_inv_def)
qed

lemma cache_Set_inv:
  assumes "kv_lawful D holds" "cache_Set D key i s = (x, s')" "chunk_inv truth holds s"
    and "item_key (items s i) = key" "i < next_item s"
  shows "item_inv truth holds i key s'"
proof -
  obtain ok out rc where g: "rSet D (rist s) key i = (ok, out, rc)" using prod_cases3 by blast
  then have h: "holds rc \<subseteq> insert (key, i) (holds (rist s))"
    using assms(1) by (auto simp: kv_lawful_def)
  then have 1: "item_inv truth holds i key (s\<lparr>rist := rc\<rparr>)"
    using assms(3-5) by (auto simp: chunk_inv_def item_inv_def)
  have "keeps (item_inv truth holds i key) (bind (OnExit out) (\<lambda>_. ret ok) :: (('a, 'b) cstate, bool) go)"
    by (intro keeps_bind keeps_OnExit) simp
  from keepsD [OF this 1] assms(2) g show ?thesis
    by (simp add: cache_Set_def)
qed

lemma chunk_inv_clock [simp]: "chunk_inv truth holds (s\<lparr>clock := b\<rparr>) = chunk_inv truth holds s"
  "item_inv truth holds r k (s\<lparr>clock := b\<rparr>) = item_inv truth holds r k s"
  by (simp_all add: chunk_inv_def item_inv_def)

lemma lookup_or_new_inv:
  assumes "kv_lawful D holds" "lookup_or_new D key s = (x, s')" "chunk_inv truth holds s"
  shows "chunk_inv truth holds s' \<and> (\<forall>r. x = Ret (Inr r) \<longrightarrow> item_inv truth holds r key s')"
proof -
  obtain v1 s1 where g1: "cache_Get D key s = (Ret v1, s1)"
    by (cases "rGet D (rist s) key") (auto simp: cache_Get_def)
  note i1 = cache_Get_inv [OF assms(1) g1 assms(3)]
  show ?thesis
  proof (cases "v1 = None \<and> \<not> clock s1")
    case False
    with assms(2) g1 i1 show ?thesis
      by (cases v1) (auto simp: lookup_or_new_def bind_apply ret_apply c_Lock_def item_inv_def)
  next
    case True
    let ?s2 = "s1\<lparr>clock := True\<rparr>"
    have "chunk_inv truth holds ?s2" using i1 by simp
    obtain v2 s3 where g2: "cache_Get D key ?s2 = (Ret v2, s3)"
      by (cases "rGet D (rist ?s2) key") (auto simp: cache_Get_def)
    note i2 = cache_Get_inv [OF assms(1) g2 \<open>chunk_inv truth holds ?s2\<close>]
    note run = assms(2) [unfolded lookup_or_new_def bind_apply g1 prod.case outcome.case]
    show ?thesis
    proof (cases v2)
      case (Some r)
      with run True g2 i2 show ?thesis
        by (auto simp: bind_apply ret_apply c_Lock_def c_Unlock_def modify_apply item_inv_def)
    next
      case None
      obtain y s4 where n: "newItem key s3 = (y, s4)" by fastforce
      have i3: "chunk_inv truth holds s4" "\<And>r. y = Ret (Inr r) \<Longrightarrow> item_key (items s4 r) = key \<and> r < next_item s4"
        using newItem_inv [OF n, of truth holds] i2 by auto
      show ?thesis
      proof (cases "\<exists>r. y = Ret (Inr r)")
        case False
        with run True g2 None n i3 show ?thesis
          by (auto simp: bind_apply ret_apply c_Lock_def c_Unlock_def modify_apply split: outcome.splits sum.splits)
      next
        case True
        then obtain r where r: "y = Ret (Inr r)" by blast
        obtain z s5 where st: "cache_Set D key r s4 = (z, s5)" by fastforce
        have "item_inv truth holds r key s5"
          using cache_Set_inv [OF assms(1) st i3(1)] i3(2) [OF r] by simp
        with run \<open>v1 = None \<and> \<not> clock s1\<close> g2 None n r st show ?thesis
          by (auto simp: bind_apply ret_apply c_Lock_def c_Unlock_def modify_apply item_inv_def
              split: outcome.splits if_splits)
      qed
    qed
  qed
qed

text \<open>A fetch that only ever delivers the right bytes.\<close>

definition fetch_right :: "byte list \<Rightarrow> ('x, byte list \<times> goerr option) go \<Rightarrow> bool" where
  "fetch_right want fetch \<longleftrightarrow> (\<forall>e b e'. fetch e = (Ret (b, None), e') \<longrightarrow> b = want)"

lemma owned_inv_write:
  assumes "owned_inv truth own fs its" "item_file (its r) = Some h" "item_key (its r) = k"
  shows "owned_inv truth own (fs\<lparr>inodes := (inodes fs)(finode h := write_at (fpos h) (truth k) [])\<rparr>)
    (its(r := (its r)\<lparr>item_file := Some (h\<lparr>fpos := p\<rparr>)\<rparr>))"
proof -
  have "sound_bytes (truth k) (write_at (fpos h) (truth k) [])"
    by (auto simp: sound_bytes_def write_at_empty)
  with assms show ?thesis
    by (fastforce simp: owned_inv_def)
qed

lemma writeAll_calm:
  assumes "faults fs = []"
  shows "(\<exists>e. writeAll fs f b = (Ret (0, Some e), f, fs)) \<or>
    (\<exists>h. f = Some h \<and> writeAll fs f b = (Ret (length b, None), Some (h\<lparr>fpos := fpos h + length b\<rparr>),
       fs\<lparr>inodes := (inodes fs)(finode h := write_at (fpos h) b [])\<rparr>))"
  using assms
  by (cases f) (auto simp: writeAll_def os_Truncate_def os_Write_def valid_file_def content_def)

lemma run_fetch_apply: "run_fetch fetch s = (fst (fetch (env s)), s\<lparr>env := snd (fetch (env s))\<rparr>)"
  by (simp add: run_fetch_def split: prod.splits)

lemma keeps_fill:
  fixes fetch :: "('x, byte list \<times> goerr option) go" and holds :: "'rc \<Rightarrow> (string \<times> nat) set"
  assumes "fetch_right (truth k) fetch"
  shows "keeps (item_inv truth holds r k) (item_fill r fetch)"
  unfolding keeps_def
proof (intro allI impI)
  fix s :: "('rc, 'x) cstate" assume s: "item_inv truth holds r k s"
  obtain x e' where f: "fetch (env s) = (x, e')" by fastforce
  let ?s1 = "s\<lparr>env := e'\<rparr>"
  have s1: "item_inv truth holds r k ?s1" using s by simp
  show "item_inv truth holds r k (snd (item_fill r fetch s))"
  proof (cases "\<exists>b. x = Ret (b, None)")
    case False
    show ?thesis
    proof (cases x)
      case (Ret y)
      with False obtain b e where y: "y = (b, Some e)" by (metis not_Some_eq prod.collapse)
      have "keeps (item_inv truth holds r k) (bind (item_Name r) (\<lambda>nm. bind (do_Remove nm) (\<lambda>_. ret (0::nat, Some e)))
          :: (('rc, 'x) cstate, nat \<times> goerr option) go)"
        by (intro keeps_bind keeps_Remove keeps_ret) (auto simp: keeps_def item_Name_def)
      then have "item_inv truth holds r k (snd (bind (item_Name r) (\<lambda>nm. bind (do_Remove nm) (\<lambda>_. ret (0::nat, Some e))) ?s1))"
        using s1 unfolding keeps_def by blast
      with f Ret y show ?thesis
        by (simp add: item_fill_def bind_apply [of "run_fetch fetch"] run_fetch_apply)
    qed (use f s1 in \<open>simp_all add: item_fill_def bind_apply run_fetch_def\<close>)
  next
    case True
    then have x: "x = Ret (truth k, None)"
      using f assms by (auto simp: fetch_right_def)
    have w: "snd (item_fill r fetch s) = (case writeAll (os s) (item_file (items s r)) (truth k) of
        (x, g, fs) \<Rightarrow> upd_item r (\<lambda>i. i\<lparr>item_file := g\<rparr>) (?s1\<lparr>os := fs\<rparr>))"
      using f x by (simp add: item_fill_def bind_apply run_fetch_def split: prod.splits)
    from writeAll_calm [OF item_inv_no_faults [OF s], of "item_file (items s r)" "truth k"]
    show ?thesis
    proof (elim disjE exE conjE)
      fix e assume "writeAll (os s) (item_file (items s r)) (truth k) = (Ret (0, Some e), item_file (items s r), os s)"
      then show ?thesis
        using s1 w by (simp add: upd_item_def)
    next
      fix h assume h: "item_file (items s r) = Some h"
        "writeAll (os s) (item_file (items s r)) (truth k) = (Ret (length (truth k), None), Some (h\<lparr>fpos := fpos h + length (truth k)\<rparr>),
          (os s)\<lparr>inodes := (inodes (os s))(finode h := write_at (fpos h) (truth k) [])\<rparr>)"
      obtain own where "owned_inv truth own (os s) (items s)" "item_key (items s r) = k"
        using s by (auto simp: item_inv_def chunk_inv_def)
      from owned_inv_write [OF this(1) h(1) this(2)] s h(2) w show ?thesis
        by (auto simp: item_inv_def chunk_inv_def upd_item_def)
    qed
  qed
qed

lemma keeps_serve:
  assumes "fetch_right (truth k) fetch"
  shows "keeps (item_inv truth holds r k) (serve_item r count fetch)"
proof -
  note fill = keeps_fill [where truth = truth and k = k and fetch = fetch, OF assms]
  have "keeps (item_inv truth holds r k) (fill_locked r count fetch)"
    unfolding fill_locked_def by (intro keeps_bind keeps_cases keeps_locks keeps_reads fill keeps_ret)
  then have "keeps (item_inv truth holds r k) (ensure_filled r count fetch)"
    unfolding ensure_filled_def by (intro keeps_bind keeps_cases keeps_locks keeps_reads keeps_ret)
  then show ?thesis
    unfolding serve_item_def by (intro keeps_bind keeps_cases keeps_locks keeps_reads keeps_ret)
qed

lemma GetOrCreate_inv:
  assumes "kv_lawful D holds" "chunk_inv truth holds s" "fetch_right (truth (getKey (cpath s) name off)) fetch"
    and "GetOrCreate D name off count fetch s = (x, s')"
  shows "chunk_inv truth holds s' \<and> (\<forall>b. x = Ret (b, None) \<longrightarrow> int (length b) = count
    \<and> (count = int (length (truth (getKey (cpath s) name off))) \<longrightarrow> b = truth (getKey (cpath s) name off)))"
proof -
  let ?key = "getKey (cpath s) name off"
  obtain y s1 where l: "lookup_or_new D ?key s = (y, s1)" by fastforce
  note inv = lookup_or_new_inv [OF assms(1) l assms(2)]
  show ?thesis
  proof (cases "\<exists>r. y = Ret (Inr r)")
    case False
    with assms(4) l inv show ?thesis
      by (auto simp: GetOrCreate_def bind_apply gets_apply ret_apply split: outcome.splits sum.splits)
  next
    case True
    then obtain r where r: "y = Ret (Inr r)" by blast
    have sv: "serve_item r count fetch s1 = (x, s')"
      using assms(4) l r by (simp add: GetOrCreate_def bind_apply gets_apply)
    have i1: "item_inv truth holds r ?key s1" using inv r by simp
    have "item_inv truth holds r ?key s'"
      by (rule keepsD [OF keeps_serve i1 sv]) (rule assms(3))
    moreover have "int (length b) = count
        \<and> (count = int (length (truth ?key)) \<longrightarrow> b = truth ?key)" if "x = Ret (b, None)" for b
    proof -
      note so = serve_item_sound [OF sv [unfolded that]]
      have "sound_bytes (truth ?key) b" if "fetch (env s1) = (Ret (b, None), env s')"
        using that assms(3) by (auto simp: fetch_right_def sound_bytes_def)
      moreover have "sound_bytes (truth ?key) b" if "item_file (items s1 r) = Some h" "b = content (os s1) h" for h
      proof -
        from i1 obtain own where "owned_inv truth own (os s1) (items s1)" "item_key (items s1 r) = ?key"
          by (auto simp: item_inv_def chunk_inv_def)
        with that show ?thesis
          unfolding owned_inv_def content_def by metis
      qed
      ultimately have "sound_bytes (truth ?key) b"
        using so by blast
      with conjunct1 [OF so] show ?thesis
        by (auto simp: sound_bytes_def)
    qed
    ultimately show ?thesis
      unfolding item_inv_def by blast
  qed
qed

lemma Exists_inv:
  assumes "kv_lawful D holds" "chunk_inv truth holds s" "Exists D name off s = (x, s')"
  shows "chunk_inv truth holds s'"
proof -
  obtain v s1 where g: "cache_Get D (getKey (cpath s) name off) s = (Ret v, s1)"
    by (cases "rGet D (rist s) (getKey (cpath s) name off)") (auto simp: cache_Get_def)
  note i = cache_Get_inv [OF assms(1) g assms(2)]
  show ?thesis
  proof (cases v)
    case None
    with assms(3) g i show ?thesis
      by (auto simp: Exists_def bind_apply gets_apply ret_apply)
  next
    case (Some r)
    let ?m = "bind (item_Lock r) (\<lambda>_. with_defer (item_Unlock r) (bind (item_Stat r) (\<lambda>info. case info of
                  Inl e \<Rightarrow> ret False | Inr sz \<Rightarrow> ret (sz > 0))))"
    have "?m s1 = (x, s')"
      using assms(3) g Some by (simp add: Exists_def bind_apply gets_apply)
    moreover have "keeps (item_inv truth holds r (item_key (items s1 r))) ?m"
      by (intro keeps_bind keeps_with_defer keeps_cases keeps_locks keeps_reads keeps_ret)
    ultimately have "item_inv truth holds r (item_key (items s1 r)) s'"
      using i keepsD [where I = "item_inv truth holds r (item_key (items s1 r))" and m = ?m and s = s1]
      unfolding item_inv_def by blast
    then show ?thesis by (simp add: item_inv_def)
  qed
qed

section \<open>The cache never serves wrong bytes\<close>

text \<open>What callers do with the cache, each with a fetch that delivers the right bytes of its chunk or
  none: look chunks up, ask whether they exist, store and read sizes.\<close>

inductive cache_step :: "'rc deps \<Rightarrow> (string \<Rightarrow> byte list) \<Rightarrow> ('rc, 'x) cstate \<Rightarrow> ('rc, 'x) cstate \<Rightarrow> bool" for D truth where
  get: "fetch_right (truth (getKey (cpath s) name off)) fetch \<Longrightarrow>
    GetOrCreate D name off count fetch s = (x, s') \<Longrightarrow> cache_step D truth s s'"
| exists: "Exists D name off s = (x, s') \<Longrightarrow> cache_step D truth s s'"
| put_size: "PutSize D name len s = (x, s') \<Longrightarrow> cache_step D truth s s'"
| get_size: "Size name s = (x, s') \<Longrightarrow> cache_step D truth s s'"

lemma cache_step_inv:
  assumes "cache_step D truth s s'" "kv_lawful D holds" "chunk_inv truth holds s"
  shows "chunk_inv truth holds s'"
  using assms
proof (induction rule: cache_step.induct)
  case (get s name off fetch count x s')
  then show ?case using GetOrCreate_inv by blast
next
  case (exists name off s x s')
  then show ?case using Exists_inv by blast
next
  case (put_size name len s x s')
  then show ?case
    by (auto simp: PutSize_def bind_apply modify_apply ret_apply chunk_inv_def)
qed (auto simp: Size_def gets_apply)

lemma cache_steps_inv:
  assumes "(cache_step D truth)\<^sup>*\<^sup>* s0 s" "kv_lawful D holds" "chunk_inv truth holds s0"
  shows "chunk_inv truth holds s"
  using assms(1,3) by (induction rule: rtranclp_induct) (blast intro: cache_step_inv [OF _ assms(2)])+

lemma new_cache_inv:
  assumes "NewCache rnew fs e bs path = Some s" "holds (rist s) = {}" "faults fs = []"
    and "\<forall>p. names fs p = None" "next_inode fs = 0"
  shows "chunk_inv truth holds s"
  using assms
  by (auto simp: NewCache_def chunk_inv_def owned_inv_def os_MkdirAll_def split: option.splits)

text \<open>C3: started on an empty directory, with a third-party cache that returns only what was stored
  under a key and system calls that do not fail, no sequence of calls makes the cache serve wrong bytes:
  if every fetch delivers the right bytes of its chunk or an error, then whatever was evicted, refused,
  removed or failed in between, a call for the full length of a chunk returns exactly its bytes or an
  error.\<close>

theorem cache_never_serves_wrong_bytes:
  assumes "kv_lawful D holds" "NewCache rnew fs e bs path = Some s0" "holds (rist s0) = {}"
    and "faults fs = []" "\<forall>p. names fs p = None" "next_inode fs = 0"
    and "(cache_step D truth)\<^sup>*\<^sup>* s0 s" "key = getKey (cpath s) name off" "fetch_right (truth key) fetch"
    and "GetOrCreate D name off (int (length (truth key))) fetch s = (Ret (b, None), s')"
  shows "b = truth key"
proof -
  have "chunk_inv truth holds s"
    using cache_steps_inv [OF assms(7,1)] new_cache_inv [where holds = holds, OF assms(2-6)] .
  from GetOrCreate_inv [OF assms(1) this assms(9) [unfolded assms(8)] assms(10) [unfolded assms(8)]]
  show ?thesis
    unfolding assms(8) by blast
qed

theorem cache_never_serves_wrong_bytes_witness:
  "\<exists>s'. GetOrCreate keep_all ''sha256:ab'' 0 2 fetch_78 (empty_cache 0) = (Ret ([7, 8], None), s')"
proof -
  let ?truth = "\<lambda>_ :: string. [7, 8 :: byte]" and ?s = "empty_cache 0"
  obtain s' b where r: "GetOrCreate keep_all ''sha256:ab'' 0 2 fetch_78 ?s = (Ret (b, None), s')"
    using GetOrCreate_miss [where s = ?s and fetch = fetch_78 and d = "[7, 8]" and e' = 1 and count = 2
        and name = "''sha256:ab''" and off = 0, OF keep_all_empty(1) refl keep_all_empty(2-5)]
    by (auto simp: fetch_78_def empty_cache_def)
  have "kv_lawful keep_all set"
    by (auto simp: kv_lawful_def keep_all_def map_of_SomeD)
  then have "b = ?truth (getKey (cpath ?s) ''sha256:ab'' 0)"
    by (rule cache_never_serves_wrong_bytes [OF _ empty_cache_is_NewCache _ _ _ _ rtranclp.rtrancl_refl refl])
      (use r in \<open>auto simp: empty_cache_def fetch_right_def fetch_78_def\<close>)
  with r show ?thesis by simp
qed

section \<open>Writes that fail half-way\<close>

text \<open>Two writes that fail after one byte each. The first leaves the file's position at one; the second
  truncates the file but writes at that position.\<close>

definition faulty_cache :: "((string \<times> nat) list, nat) cstate" where
  "faulty_cache = (empty_cache 0)\<lparr>os := (os (empty_cache (0::nat)))\<lparr>faults :=
     [None, None, None, None, None, Some (Fault ''ENOSPC'' 1), None,
      None, None, None, Some (Fault ''ENOSPC'' 1)]\<rparr>\<rparr>"

definition faulty_call :: "((string \<times> nat) list, nat) cstate \<Rightarrow> (byte list \<times> goerr option) outcome \<times> ((string \<times> nat) list, nat) cstate" where
  "faulty_call s = GetOrCreate keep_all ''sha256:ab'' 0 2 fetch_78 s"


end
