(* ===== verification/Concurrent.thy ===== *)
theory Concurrent
  imports Coherence "HOL-Library.Multiset"
begin

text \<open>
  The cache under concurrent callers. \<open>GetOrCreate\<close>, \<open>Exists\<close> and \<open>drop\<close> are taken apart into the actions
  between which another goroutine can run: one step per lock operation, system call, callback and call
  of the third-party cache. The state is the shared state of the sequential model and the list of all
  goroutines. The third-party cache may give up values at any time; each is dropped by a goroutine of
  its own.

  A reader's lock is granted whenever no writer holds the lock. Go also makes a reader wait for writers
  that wait themselves, so the code's interleavings are among those of the model.
\<close>

section \<open>Definitions\<close>

text \<open>The arguments of a call of \<open>GetOrCreate\<close>; the key is computed from constants.\<close>

record 'x gcall =
  g_key :: string
  g_count :: int
  g_fetch :: "('x, byte list \<times> goerr option) go"

text \<open>Where a call of \<open>GetOrCreate\<close> stands, with its local variables. \<open>PCrashR\<close> and \<open>PCrashW\<close> are panics that
  leave the item's lock held.\<close>

datatype gpc =
    PGet | PLock | PGet2 | PNew | PSet nat | PUnlock "goerr + nat"
  | PRLock nat | PStat nat | PRUnlock nat "goerr option"
  | PWLock nat | PStat2 nat | PFetch nat | PRemove nat goerr | PTruncate nat "byte list" | PWrite nat "byte list"
  | PWUnlock nat "goerr option" | PRLock2 nat
  | PReadStat nat | PRead nat nat "byte list" | PFailed nat | PBytes nat "byte list"
  | PCrashR nat go_panic | PCrashW nat go_panic | PDone "byte list \<times> goerr option"

datatype epc = EGet string | ELock nat | EStat nat | EUnlock nat bool | EDone bool

datatype dpc = DLock nat | DClose nat | DRemove nat string | DUnlock nat "go_panic option" | DDone "go_panic option"

datatype 'x thread = TGet "'x gcall" gpc | TExists epc | TDrop dpc

text \<open>One action of a call: its next program point, the values that the third-party cache gives up, and the
  shared state; \<open>None\<close> where the call waits or is over.\<close>

fun get_step :: "'rc deps \<Rightarrow> 'x gcall \<Rightarrow> gpc \<Rightarrow> ('rc, 'x) cstate \<Rightarrow> (gpc \<times> nat list \<times> ('rc, 'x) cstate) option" where
  "get_step D g PGet s = (case rGet D (rist s) (g_key g) of
      (None, rc) \<Rightarrow> Some (PLock, [], s\<lparr>rist := rc\<rparr>)
    | (Some r, rc) \<Rightarrow> Some (PRLock r, [], s\<lparr>rist := rc\<rparr>))"
| "get_step D g PLock s = (if clock s then None else Some (PGet2, [], s\<lparr>clock := True\<rparr>))"
| "get_step D g PGet2 s = (case rGet D (rist s) (g_key g) of
      (None, rc) \<Rightarrow> Some (PNew, [], s\<lparr>rist := rc\<rparr>)
    | (Some r, rc) \<Rightarrow> Some (PUnlock (Inr r), [], s\<lparr>rist := rc\<rparr>))"
| "get_step D g PNew s = (case newItem (g_key g) s of
      (Ret (Inl e), s') \<Rightarrow> Some (PUnlock (Inl e), [], s')
    | (Ret (Inr r), s') \<Rightarrow> Some (PSet r, [], s')
    | (_, s') \<Rightarrow> None)"
| "get_step D g (PSet r) s = (case rSet D (rist s) (g_key g) r of
      (ok, out, rc) \<Rightarrow> Some (PUnlock (if ok then Inr r else Inl ErrUnexpectedEOF), out, s\<lparr>rist := rc\<rparr>))"
| "get_step D g (PUnlock (Inl e)) s = Some (PDone ([], Some e), [], s\<lparr>clock := False\<rparr>)"
| "get_step D g (PUnlock (Inr r)) s = Some (PRLock r, [], s\<lparr>clock := False\<rparr>)"
| "get_step D g (PRLock r) s = (if writer (item_lock (items s r)) then None else Some (PStat r, [], snd (item_RLock r s)))"
| "get_step D g (PStat r) s = (case os_Stat (os s) (item_file (items s r)) of
      (Inl e, fs) \<Rightarrow> Some (PRUnlock r (Some e), [], s\<lparr>os := fs\<rparr>)
    | (Inr sz, fs) \<Rightarrow> Some (if int sz \<noteq> g_count g then PRUnlock r None else PReadStat r, [], s\<lparr>os := fs\<rparr>))"
| "get_step D g (PRUnlock r (Some e)) s = Some (PDone ([], Some e), [], snd (item_RUnlock r s))"
| "get_step D g (PRUnlock r None) s = Some (PWLock r, [], snd (item_RUnlock r s))"
| "get_step D g (PWLock r) s = (if item_lock (items s r) \<noteq> unlocked then None else Some (PStat2 r, [], snd (item_Lock r s)))"
| "get_step D g (PStat2 r) s = (case os_Stat (os s) (item_file (items s r)) of
      (Inl e, fs) \<Rightarrow> Some (PWUnlock r (Some e), [], s\<lparr>os := fs\<rparr>)
    | (Inr sz, fs) \<Rightarrow> Some (if int sz \<noteq> g_count g then PFetch r else PWUnlock r None, [], s\<lparr>os := fs\<rparr>))"
| "get_step D g (PFetch r) s = (case g_fetch g (env s) of
      (Ret (b, None), e') \<Rightarrow> Some (PTruncate r b, [], s\<lparr>env := e'\<rparr>)
    | (Ret (b, Some err), e') \<Rightarrow> Some (PRemove r err, [], s\<lparr>env := e'\<rparr>)
    | (Panic q, e') \<Rightarrow> Some (PCrashW r q, [], s\<lparr>env := e'\<rparr>)
    | (Hang, e') \<Rightarrow> None)"
| "get_step D g (PRemove r err) s = (case item_file (items s r) of
      None \<Rightarrow> Some (PCrashW r NilDereference, [], s)
    | Some h \<Rightarrow> Some (PWUnlock r (Some err), [], snd (do_Remove (fname h) s)))"
| "get_step D g (PTruncate r b) s = (case os_Truncate (os s) (item_file (items s r)) of
      (Some e, fs) \<Rightarrow> Some (PWUnlock r (Some e), [], s\<lparr>os := fs\<rparr>)
    | (None, fs) \<Rightarrow> Some (PWrite r b, [], s\<lparr>os := fs\<rparr>))"
| "get_step D g (PWrite r b) s = (case os_Write (os s) (item_file (items s r)) b of
      ((l, Some e), f, fs) \<Rightarrow> Some (PRemove r e, [], upd_item r (\<lambda>i. i\<lparr>item_file := f\<rparr>) (s\<lparr>os := fs\<rparr>))
    | ((l, None), f, fs) \<Rightarrow> Some (PWUnlock r (if int l \<noteq> g_count g then Some (FillCount (g_count g) (int l)) else None), [],
        upd_item r (\<lambda>i. i\<lparr>item_file := f\<rparr>) (s\<lparr>os := fs\<rparr>)))"
| "get_step D g (PWUnlock r (Some e)) s = Some (PDone ([], Some e), [], snd (item_Unlock r s))"
| "get_step D g (PWUnlock r None) s = Some (PRLock2 r, [], snd (item_Unlock r s))"
| "get_step D g (PRLock2 r) s = (if writer (item_lock (items s r)) then None else Some (PReadStat r, [], snd (item_RLock r s)))"
| "get_step D g (PReadStat r) s = (case os_Stat (os s) (item_file (items s r)) of
      (Inl e, fs) \<Rightarrow> Some (PFailed r, [], s\<lparr>os := fs\<rparr>)
    | (Inr n, fs) \<Rightarrow> Some (PRead r n [], [], s\<lparr>os := fs\<rparr>))"
| "get_step D g (PRead r n acc) s = (
        if length acc < n then (case os_ReadAt (os s) (item_file (items s r)) (n - length acc) (length acc) of
            ((b, None), fs) \<Rightarrow> Some (PRead r n (acc @ b), [], s\<lparr>os := fs\<rparr>)
          | ((b, Some e), fs) \<Rightarrow>
              Some (if e = EOF \<and> length (acc @ b) = n then PBytes r (acc @ b) else PFailed r, [], s\<lparr>os := fs\<rparr>))
        else Some (PBytes r acc, [], s))"
| "get_step D g (PFailed r) s = (case item_file (items s r) of
      None \<Rightarrow> Some (PCrashR r NilDereference, [], s)
    | Some h \<Rightarrow> Some (PBytes r [], [], s))"
| "get_step D g (PBytes r b) s = Some (PDone (b, if int (length b) \<noteq> g_count g then Some (BytesCount (g_count g) (int (length b))) else None), [],
      snd (item_RUnlock r s))"
| "get_step D g (PCrashR r q) s = None"
| "get_step D g (PCrashW r q) s = None"
| "get_step D g (PDone x) s = None"

fun exists_step :: "'rc deps \<Rightarrow> epc \<Rightarrow> ('rc, 'x) cstate \<Rightarrow> (epc \<times> ('rc, 'x) cstate) option" where
  "exists_step D (EGet key) s = (case rGet D (rist s) key of
      (None, rc) \<Rightarrow> Some (EDone False, s\<lparr>rist := rc\<rparr>)
    | (Some r, rc) \<Rightarrow> Some (ELock r, s\<lparr>rist := rc\<rparr>))"
| "exists_step D (ELock r) s = (if item_lock (items s r) \<noteq> unlocked then None else Some (EStat r, snd (item_Lock r s)))"
| "exists_step D (EStat r) s = (case os_Stat (os s) (item_file (items s r)) of
      (Inl e, fs) \<Rightarrow> Some (EUnlock r False, s\<lparr>os := fs\<rparr>)
    | (Inr sz, fs) \<Rightarrow> Some (EUnlock r (sz > 0), s\<lparr>os := fs\<rparr>))"
| "exists_step D (EUnlock r b) s = Some (EDone b, snd (item_Unlock r s))"
| "exists_step D (EDone b) s = None"

text \<open>\<open>drop\<close>: the unlock is deferred, so it also runs after the panic of a file that is gone.\<close>

fun drop_step :: "dpc \<Rightarrow> ('rc, 'x) cstate \<Rightarrow> (dpc \<times> ('rc, 'x) cstate) option" where
  "drop_step (DLock r) s = (if item_lock (items s r) \<noteq> unlocked then None else Some (DClose r, snd (item_Lock r s)))"
| "drop_step (DClose r) s = (case item_file (items s r) of
      None \<Rightarrow> Some (DUnlock r (Some NilDereference), s\<lparr>fdCnt := i32 (fdCnt s - 1)\<rparr>)
    | Some h \<Rightarrow> (case os_Close (os s) (Some h) of
              (e, f, fs) \<Rightarrow> Some (DRemove r (fname h), upd_item r (\<lambda>i. i\<lparr>item_file := f\<rparr>) (s\<lparr>os := fs, fdCnt := i32 (fdCnt s - 1)\<rparr>))))"
| "drop_step (DRemove r nm) s = Some (DUnlock r None, upd_item r (\<lambda>i. i\<lparr>item_file := None\<rparr>) (snd (do_Remove nm s)))"
| "drop_step (DUnlock r q) s = Some (DDone q, snd (item_Unlock r s))"
| "drop_step (DDone q) s = None"

definition thread_step :: "'rc deps \<Rightarrow> 'x thread \<Rightarrow> ('rc, 'x) cstate \<Rightarrow> ('x thread \<times> nat list \<times> ('rc, 'x) cstate) option" where
  "thread_step D t s = (case t of
      TGet g p \<Rightarrow> map_option (\<lambda>(p', out, s'). (TGet g p', out, s')) (get_step D g p s)
    | TExists p \<Rightarrow> map_option (\<lambda>(p', s'). (TExists p', [], s')) (exists_step D p s)
    | TDrop p \<Rightarrow> map_option (\<lambda>(p', s'). (TDrop p', [], s')) (drop_step p s))"

text \<open>The goroutines and what they share. \<open>fetched\<close> is kept for the properties only: the items for which the
  fetch callback ran.\<close>

record ('rc, 'x) csys =
  shared :: "('rc, 'x) cstate"
  threads :: "'x thread list"
  fetched :: "nat list"

fun fetching :: "'x thread \<Rightarrow> nat list" where
  "fetching (TGet g (PFetch r)) = [r]"
| "fetching _ = []"

definition droppers :: "nat list \<Rightarrow> 'x thread list" where
  "droppers out = map (\<lambda>r. TDrop (DLock r)) out"

text \<open>A goroutine acts.\<close>

inductive cmove :: "'rc deps \<Rightarrow> ('rc, 'x) csys \<Rightarrow> ('rc, 'x) csys \<Rightarrow> bool" for D where
  "i < length (threads s) \<Longrightarrow> thread_step D (threads s ! i) (shared s) = Some (t, out, c) \<Longrightarrow>
    cmove D s (s\<lparr>shared := c, threads := (threads s)[i := t] @ droppers out, fetched := fetched s @ fetching (threads s ! i)\<rparr>)"

text \<open>What can happen next: a call begins, a goroutine acts, or the third-party cache, which may go from \<open>rc\<close>
  to \<open>rc'\<close> on its own where \<open>bg rc out rc'\<close>, gives up the values \<open>out\<close>.\<close>

inductive cstep :: "'rc deps \<Rightarrow> ('rc \<Rightarrow> nat list \<Rightarrow> 'rc \<Rightarrow> bool) \<Rightarrow> ('rc, 'x) csys \<Rightarrow> ('rc, 'x) csys \<Rightarrow> bool" for D bg where
  called: "cstep D bg s (s\<lparr>threads := threads s @ [TGet g PGet]\<rparr>)"
| asked: "cstep D bg s (s\<lparr>threads := threads s @ [TExists (EGet key)]\<rparr>)"
| moved: "cmove D s s' \<Longrightarrow> cstep D bg s s'"
| given_up: "bg (rist (shared s)) out rc \<Longrightarrow>
    cstep D bg s (s\<lparr>shared := (shared s)\<lparr>rist := rc\<rparr>, threads := threads s @ droppers out\<rparr>)"

inductive_cases cmoveE: "cmove D s s'"

definition new_csys :: "('rc, 'x) cstate \<Rightarrow> ('rc, 'x) csys" where
  "new_csys c = \<lparr>shared = c, threads = [], fetched = []\<rparr>"

section \<open>Locks\<close>

text \<open>Which lock a goroutine holds, and which item it works on.\<close>

fun holds_w :: "'x thread \<Rightarrow> nat option" where
  "holds_w (TGet g (PStat2 r)) = Some r"
| "holds_w (TGet g (PFetch r)) = Some r"
| "holds_w (TGet g (PRemove r e)) = Some r"
| "holds_w (TGet g (PTruncate r b)) = Some r"
| "holds_w (TGet g (PWrite r b)) = Some r"
| "holds_w (TGet g (PWUnlock r e)) = Some r"
| "holds_w (TGet g (PCrashW r q)) = Some r"
| "holds_w (TExists (EStat r)) = Some r"
| "holds_w (TExists (EUnlock r b)) = Some r"
| "holds_w (TDrop (DClose r)) = Some r"
| "holds_w (TDrop (DRemove r nm)) = Some r"
| "holds_w (TDrop (DUnlock r q)) = Some r"
| "holds_w _ = None"

fun holds_r :: "'x thread \<Rightarrow> nat option" where
  "holds_r (TGet g (PStat r)) = Some r"
| "holds_r (TGet g (PRUnlock r e)) = Some r"
| "holds_r (TGet g (PReadStat r)) = Some r"
| "holds_r (TGet g (PRead r n acc)) = Some r"
| "holds_r (TGet g (PFailed r)) = Some r"
| "holds_r (TGet g (PBytes r b)) = Some r"
| "holds_r (TGet g (PCrashR r q)) = Some r"
| "holds_r _ = None"

fun holds_c :: "'x thread \<Rightarrow> bool" where
  "holds_c (TGet g PGet2) = True"
| "holds_c (TGet g PNew) = True"
| "holds_c (TGet g (PSet r)) = True"
| "holds_c (TGet g (PUnlock x)) = True"
| "holds_c _ = False"

text \<open>The item a goroutine refers to.\<close>

fun item_of :: "'x thread \<Rightarrow> nat option" where
  "item_of (TGet g p) = (case p of
      PGet \<Rightarrow> None | PLock \<Rightarrow> None | PGet2 \<Rightarrow> None | PNew \<Rightarrow> None | PDone x \<Rightarrow> None
    | PSet r \<Rightarrow> Some r | PUnlock x \<Rightarrow> (case x of Inl e \<Rightarrow> None | Inr r \<Rightarrow> Some r)
    | PRLock r \<Rightarrow> Some r | PStat r \<Rightarrow> Some r | PRUnlock r e \<Rightarrow> Some r | PWLock r \<Rightarrow> Some r | PStat2 r \<Rightarrow> Some r | PFetch r \<Rightarrow> Some r
    | PRemove r e \<Rightarrow> Some r | PTruncate r b \<Rightarrow> Some r | PWrite r b \<Rightarrow> Some r | PWUnlock r e \<Rightarrow> Some r | PRLock2 r \<Rightarrow> Some r
    | PReadStat r \<Rightarrow> Some r | PRead r n acc \<Rightarrow> Some r | PFailed r \<Rightarrow> Some r | PBytes r b \<Rightarrow> Some r
    | PCrashR r q \<Rightarrow> Some r | PCrashW r q \<Rightarrow> Some r)"
| "item_of (TExists p) = (case p of EGet k \<Rightarrow> None | ELock r \<Rightarrow> Some r | EStat r \<Rightarrow> Some r | EUnlock r b \<Rightarrow> Some r | EDone b \<Rightarrow> None)"
| "item_of (TDrop p) = (case p of DLock r \<Rightarrow> Some r | DClose r \<Rightarrow> Some r | DRemove r nm \<Rightarrow> Some r | DUnlock r q \<Rightarrow> Some r | DDone q \<Rightarrow> None)"

lemma holds_item: "holds_w t = Some r \<Longrightarrow> item_of t = Some r" "holds_r t = Some r \<Longrightarrow> item_of t = Some r"
  by (cases t rule: holds_w.cases; simp) (cases t rule: holds_r.cases; simp)

definition lw :: "nat \<Rightarrow> 'x thread \<Rightarrow> nat" where "lw r t = of_bool (holds_w t = Some r)"
definition lr :: "nat \<Rightarrow> 'x thread \<Rightarrow> nat" where "lr r t = of_bool (holds_r t = Some r)"
definition lc :: "'x thread \<Rightarrow> nat" where "lc t = of_bool (holds_c t)"

text \<open>What one action does to the locks: the holders and the state of a lock change together, and a lock is
  taken only when it is free.\<close>

definition lock_move :: "'x thread \<Rightarrow> 'x thread \<Rightarrow> nat \<Rightarrow> rwmutex \<Rightarrow> rwmutex \<Rightarrow> bool" where
  "lock_move t t' r m m' \<longleftrightarrow> readers m' + lr r t = readers m + lr r t' \<and> of_bool (writer m') + lw r t = of_bool (writer m) + lw r t'
     \<and> (lw r t < lw r t' \<longrightarrow> m = unlocked) \<and> (lr r t < lr r t' \<longrightarrow> \<not> writer m)"

lemmas lock_defs = lw_def lr_def lc_def lock_move_def

lemma item_lock_runs [simp]:
  "item_lock (items (snd (item_RLock r s)) q) = (if q = r \<and> \<not> writer (item_lock (items s r))
     then (item_lock (items s r))\<lparr>readers := Suc (readers (item_lock (items s r)))\<rparr> else item_lock (items s q))"
  "item_lock (items (snd (item_RUnlock r s)) q) = (if q = r then (item_lock (items s r))\<lparr>readers := readers (item_lock (items s r)) - 1\<rparr> else item_lock (items s q))"
  "item_lock (items (snd (item_Lock r s)) q) = (if q = r \<and> \<not> writer (item_lock (items s r)) \<and> readers (item_lock (items s r)) = 0
     then (item_lock (items s r))\<lparr>writer := True\<rparr> else item_lock (items s q))"
  "item_lock (items (snd (item_Unlock r s)) q) = (if q = r then (item_lock (items s r))\<lparr>writer := False\<rparr> else item_lock (items s q))"
  "clock (snd (item_RLock r s)) = clock s" "clock (snd (item_RUnlock r s)) = clock s" "clock (snd (item_Lock r s)) = clock s"
  "clock (snd (item_Unlock r s)) = clock s"
  by (simp_all add: item_RLock_def item_RUnlock_def item_Lock_def item_Unlock_def modify_apply)

lemma do_Remove_frame [simp]:
  "items (snd (do_Remove p s)) = items s" "clock (snd (do_Remove p s)) = clock s" "rist (snd (do_Remove p s)) = rist s"
  "next_item (snd (do_Remove p s)) = next_item s"
  by (simp_all add: do_Remove_def split: prod.splits)

lemma newItem_cases:
  obtains (fails) e fs c where "newItem key s = (Ret (Inl e), s\<lparr>os := fs, fdCnt := c\<rparr>)"
    "next_inode fs = next_inode (os s)" "inodes fs = inodes (os s)"
  | (opens) h fs c where "newItem key s = (Ret (Inr (next_item s)), s\<lparr>os := fs, fdCnt := c, next_item := Suc (next_item s),
      items := (items s)(next_item s := \<lparr>item_key = key, item_file = Some h, item_lock = unlocked\<rparr>)\<rparr>)"
    "\<exists>fs0. os_OpenFile fs0 key = (Inr h, fs) \<and> next_inode fs0 = next_inode (os s) \<and> inodes fs0 = inodes (os s)"
proof -
  obtain x fs1 where 1: "os_MkdirAll (os s) (path_Dir key) = (x, fs1)" by fastforce
  then have f1: "next_inode fs1 = next_inode (os s)" "inodes fs1 = inodes (os s)"
    by (auto simp: os_MkdirAll_def split: prod.splits option.splits io_fault.splits dest: next_fault_frame)
  obtain y fs2 where 2: "os_OpenFile fs1 key = (y, fs2)" by fastforce
  have f2: "next_inode fs2 = next_inode fs1" "inodes fs2 = inodes fs1" if "y = Inl e" for e
    using 2 that by (auto simp: os_OpenFile_def Let_def split: prod.splits option.splits io_fault.splits dest: next_fault_frame)
  show thesis
  proof (cases x)
    case (Some e)
    with 1 f1 show ?thesis by (intro fails [where e = e and fs = fs1 and c = "fdCnt s"]) (simp_all add: newItem_def)
  next
    case None
    show ?thesis
    proof (cases y)
      case (Inl e)
      with None 1 2 f1 f2 show ?thesis
        by (intro fails [where e = e and fs = fs2 and c = "i32 (fdCnt s + 1)"]) (simp_all add: newItem_def)
    next
      case (Inr h)
      with None 1 2 f1 show ?thesis
        by (intro opens [where h = h and fs = fs2 and c = "i32 (fdCnt s + 1)"]) (auto simp: newItem_def)
    qed
  qed
qed


lemmas step_splits = prod.splits option.splits sum.splits outcome.splits if_splits

lemma thread_step_E:
  assumes "thread_step D t s = Some (t', out, s')"
  obtains (get) g p p' where "t = TGet g p" "t' = TGet g p'" "get_step D g p s = Some (p', out, s')"
  | (exists) p p' where "t = TExists p" "t' = TExists p'" "out = []" "exists_step D p s = Some (p', s')"
  | (dropping) p p' where "t = TDrop p" "t' = TDrop p'" "out = []" "drop_step p s = Some (p', s')"
  using assms by (auto simp: thread_step_def split: thread.splits)

lemma lock_move_same:
  "holds_w t' = holds_w t \<Longrightarrow> holds_r t' = holds_r t \<Longrightarrow> lock_move t t' r m m"
  by (simp add: lock_defs)

lemma lock_move_runs:
  "holds_w t = None \<Longrightarrow> holds_w t' = None \<Longrightarrow> holds_r t = None \<Longrightarrow> holds_r t' = Some q \<Longrightarrow> \<not> writer (item_lock (items s q)) \<Longrightarrow>
    lock_move t t' r (item_lock (items s r)) (item_lock (items (snd (item_RLock q s)) r))"
  "holds_w t = None \<Longrightarrow> holds_w t' = None \<Longrightarrow> holds_r t = Some q \<Longrightarrow> holds_r t' = None \<Longrightarrow> 0 < readers (item_lock (items s q)) \<Longrightarrow>
    lock_move t t' r (item_lock (items s r)) (item_lock (items (snd (item_RUnlock q s)) r))"
  "holds_r t = None \<Longrightarrow> holds_r t' = None \<Longrightarrow> holds_w t = None \<Longrightarrow> holds_w t' = Some q \<Longrightarrow> item_lock (items s q) = unlocked \<Longrightarrow>
    lock_move t t' r (item_lock (items s r)) (item_lock (items (snd (item_Lock q s)) r))"
  "holds_r t = None \<Longrightarrow> holds_r t' = None \<Longrightarrow> holds_w t = Some q \<Longrightarrow> holds_w t' = None \<Longrightarrow> writer (item_lock (items s q)) \<Longrightarrow>
    lock_move t t' r (item_lock (items s r)) (item_lock (items (snd (item_Unlock q s)) r))"
  by (auto simp: lock_defs unlocked_def)

lemma get_step_locks:
  assumes "get_step D g p s = Some (p', out, s')"
    and "\<And>r. holds_w (TGet g p) = Some r \<Longrightarrow> writer (item_lock (items s r))"
    and "\<And>r. holds_r (TGet g p) = Some r \<Longrightarrow> 0 < readers (item_lock (items s r))"
    and "item_lock (items s (next_item s)) = unlocked"
  shows "lock_move (TGet g p) (TGet g p') r (item_lock (items s r)) (item_lock (items s' r))"
proof (cases "p = PNew")
  case True
  show ?thesis
    by (cases rule: newItem_cases [of "g_key g" s]) (use assms True in \<open>auto simp: lock_move_same split: if_splits\<close>)
next
  case False
  with assms(1-3) show ?thesis
    by (cases "(D, g, p, s)" rule: get_step.cases)
      (auto simp: lock_move_same lock_move_runs simp del: item_lock_runs split: step_splits)
qed

lemma thread_step_locks:
  assumes "thread_step D t s = Some (t', out, s')"
    and "\<And>r. holds_w t = Some r \<Longrightarrow> writer (item_lock (items s r))"
    and "\<And>r. holds_r t = Some r \<Longrightarrow> 0 < readers (item_lock (items s r))"
    and "item_lock (items s (next_item s)) = unlocked"
  shows "lock_move t t' r (item_lock (items s r)) (item_lock (items s' r))"
  using assms(1)
proof (cases rule: thread_step_E)
  case (get g p p')
  with assms(2-) show ?thesis by (simp add: get_step_locks)
next
  case (exists p p')
  with assms(2,3) show ?thesis
    by (cases "(D, p, s)" rule: exists_step.cases)
      (auto simp: lock_move_same lock_move_runs simp del: item_lock_runs split: step_splits)
next
  case (dropping p p')
  with assms(2,3) show ?thesis
    by (cases "(p, s)" rule: drop_step.cases)
      (auto simp: lock_move_same lock_move_runs simp del: item_lock_runs split: step_splits)
qed

text \<open>The same for the lock of the whole cache.\<close>

lemma thread_step_clock:
  assumes "thread_step D t s = Some (t', out, s')" "holds_c t \<Longrightarrow> clock s"
  shows "of_bool (clock s') + lc t = of_bool (clock s) + lc t' \<and> (lc t < lc t' \<longrightarrow> \<not> clock s)"
  using assms(1)
proof (cases rule: thread_step_E)
  case (get g p p')
  show ?thesis
  proof (cases "p = PNew")
    case True
    show ?thesis
      by (cases rule: newItem_cases [of "g_key g" s]) (use get assms(2) True in \<open>auto simp: lock_defs split: if_splits\<close>)
  next
    case False
    with get assms(2) show ?thesis
      by (cases "(D, g, p, s)" rule: get_step.cases) (auto simp: lock_defs split: step_splits)
  qed
next
  case (exists p p')
  then show ?thesis
    by (cases "(D, p, s)" rule: exists_step.cases) (auto simp: lock_defs split: step_splits)
next
  case (dropping p p')
  then show ?thesis
    by (cases "(p, s)" rule: drop_step.cases) (auto simp: lock_defs split: step_splits)
qed

section \<open>References\<close>

text \<open>What the third-party cache documents of evictions: it gives up values that it holds, or refuses the one
  it is offered.\<close>

definition evicts_lawful :: "'rc deps \<Rightarrow> ('rc \<Rightarrow> nat list \<Rightarrow> 'rc \<Rightarrow> bool) \<Rightarrow> ('rc \<Rightarrow> (string \<times> nat) set) \<Rightarrow> bool" where
  "evicts_lawful D bg holds \<longleftrightarrow>
     (\<forall>rc k r ok out rc'. rSet D rc k r = (ok, out, rc') \<longrightarrow> set out \<subseteq> insert r (snd ` holds rc))
     \<and> (\<forall>rc out rc'. bg rc out rc' \<longrightarrow> holds rc' \<subseteq> holds rc \<and> set out \<subseteq> snd ` holds rc)"

definition ref_ok :: "('rc, 'x) cstate \<Rightarrow> 'x thread \<Rightarrow> bool" where
  "ref_ok s t \<longleftrightarrow> (\<forall>r. item_of t = Some r \<longrightarrow> r < next_item s \<and> (\<forall>g p. t = TGet g p \<longrightarrow> item_key (items s r) = g_key g))"

definition held_ok :: "('rc \<Rightarrow> (string \<times> nat) set) \<Rightarrow> ('rc, 'x) cstate \<Rightarrow> bool" where
  "held_ok holds s \<longleftrightarrow> (\<forall>k r. (k, r) \<in> holds (rist s) \<longrightarrow> r < next_item s \<and> item_key (items s r) = k)"

lemma item_lock_frame [simp]:
  "item_key (items (snd (item_RLock r s)) q) = item_key (items s q)" "item_key (items (snd (item_RUnlock r s)) q) = item_key (items s q)"
  "item_key (items (snd (item_Lock r s)) q) = item_key (items s q)" "item_key (items (snd (item_Unlock r s)) q) = item_key (items s q)"
  "item_file (items (snd (item_RLock r s)) q) = item_file (items s q)" "item_file (items (snd (item_RUnlock r s)) q) = item_file (items s q)"
  "item_file (items (snd (item_Lock r s)) q) = item_file (items s q)" "item_file (items (snd (item_Unlock r s)) q) = item_file (items s q)"
  "next_item (snd (item_RLock r s)) = next_item s" "next_item (snd (item_RUnlock r s)) = next_item s"
  "next_item (snd (item_Lock r s)) = next_item s" "next_item (snd (item_Unlock r s)) = next_item s"
  "os (snd (item_RLock r s)) = os s" "os (snd (item_RUnlock r s)) = os s" "os (snd (item_Lock r s)) = os s" "os (snd (item_Unlock r s)) = os s"
  "rist (snd (item_RLock r s)) = rist s" "rist (snd (item_RUnlock r s)) = rist s" "rist (snd (item_Lock r s)) = rist s" "rist (snd (item_Unlock r s)) = rist s"
  by (simp_all add: item_RLock_def item_RUnlock_def item_Lock_def item_Unlock_def modify_apply)

text \<open>Items are only ever added, and an item keeps its key.\<close>

lemma thread_step_items:
  assumes "thread_step D t s = Some (t', out, s')"
  shows "next_item s \<le> next_item s' \<and> (r < next_item s \<or> next_item s' \<le> r \<longrightarrow> item_key (items s' r) = item_key (items s r)
    \<and> (holds_w t \<noteq> Some r \<longrightarrow> item_file (items s' r) = item_file (items s r)))"
  using assms
proof (cases rule: thread_step_E)
  case (get g p p')
  show ?thesis
  proof (cases "p = PNew")
    case True
    show ?thesis
      by (cases rule: newItem_cases [of "g_key g" s]) (use get True in \<open>auto split: if_splits\<close>)
  next
    case False
    with get show ?thesis
      by (cases "(D, g, p, s)" rule: get_step.cases) (auto split: step_splits)
  qed
next
  case (exists p p')
  then show ?thesis
    by (cases "(D, p, s)" rule: exists_step.cases) (auto split: step_splits)
next
  case (dropping p p')
  then show ?thesis
    by (cases "(p, s)" rule: drop_step.cases) (auto split: step_splits)
qed

lemma upd_item_key [simp]:
  "item_key (items (upd_item q (\<lambda>i. i\<lparr>item_file := f\<rparr>) s) r) = item_key (items s r)"
  by (simp add: upd_item_def)

lemma held_ok_frame [simp]:
  "held_ok holds (s\<lparr>os := fs\<rparr>) = held_ok holds s" "held_ok holds (s\<lparr>clock := b\<rparr>) = held_ok holds s"
  "held_ok holds (s\<lparr>env := e\<rparr>) = held_ok holds s" "held_ok holds (s\<lparr>fdCnt := c\<rparr>) = held_ok holds s"
  "held_ok holds (snd (item_RLock r s)) = held_ok holds s" "held_ok holds (snd (item_RUnlock r s)) = held_ok holds s"
  "held_ok holds (snd (item_Lock r s)) = held_ok holds s" "held_ok holds (snd (item_Unlock r s)) = held_ok holds s"
  "held_ok holds (snd (do_Remove p s)) = held_ok holds s"
  "held_ok holds (upd_item r (\<lambda>i. i\<lparr>item_file := f\<rparr>) s) = held_ok holds s"
  by (auto simp: held_ok_def)

lemma held_ok_Get:
  assumes "kv_lawful D holds" "held_ok holds s" "rGet D (rist s) k = (v, rc)"
  shows "held_ok holds (s\<lparr>rist := rc\<rparr>)" "v = Some r \<Longrightarrow> r < next_item s" "v = Some r \<Longrightarrow> item_key (items s r) = k"
  using assms by (fastforce simp: kv_lawful_def held_ok_def)+

lemma held_ok_Set:
  assumes "kv_lawful D holds" "evicts_lawful D bg holds" "held_ok holds s" "rSet D (rist s) k r = (ok, out, rc)"
    and "r < next_item s" "item_key (items s r) = k"
  shows "held_ok holds (s\<lparr>rist := rc\<rparr>)" "q \<in> set out \<Longrightarrow> q < next_item s"
proof -
  have "holds rc \<subseteq> insert (k, r) (holds (rist s))"
    using assms(1,4) unfolding kv_lawful_def by (elim conjE allE) (erule (1) mp)
  moreover have "set out \<subseteq> insert r (snd ` holds (rist s))"
    using assms(2,4) unfolding evicts_lawful_def by (elim conjE allE) (erule (1) mp)
  ultimately show "held_ok holds (s\<lparr>rist := rc\<rparr>)" "q \<in> set out \<Longrightarrow> q < next_item s"
    using assms(3,5,6) by (auto simp: held_ok_def)
qed

text \<open>Where the items come from that a goroutine works on, stores or sees given up.\<close>

lemma thread_step_refs:
  assumes "thread_step D t s = Some (t', out, s')" "kv_lawful D holds" "evicts_lawful D bg holds"
    and "held_ok holds s" "ref_ok s t"
  shows "held_ok holds s' \<and> ref_ok s' t' \<and> (\<forall>r \<in> set out. r < next_item s')"
proof -
  note getD = held_ok_Get [OF assms(2,4)] and setD = held_ok_Set [OF assms(2-4)]
  show ?thesis
    using assms(1)
  proof (cases rule: thread_step_E)
    case (get g p p')
    show ?thesis
    proof (cases "p = PNew")
      case True
      show ?thesis
        by (cases rule: newItem_cases [of "g_key g" s])
          (use get True assms(4) in \<open>auto simp: held_ok_def ref_ok_def less_Suc_eq, blast\<close>)
    next
      case False
      with get assms(4,5) show ?thesis
        by (cases "(D, g, p, s)" rule: get_step.cases)
          (auto simp: ref_ok_def getD setD split: step_splits)
    qed
  next
    case (exists p p')
    with assms(4,5) show ?thesis
      by (cases "(D, p, s)" rule: exists_step.cases) (auto simp: ref_ok_def getD split: step_splits)
  next
    case (dropping p p')
    with assms(4,5) show ?thesis
      by (cases "(p, s)" rule: drop_step.cases) (auto simp: ref_ok_def split: step_splits)
  qed
qed

section \<open>The lock invariant\<close>

text \<open>Every lock is held by exactly the goroutines that are between its acquisition and its release.\<close>

definition locks_inv :: "('rc, 'x) csys \<Rightarrow> bool" where
  "locks_inv s \<longleftrightarrow> (\<forall>r. readers (item_lock (items (shared s) r)) = sum_list (map (lr r) (threads s))
       \<and> of_bool (writer (item_lock (items (shared s) r))) = sum_list (map (lw r) (threads s))
       \<and> (writer (item_lock (items (shared s) r)) \<longrightarrow> readers (item_lock (items (shared s) r)) = 0))
     \<and> of_bool (clock (shared s)) = sum_list (map lc (threads s))"

definition refs_inv :: "('rc \<Rightarrow> (string \<times> nat) set) \<Rightarrow> ('rc, 'x) csys \<Rightarrow> bool" where
  "refs_inv holds s \<longleftrightarrow> held_ok holds (shared s) \<and> (\<forall>t \<in> set (threads s). ref_ok (shared s) t)"

lemma droppers_locks [simp]:
  "sum_list (map (lr r) (droppers out)) = 0" "sum_list (map (lw r) (droppers out)) = 0" "sum_list (map lc (droppers out)) = 0"
  by (simp_all add: droppers_def lock_defs comp_def)

lemma locks_inv_item:
  assumes "locks_inv s"
  shows "readers (item_lock (items (shared s) r)) = sum_list (map (lr r) (threads s))"
    "of_bool (writer (item_lock (items (shared s) r))) = sum_list (map (lw r) (threads s))"
    "writer (item_lock (items (shared s) r)) \<longleftrightarrow> 0 < sum_list (map (lw r) (threads s))"
    "writer (item_lock (items (shared s) r)) \<Longrightarrow> readers (item_lock (items (shared s) r)) = 0"
    "clock (shared s) \<longleftrightarrow> 0 < sum_list (map lc (threads s))"
proof -
  have pos: "of_bool b = n \<Longrightarrow> b \<longleftrightarrow> 0 < n" for b and n :: nat by (cases b) auto
  show "readers (item_lock (items (shared s) r)) = sum_list (map (lr r) (threads s))"
    "of_bool (writer (item_lock (items (shared s) r))) = sum_list (map (lw r) (threads s))"
    "writer (item_lock (items (shared s) r)) \<Longrightarrow> readers (item_lock (items (shared s) r)) = 0"
    using assms unfolding locks_inv_def by blast+
  then show "writer (item_lock (items (shared s) r)) \<longleftrightarrow> 0 < sum_list (map (lw r) (threads s))" using pos by blast
  show "clock (shared s) \<longleftrightarrow> 0 < sum_list (map lc (threads s))"
    using assms pos unfolding locks_inv_def by blast
qed

text \<open>A new item's lock is free: no goroutine knows the item.\<close>

lemma fresh_unlocked:
  assumes "locks_inv s" "refs_inv holds s"
  shows "item_lock (items (shared s) (next_item (shared s))) = unlocked"
proof -
  let ?r = "next_item (shared s)"
  have "item_of t \<noteq> Some ?r" if "t \<in> set (threads s)" for t
    using assms(2) that by (auto simp: refs_inv_def ref_ok_def)
  then have "lr ?r t = 0" "lw ?r t = 0" if "t \<in> set (threads s)" for t
    using that holds_item by (fastforce simp: lock_defs)+
  then have "sum_list (map (lr ?r) (threads s)) = 0" "sum_list (map (lw ?r) (threads s)) = 0"
    by simp_all
  with locks_inv_item (1,3) [OF assms(1), of ?r] have "readers (item_lock (items (shared s) ?r)) = 0" "\<not> writer (item_lock (items (shared s) ?r))"
    by simp_all
  then show ?thesis by (simp add: unlocked_def)
qed

lemma holds_locked:
  assumes "locks_inv s" "i < length (threads s)"
  shows "holds_w (threads s ! i) = Some r \<Longrightarrow> writer (item_lock (items (shared s) r))"
    "holds_r (threads s ! i) = Some r \<Longrightarrow> 0 < readers (item_lock (items (shared s) r))"
    "holds_c (threads s ! i) \<Longrightarrow> clock (shared s)"
  using sum_list_member_le [OF assms(2), of "lw r"] sum_list_member_le [OF assms(2), of "lr r"]
    sum_list_member_le [OF assms(2), of lc]
  by (simp_all add: locks_inv_item (1,3,5) [OF assms(1)] lock_defs)

lemma holds_one: "lr r t = 0 \<or> lw r t = 0"
  by (cases t rule: holds_w.cases) (simp_all add: lock_defs)

lemma lock_bounds: "lr r t \<le> 1" "lw r t \<le> 1" "lc t \<le> 1"
  by (simp_all add: lock_defs)

lemma lock_move_counts:
  assumes "lock_move t t' r m m'" "readers m = nr" "of_bool (writer m) = nw" "writer m \<Longrightarrow> readers m = 0"
    and "nr' + lr r t = nr + lr r t'" "nw' + lw r t = nw + lw r t'" "lr r t \<le> nr" "lw r t \<le> nw"
  shows "readers m' = nr' \<and> of_bool (writer m') = nw' \<and> (writer m' \<longrightarrow> readers m' = 0)"
proof -
  have eq: "readers m' = nr'" "of_bool (writer m') = nw'"
    using assms by (simp_all add: lock_move_def)
  have "readers m' = 0" if "writer m'"
  proof (cases "writer m")
    case True
    then have "nr = 0" "nw = 1" "nw' = 1" using assms(2-4) eq(2) that by auto
    moreover have "\<not> lr r t < lr r t'" using assms(1) True by (simp add: lock_move_def)
    ultimately show ?thesis using eq(1) assms(5) by simp
  next
    case False
    then have "nw = 0" "nw' = 1" using assms(3) eq(2) that by auto
    then have "lw r t < lw r t'" using assms(6) by simp
    with assms(1) have "m = unlocked" by (simp add: lock_move_def)
    then have "nr = 0" using assms(2) by (simp add: unlocked_def)
    moreover have "lr r t' = 0" using holds_one [of r t'] \<open>lw r t < lw r t'\<close> by simp
    ultimately show ?thesis using eq(1) assms(5,7) by simp
  qed
  with eq show ?thesis by blast
qed

lemma moved_locks:
  assumes "locks_inv s" "refs_inv holds s" "i < length (threads s)" "thread_step D (threads s ! i) (shared s) = Some (t, out, c)"
  shows "locks_inv (s\<lparr>shared := c, threads := (threads s)[i := t] @ droppers out, fetched := x\<rparr>)"
proof -
  note sw = sum_list_swap [OF assms(3), of _ t] and held = holds_locked [OF assms(1,3)]
  have item: "readers (item_lock (items c r)) = sum_list (map (lr r) ((threads s)[i := t]))
      \<and> of_bool (writer (item_lock (items c r))) = sum_list (map (lw r) ((threads s)[i := t]))
      \<and> (writer (item_lock (items c r)) \<longrightarrow> readers (item_lock (items c r)) = 0)" for r
    by (rule lock_move_counts [OF thread_step_locks [OF assms(4) held(1,2) fresh_unlocked [OF assms(1,2)]]
        locks_inv_item (1,2,4) [OF assms(1)] sw sw]) (simp_all add: sum_list_member_le [OF assms(3)])
  have "of_bool (clock c) = sum_list (map lc ((threads s)[i := t]))"
    using thread_step_clock [OF assms(4) held(3)] sw [of lc] assms(1) by (simp add: locks_inv_def)
  with item show ?thesis
    by (simp add: locks_inv_def del: sum_list_eq_0_iff) metis
qed

lemma ref_ok_step:
  assumes "thread_step D t0 s = Some (t', out, s')" "ref_ok s t"
  shows "ref_ok s' t"
  using assms(2) thread_step_items [OF assms(1)] unfolding ref_ok_def by fastforce

lemma moved_refs:
  assumes "refs_inv holds s" "i < length (threads s)" "thread_step D (threads s ! i) (shared s) = Some (t, out, c)"
    and "kv_lawful D holds" "evicts_lawful D bg holds"
  shows "refs_inv holds (s\<lparr>shared := c, threads := (threads s)[i := t] @ droppers out, fetched := x\<rparr>)"
proof -
  have ok: "held_ok holds (shared s)" "\<And>u. u \<in> set (threads s) \<Longrightarrow> ref_ok (shared s) u"
    using assms(1) by (simp_all add: refs_inv_def)
  have new: "held_ok holds c" "ref_ok c t" "\<And>r. r \<in> set out \<Longrightarrow> r < next_item c"
    using thread_step_refs [OF assms(3-5) ok(1) ok(2)] assms(2) by simp_all
  have "ref_ok c u" if "u \<in> set ((threads s)[i := t] @ droppers out)" for u
  proof -
    from that consider "u = t" | "u \<in> set (threads s)" | r where "r \<in> set out" "u = TDrop (DLock r)"
      using set_update_subset_insert by (fastforce simp: droppers_def)
    then show ?thesis
    proof cases
      case 3
      then show ?thesis using new(3) by (simp add: ref_ok_def)
    qed (use new(2) ref_ok_step [OF assms(3) ok(2)] in blast)+
  qed
  with new(1) show ?thesis by (simp add: refs_inv_def)
qed

definition sys_inv :: "('rc \<Rightarrow> (string \<times> nat) set) \<Rightarrow> ('rc, 'x) csys \<Rightarrow> bool" where
  "sys_inv holds s \<longleftrightarrow> locks_inv s \<and> refs_inv holds s"

lemma sys_inv_append:
  assumes "sys_inv holds s" "\<And>t r. t \<in> set ts \<Longrightarrow> lr r t = 0 \<and> lw r t = 0 \<and> lc t = 0" "\<And>t. t \<in> set ts \<Longrightarrow> ref_ok (shared s) t"
    and "\<And>r. items c r = items (shared s) r" "next_item c = next_item (shared s)" "clock c = clock (shared s)" "held_ok holds c"
  shows "sys_inv holds (s\<lparr>shared := c, threads := threads s @ ts\<rparr>)"
proof -
  have z: "sum_list (map (lr r) ts) = 0" "sum_list (map (lw r) ts) = 0" "sum_list (map lc ts) = 0" for r
    using assms(2) by simp_all
  have "locks_inv (s\<lparr>shared := c, threads := threads s @ ts\<rparr>)"
    using assms(1) z by (simp add: sys_inv_def locks_inv_def assms(4,6) del: sum_list_eq_0_iff) metis
  moreover have "refs_inv holds (s\<lparr>shared := c, threads := threads s @ ts\<rparr>)"
    using assms(1,3,7) by (auto simp: sys_inv_def refs_inv_def ref_ok_def assms(4,5))
  ultimately show ?thesis by (simp add: sys_inv_def)
qed

lemma cstep_inv:
  assumes "cstep D bg s s'" "sys_inv holds s" "kv_lawful D holds" "evicts_lawful D bg holds"
  shows "sys_inv holds s'"
  using assms(1)
proof (cases rule: cstep.cases)
  case (called g)
  from assms(2) have "sys_inv holds (s\<lparr>shared := shared s, threads := threads s @ [TGet g PGet]\<rparr>)"
    by (intro sys_inv_append) (auto simp: lock_defs ref_ok_def sys_inv_def refs_inv_def)
  with called show ?thesis by simp
next
  case (asked key)
  from assms(2) have "sys_inv holds (s\<lparr>shared := shared s, threads := threads s @ [TExists (EGet key)]\<rparr>)"
    by (intro sys_inv_append) (auto simp: lock_defs ref_ok_def sys_inv_def refs_inv_def)
  with asked show ?thesis by simp
next
  case moved
  have inv: "locks_inv s" "refs_inv holds s"
    using assms(2) by (simp_all add: sys_inv_def)
  from moved show ?thesis
  proof (cases rule: cmove.cases)
    case (1 i t out c)
    with inv show ?thesis
      unfolding 1(1) sys_inv_def using moved_locks [OF _ _ 1(2,3)] moved_refs [OF _ 1(2,3) assms(3,4)] by blast
  qed
next
  case (given_up out rc)
  have "holds rc \<subseteq> holds (rist (shared s))" "set out \<subseteq> snd ` holds (rist (shared s))"
    using assms(4) given_up(2) unfolding evicts_lawful_def by blast+
  with assms(2) show ?thesis
    unfolding given_up(1)
    by (intro sys_inv_append) (auto simp: droppers_def lock_defs ref_ok_def sys_inv_def refs_inv_def held_ok_def)
qed

text \<open>While one goroutine holds the write lock of an item, no other holds that lock.\<close>

lemma sys_inv_excl:
  assumes "sys_inv holds s" "i < length (threads s)" "j < length (threads s)" "i \<noteq> j" "holds_w (threads s ! i) = Some r"
  shows "holds_w (threads s ! j) \<noteq> Some r" "holds_r (threads s ! j) \<noteq> Some r"
proof -
  have inv: "locks_inv s" using assms(1) by (simp add: sys_inv_def)
  have one: "of_bool b = n \<Longrightarrow> n \<le> 1" for b and n :: nat by auto
  have "sum_list (map (lw r) (threads s)) \<le> 1"
    using locks_inv_item(2) [OF inv] by (rule one)
  then show "holds_w (threads s ! j) \<noteq> Some r"
    using sum_list_two [OF assms(2-4), of "lw r"] assms(5) by (auto simp: lock_defs)
  show "holds_r (threads s ! j) \<noteq> Some r"
    using holds_locked(1) [OF inv assms(2,5)] holds_locked(2) [OF inv assms(3), of r] locks_inv_item(4) [OF inv, of r] by auto
qed

text \<open>A cache as it starts: no lock is held and the third-party cache is empty.\<close>

lemma new_csys_inv:
  assumes "NewCache rnew fs e bs path = Some c" "holds (rist c) = {}"
  shows "sys_inv holds (new_csys c)"
  using assms
  by (auto simp: NewCache_def new_csys_def sys_inv_def locks_inv_def refs_inv_def held_ok_def unlocked_def split: prod.splits option.splits)

lemma reach_sys_inv:
  assumes "kv_lawful D holds" "evicts_lawful D bg holds"
    and "NewCache rnew fs e bs path = Some c" "holds (rist c) = {}" "reach (cstep D bg) (new_csys c) s"
  shows "sys_inv holds s"
proof -
  have "invariant_system (cstep D bg) (sys_inv holds)"
    by unfold_locales (rule cstep_inv [OF _ _ assms(1,2)])
  then show ?thesis
    using assms(5) new_csys_inv [where holds = holds, OF assms(3,4)] by (rule invariant_system.reach_inv)
qed

section \<open>No deadlock\<close>

fun finished :: "'x thread \<Rightarrow> bool" where
  "finished (TGet g (PDone x)) = True"
| "finished (TExists (EDone b)) = True"
| "finished (TDrop (DDone q)) = True"
| "finished _ = False"

fun crashed :: "'x thread \<Rightarrow> bool" where
  "crashed (TGet g (PCrashR r q)) = True"
| "crashed (TGet g (PCrashW r q)) = True"
| "crashed _ = False"

fun waits_c :: "'x thread \<Rightarrow> bool" where
  "waits_c (TGet g PLock) = True"
| "waits_c _ = False"

fun waits_i :: "'x thread \<Rightarrow> nat option" where
  "waits_i (TGet g (PRLock r)) = Some r"
| "waits_i (TGet g (PWLock r)) = Some r"
| "waits_i (TGet g (PRLock2 r)) = Some r"
| "waits_i (TExists (ELock r)) = Some r"
| "waits_i (TDrop (DLock r)) = Some r"
| "waits_i _ = None"

text \<open>A goroutine that cannot act is over, crashed or waits for a lock; one that holds a lock waits for none.\<close>

lemma newItem_returns: "\<exists>x s'. newItem key s = (Ret x, s')"
  by (rule newItem_cases [of key s]) blast+

lemma thread_stuck:
  assumes "thread_step D t s = None" "\<not> finished t" "\<not> crashed t" "\<And>g p. t = TGet g p \<Longrightarrow> no_hang (g_fetch g)"
  shows "waits_c t \<and> clock s \<or> (\<exists>r. waits_i t = Some r \<and> item_lock (items s r) \<noteq> unlocked)"
proof (cases t)
  case (TGet g p)
  have "\<exists>x s'. newItem (g_key g) s = (Ret x, s')" by (rule newItem_returns)
  moreover have "fst (g_fetch g (env s)) \<noteq> Hang" using assms(4) TGet by (simp add: no_hang_def)
  ultimately show ?thesis
    using assms(1-3) TGet
    by (cases "(D, g, p, s)" rule: get_step.cases) (auto simp: thread_step_def unlocked_def split: step_splits)
next
  case (TExists p)
  with assms(1-3) show ?thesis
    by (cases "(D, p, s)" rule: exists_step.cases) (auto simp: thread_step_def split: step_splits)
next
  case (TDrop p)
  with assms(1-3) show ?thesis
    by (cases "(p, s)" rule: drop_step.cases) (auto simp: thread_step_def split: step_splits)
qed

lemma holds_waits:
  "holds_w t = Some r \<or> holds_r t = Some r \<or> holds_c t \<Longrightarrow> \<not> waits_c t \<and> waits_i t = None \<and> \<not> finished t"
  by (cases t rule: waits_i.cases) auto

text \<open>The goroutine that holds a lock another one waits for can act.\<close>

lemma some_thread_moves:
  assumes "sys_inv holds s" "\<And>t. t \<in> set (threads s) \<Longrightarrow> \<not> crashed t"
    and "\<And>g p. TGet g p \<in> set (threads s) \<Longrightarrow> no_hang (g_fetch g)" "t \<in> set (threads s)" "\<not> finished t"
  shows "\<exists>s'. cmove D s s'"
proof -
  have move: "\<exists>s'. cmove D s s'" if i: "i < length (threads s)" and st: "thread_step D (threads s ! i) (shared s) \<noteq> None" for i
  proof -
    from st obtain t out c where "thread_step D (threads s ! i) (shared s) = Some (t, out, c)"
      by auto
    with i show ?thesis using cmove.intros by blast
  qed
  have holder: "\<exists>s'. cmove D s s'" if "i < length (threads s)" "holds_w (threads s ! i) = Some r \<or> holds_r (threads s ! i) = Some r \<or> holds_c (threads s ! i)" for i r
  proof -
    have "threads s ! i \<in> set (threads s)" using that(1) by simp
    then have "thread_step D (threads s ! i) (shared s) \<noteq> None"
      using thread_stuck [of D "threads s ! i" "shared s"] holds_waits [OF that(2)] assms(2,3) by fastforce
    with that(1) show ?thesis by (rule move)
  qed
  obtain i where i: "i < length (threads s)" "t = threads s ! i"
    using assms(4) by (auto simp: in_set_conv_nth)
  have li: "locks_inv s" using assms(1) by (simp add: sys_inv_def)
  show ?thesis
  proof (cases "thread_step D t (shared s)")
    case None
    with thread_stuck [OF None assms(5) assms(2) [OF assms(4)]] assms(3,4)
    consider "clock (shared s)" | r where "item_lock (items (shared s) r) \<noteq> unlocked" by blast
    then show ?thesis
    proof cases
      case 1
      then obtain j where "j < length (threads s)" "0 < lc (threads s ! j)"
        using locks_inv_item(5) [OF li] by (auto elim: sum_list_posE)
      with holder show ?thesis by (auto simp: lock_defs)
    next
      case (2 r)
      then have "0 < sum_list (map (lw r) (threads s)) \<or> 0 < sum_list (map (lr r) (threads s))"
        using locks_inv_item(1,3) [OF li, of r] by (cases "item_lock (items (shared s) r)") (simp add: unlocked_def del: sum_list_eq_0_iff, linarith)
      then obtain j where "j < length (threads s)" "0 < lw r (threads s ! j) \<or> 0 < lr r (threads s ! j)"
        by (auto elim: sum_list_posE)
      with holder show ?thesis by (auto simp: lock_defs)
    qed
  next
    case (Some a)
    with move [OF i(1)] i(2) show ?thesis by (cases a) simp
  qed
qed

section \<open>No run goes on forever\<close>

text \<open>How far a goroutine is from its end; while a file is read, how many bytes are missing.\<close>

fun work :: "'x thread \<Rightarrow> nat \<times> nat" where
  "work (TGet g p) = (case p of
      PGet \<Rightarrow> (24, 0) | PLock \<Rightarrow> (23, 0) | PGet2 \<Rightarrow> (22, 0) | PNew \<Rightarrow> (21, 0) | PSet r \<Rightarrow> (20, 0) | PUnlock x \<Rightarrow> (19, 0)
    | PRLock r \<Rightarrow> (18, 0) | PStat r \<Rightarrow> (17, 0) | PRUnlock r e \<Rightarrow> (16, 0) | PWLock r \<Rightarrow> (15, 0) | PStat2 r \<Rightarrow> (14, 0)
    | PFetch r \<Rightarrow> (13, 0) | PTruncate r b \<Rightarrow> (12, 0) | PWrite r b \<Rightarrow> (11, 0) | PRemove r e \<Rightarrow> (10, 0) | PWUnlock r e \<Rightarrow> (9, 0)
    | PRLock2 r \<Rightarrow> (8, 0) | PReadStat r \<Rightarrow> (7, 0) | PRead r n acc \<Rightarrow> (6, n - length acc) | PFailed r \<Rightarrow> (5, 0) | PBytes r b \<Rightarrow> (4, 0)
    | PCrashR r q \<Rightarrow> (0, 0) | PCrashW r q \<Rightarrow> (0, 0) | PDone x \<Rightarrow> (0, 0))"
| "work (TExists p) = (case p of EGet k \<Rightarrow> (4, 0) | ELock r \<Rightarrow> (3, 0) | EStat r \<Rightarrow> (2, 0) | EUnlock r b \<Rightarrow> (1, 0) | EDone b \<Rightarrow> (0, 0))"
| "work (TDrop p) = (case p of DLock r \<Rightarrow> (4, 0) | DClose r \<Rightarrow> (3, 0) | DRemove r nm \<Rightarrow> (2, 0) | DUnlock r q \<Rightarrow> (1, 0) | DDone q \<Rightarrow> (0, 0))"

abbreviation less_work :: "((nat \<times> nat) \<times> (nat \<times> nat)) set" where
  "less_work \<equiv> less_than <*lex*> less_than"

lemma thread_step_work:
  assumes "thread_step D t s = Some (t', out, s')"
  shows "(work t', work t) \<in> less_work \<and> (out \<noteq> [] \<longrightarrow> ((4, 0), work t) \<in> less_work)"
  using assms
proof (cases rule: thread_step_E)
  case (get g p p')
  then show ?thesis
    by (cases "(D, g, p, s)" rule: get_step.cases) (auto split: step_splits dest: os_ReadAt_full)
next
  case (exists p p')
  then show ?thesis
    by (cases "(D, p, s)" rule: exists_step.cases) (auto split: step_splits)
next
  case (dropping p p')
  then show ?thesis
    by (cases "(p, s)" rule: drop_step.cases) (auto split: step_splits)
qed

lemma cmove_work:
  assumes "cmove D s s'"
  shows "(mset (map work (threads s')), mset (map work (threads s))) \<in> mult less_work"
  using assms
proof (cases rule: cmove.cases)
  case (1 i t out c)
  let ?I = "mset (map work (threads s)) - {#work (threads s ! i)#}" and ?K = "{#work t#} + mset (map (\<lambda>_. (4, 0)) out)"
  have "work (threads s ! i) \<in># mset (map work (threads s))" using 1(2) by simp
  then have J: "mset (map work (threads s)) = ?I + {#work (threads s ! i)#}" by simp
  have K: "mset (map work (threads s')) = ?I + ?K"
    using 1(1,2) by (simp add: map_update mset_update droppers_def comp_def)
  have "\<exists>j \<in># {#work (threads s ! i)#}. (k, j) \<in> less_work" if "k \<in># ?K" for k
    using that thread_step_work [OF 1(3)] by auto
  then have "(?I + ?K, ?I + {#work (threads s ! i)#}) \<in> mult less_work"
    by (intro one_step_implies_mult) auto
  then show ?thesis
    by (simp only: J [symmetric] K)
qed

interpretation cm: terminating_system "cmove D" "\<lambda>s. mset (map work (threads s))" "mult less_work" for D
  by unfold_locales (auto intro: cmove_work wf_mult wf_lex_prod simp del: mset_map)

lemma cmoves_reach:
  assumes "reach (cstep D bg) s0 s" "(cmove D)\<^sup>*\<^sup>* s s'"
  shows "reach (cstep D bg) s0 s'"
  using assms(2,1) by (induction rule: rtranclp_induct) (blast intro: reach_step moved)+

lemma thread_step_call: "thread_step D t s = Some (TGet g p', out, s') \<Longrightarrow> \<exists>p. t = TGet g p"
  by (auto elim: thread_step_E)

lemma cmoves_calls:
  assumes "(cmove D)\<^sup>*\<^sup>* s s'" "TGet g p \<in> set (threads s')"
  shows "\<exists>p. TGet g p \<in> set (threads s)"
  using assms
proof (induction arbitrary: p rule: rtranclp_induct)
  case (step y z)
  from step(2) show ?case
  proof (cases rule: cmove.cases)
    case (1 i t out c)
    with step.prems have "TGet g p = t \<or> TGet g p \<in> set (threads y)"
      using set_update_subset_insert by (fastforce simp: droppers_def)
    then have "\<exists>p. TGet g p \<in> set (threads y)"
      using thread_step_call [of D "threads y ! i" "shared y" g p out c] 1(2,3) by (metis nth_mem)
    with step.IH show ?thesis by blast
  qed
qed blast

section \<open>Schedules\<close>

text \<open>Concrete interleavings: which call begins, which goroutine acts, when the third-party cache gives values
  up (\<open>ev\<close> says which).\<close>

datatype 'x act = Call "'x gcall" | Ask string | Go nat | Evict

fun perform :: "'rc deps \<Rightarrow> ('rc \<Rightarrow> nat list \<times> 'rc) \<Rightarrow> 'x act \<Rightarrow> ('rc, 'x) csys \<Rightarrow> ('rc, 'x) csys option" where
  "perform D ev (Call g) s = Some (s\<lparr>threads := threads s @ [TGet g PGet]\<rparr>)"
| "perform D ev (Ask key) s = Some (s\<lparr>threads := threads s @ [TExists (EGet key)]\<rparr>)"
| "perform D ev (Go i) s = (if i < length (threads s) then (case thread_step D (threads s ! i) (shared s) of
      None \<Rightarrow> None
    | Some (t, out, c) \<Rightarrow> Some (s\<lparr>shared := c, threads := (threads s)[i := t] @ droppers out,
        fetched := fetched s @ fetching (threads s ! i)\<rparr>)) else None)"
| "perform D ev Evict s = (case ev (rist (shared s)) of
      (out, rc) \<Rightarrow> Some (s\<lparr>shared := (shared s)\<lparr>rist := rc\<rparr>, threads := threads s @ droppers out\<rparr>))"

fun run :: "'rc deps \<Rightarrow> ('rc \<Rightarrow> nat list \<times> 'rc) \<Rightarrow> 'x act list \<Rightarrow> ('rc, 'x) csys \<Rightarrow> ('rc, 'x) csys option" where
  "run D ev [] s = Some s"
| "run D ev (a # as) s = (case perform D ev a s of None \<Rightarrow> None | Some s' \<Rightarrow> run D ev as s')"

definition ev_rel :: "('rc \<Rightarrow> nat list \<times> 'rc) \<Rightarrow> 'rc \<Rightarrow> nat list \<Rightarrow> 'rc \<Rightarrow> bool" where
  "ev_rel ev rc out rc' \<longleftrightarrow> ev rc = (out, rc')"

lemma perform_cstep: "perform D ev a s = Some s' \<Longrightarrow> cstep D (ev_rel ev) s s'"
  by (cases a) (auto simp: ev_rel_def intro: cstep.intros cmove.intros split: if_splits option.splits prod.splits)

lemma run_reach:
  assumes "run D ev as s = Some s'" "reach (cstep D (ev_rel ev)) s0 s"
  shows "reach (cstep D (ev_rel ev)) s0 s'"
  using assms
proof (induction as arbitrary: s)
  case (Cons a as)
  then obtain s1 where "perform D ev a s = Some s1" "run D ev as s1 = Some s'"
    by (auto split: option.splits)
  with Cons show ?case by (blast intro: reach_step perform_cstep)
qed simp

lemma run_cmoves:
  "run D ev (map Go is) s = Some s' \<Longrightarrow> (cmove D)\<^sup>*\<^sup>* s s'"
proof (induction "is" arbitrary: s)
  case (Cons i "is")
  then obtain s1 where s1: "perform D ev (Go i) s = Some s1" "run D ev (map Go is) s1 = Some s'"
    by (auto split: option.splits)
  from s1(1) have "cmove D s s1"
    by (auto intro: cmove.intros split: if_splits option.splits prod.splits)
  then show ?case using Cons.IH [OF s1(2)] by (rule converse_rtranclp_into_rtranclp)
qed simp

text \<open>Every call in a state was begun on the way to it.\<close>

lemma perform_calls:
  assumes "perform D ev a s = Some s'" "TGet g p \<in> set (threads s')"
  shows "a = Call g \<or> (\<exists>p. TGet g p \<in> set (threads s))"
proof (cases a)
  case (Go i)
  with assms(1) have "cmove D s s'"
    by (auto intro: cmove.intros split: if_splits option.splits prod.splits)
  with cmoves_calls [OF r_into_rtranclp assms(2)] show ?thesis by blast
qed (use assms in \<open>auto simp: droppers_def split: prod.splits\<close>)

lemma run_calls:
  assumes "run D ev as s = Some s'" "TGet g p \<in> set (threads s')"
  shows "Call g \<in> set as \<or> (\<exists>p. TGet g p \<in> set (threads s))"
  using assms
proof (induction as arbitrary: s)
  case (Cons a as)
  then obtain s1 where "perform D ev a s = Some s1" "run D ev as s1 = Some s'"
    by (auto split: option.splits)
  with Cons show ?case using perform_calls by fastforce
qed auto

text \<open>A third-party cache that keeps what it is given until it gives up everything at once.\<close>

definition all_out :: "(string \<times> nat) list \<Rightarrow> nat list \<times> (string \<times> nat) list" where
  "all_out rc = (map snd rc, [])"

lemma keep_all_laws: "kv_lawful keep_all set" "evicts_lawful keep_all (ev_rel all_out) set"
  by (auto simp: kv_lawful_def evicts_lawful_def keep_all_def ev_rel_def all_out_def map_of_SomeD)

definition call_78 :: "nat gcall" where
  "call_78 = \<lparr>g_key = ''k'', g_count = 2, g_fetch = fetch_78\<rparr>"

definition start :: "((string \<times> nat) list, nat) csys" where
  "start = new_csys (empty_cache 0)"

lemma reach_run:
  assumes "run keep_all all_out as start = Some s"
  shows "reach (cstep keep_all (ev_rel all_out)) (new_csys (empty_cache 0)) s"
  using run_reach [OF assms [unfolded start_def] reach_init] .

section \<open>Claims\<close>

text \<open>C7: mutual exclusion. In every interleaving of calls and evictions, while one goroutine checks the size
  of a chunk's file under the write lock, fetches the chunk, writes it, or closes and removes its file, no
  other goroutine is anywhere between acquiring and releasing that item's lock, for reading or writing; and
  at most one goroutine at a time looks for a missing item in order to make it.\<close>

theorem cache_mutual_exclusion:
  assumes "kv_lawful D holds" "evicts_lawful D bg holds"
    and "NewCache rnew fs e bs path = Some c" "holds (rist c) = {}" "reach (cstep D bg) (new_csys c) s"
    and "i < length (threads s)" "j < length (threads s)" "i \<noteq> j"
  shows "(holds_w (threads s ! i) = Some r \<longrightarrow> holds_w (threads s ! j) \<noteq> Some r \<and> holds_r (threads s ! j) \<noteq> Some r)
    \<and> \<not> (holds_c (threads s ! i) \<and> holds_c (threads s ! j))"
proof -
  have inv: "sys_inv holds s" using reach_sys_inv [where holds = holds, OF assms(1-5)] .
  have one: "of_bool b = n \<Longrightarrow> n \<le> 1" for b and n :: nat by auto
  have "sum_list (map lc (threads s)) \<le> 1"
    using inv unfolding sys_inv_def locks_inv_def by (blast intro: one)
  then show ?thesis
    using sum_list_two [OF assms(6-8), of lc] sys_inv_excl [OF inv assms(6-8)] by (auto simp: lock_defs)
qed

text \<open>Two calls for the same chunk: the first fetches it while the second waits for the lock.\<close>

definition two_calls :: "nat act list" where
  "two_calls = [Call call_78, Call call_78] @ map Go ([0, 0, 0, 0, 0, 0, 1] @ [0, 0, 1, 1, 0, 1, 0, 0])"

theorem cache_mutual_exclusion_witness:
  "\<exists>s. run keep_all all_out two_calls start = Some s \<and> holds_w (threads s ! 0) = Some 0 \<and> waits_i (threads s ! 1) = Some 0
    \<and> holds_w (threads s ! 1) \<noteq> Some 0 \<and> holds_r (threads s ! 1) \<noteq> Some 0"
proof -
  have "case run keep_all all_out two_calls start of None \<Rightarrow> False
    | Some s \<Rightarrow> holds_w (threads s ! 0) = Some 0 \<and> waits_i (threads s ! 1) = Some 0 \<and> length (threads s) = 2"
    by code_simp
  then obtain s where s: "run keep_all all_out two_calls start = Some s" "holds_w (threads s ! 0) = Some 0"
    "waits_i (threads s ! 1) = Some 0" "length (threads s) = 2"
    by (auto split: option.splits)
  have "holds_w (threads s ! 1) \<noteq> Some 0 \<and> holds_r (threads s ! 1) \<noteq> Some 0"
    using cache_mutual_exclusion [where r = 0 and i = 0 and j = 1, OF keep_all_laws empty_cache_is_NewCache _ reach_run [OF s(1)]] s(2,4)
    by (simp add: empty_cache_def)
  with s show ?thesis by auto
qed

text \<open>C5: calls of the cache cannot deadlock and cannot run forever. From every state that calls and evictions
  can lead to, with fetches that return: however the goroutines are scheduled, they can only take finitely
  many further steps, and when none can take one, every call has returned and every evicted item is dropped,
  unless a goroutine panicked while it held a lock.\<close>

theorem cache_calls_end:
  assumes "kv_lawful D holds" "evicts_lawful D bg holds"
    and "NewCache rnew fs e bs path = Some c" "holds (rist c) = {}" "reach (cstep D bg) (new_csys c) s"
    and "\<forall>g p. TGet g p \<in> set (threads s) \<longrightarrow> no_hang (g_fetch g)"
  shows "(\<nexists>f. f 0 = s \<and> (\<forall>n. cmove D (f n) (f (Suc n))))
    \<and> (\<forall>s'. (cmove D)\<^sup>*\<^sup>* s s' \<and> (\<nexists>s''. cmove D s' s'') \<longrightarrow>
         (\<forall>t \<in> set (threads s'). finished t) \<or> (\<exists>t \<in> set (threads s'). crashed t))"
proof (intro conjI allI impI)
  show "\<nexists>f. f 0 = s \<and> (\<forall>n. cmove D (f n) (f (Suc n)))"
    using cm.no_infinite_run by blast
next
  fix s' assume s': "(cmove D)\<^sup>*\<^sup>* s s' \<and> (\<nexists>s''. cmove D s' s'')"
  then have "sys_inv holds s'"
    using reach_sys_inv [where holds = holds, OF assms(1-4) cmoves_reach [OF assms(5)]] by blast
  then show "(\<forall>t \<in> set (threads s'). finished t) \<or> (\<exists>t \<in> set (threads s'). crashed t)"
    using s' some_thread_moves [of holds s' _ D] cmoves_calls [of D s s'] assms(6) by blast
qed

theorem cache_calls_end_witness:
  "\<exists>s s'. run keep_all all_out two_calls start = Some s \<and> (cmove keep_all)\<^sup>*\<^sup>* s s' \<and> (\<forall>t \<in> set (threads s'). finished t)
    \<and> (\<nexists>f. f 0 = s \<and> (\<forall>n. cmove keep_all (f n) (f (Suc n))))"
proof -
  let ?go = "map Go (replicate 9 0 @ replicate 8 1)"
  have "case run keep_all all_out two_calls start of None \<Rightarrow> False
    | Some s \<Rightarrow> (case run keep_all all_out ?go s of None \<Rightarrow> False
           | Some s' \<Rightarrow> list_all (\<lambda>t. \<not> crashed t \<and> Option.is_none (thread_step keep_all t (shared s'))) (threads s'))"
    by code_simp
  then obtain s s' where s: "run keep_all all_out two_calls start = Some s" "run keep_all all_out ?go s = Some s'"
    and e: "\<forall>t \<in> set (threads s'). \<not> crashed t \<and> thread_step keep_all t (shared s') = None"
    by (auto simp: list_all_iff Option.is_none_def split: option.splits)
  have "\<forall>g p. TGet g p \<in> set (threads s) \<longrightarrow> no_hang (g_fetch g)"
    using run_calls [OF s(1)] by (fastforce simp: two_calls_def start_def new_csys_def call_78_def fetch_78_def no_hang_def)
  moreover have "\<nexists>s''. cmove keep_all s' s''"
    using e by (auto elim!: cmoveE)
  ultimately show ?thesis
    using cache_calls_end [where s = s, OF keep_all_laws empty_cache_is_NewCache _ reach_run [OF s(1)]] run_cmoves [OF s(2)] s(1) e
    by (auto simp: empty_cache_def)
qed

end
