(* ===== verification/Interleaved.thy ===== *)
theory Interleaved
  imports Concurrent
begin

text \<open>
  What concurrent callers of the cache get. As long as no two items share a file, every interleaving of
  calls, evictions and fetches serves the right bytes, and fetches a chunk once. Items share a file when
  an evicted one is not dropped yet and its key is asked for again; the last section shows what then
  happens, and what happens when an item is dropped between two critical sections of a call.
\<close>

section \<open>Definitions\<close>

text \<open>No two items share a file.\<close>

definition private_files :: "('rc, 'x) cstate \<Rightarrow> bool" where
  "private_files c \<longleftrightarrow> (\<forall>r q h k. item_file (items c r) = Some h \<longrightarrow> item_file (items c q) = Some k \<longrightarrow> finode h = finode k \<longrightarrow> r = q)"

text \<open>What a goroutine knows at its program point: the bytes it is about to write are the right ones; the bytes
  it has read are a prefix of the file; what it returns is right or has the wrong length.\<close>

fun thread_right :: "(string \<Rightarrow> byte list) \<Rightarrow> ('rc, 'x) cstate \<Rightarrow> 'x thread \<Rightarrow> bool" where
  "thread_right truth c (TGet g (PTruncate r b)) \<longleftrightarrow> b = truth (g_key g)"
| "thread_right truth c (TGet g (PWrite r b)) \<longleftrightarrow> b = truth (g_key g)"
| "thread_right truth c (TGet g (PRead r n acc)) \<longleftrightarrow> (\<exists>h. item_file (items c r) = Some h
     \<and> n = length (content (os c) h) \<and> acc = take (length acc) (content (os c) h))"
| "thread_right truth c (TGet g (PBytes r b)) \<longleftrightarrow> sound_bytes (truth (g_key g)) b"
| "thread_right truth c (TGet g (PDone (b, None))) \<longleftrightarrow> int (length b) = g_count g \<and> sound_bytes (truth (g_key g)) b"
| "thread_right truth c _ \<longleftrightarrow> True"

text \<open>The interleavings in which files are private and every call comes with a fetch of the right bytes.\<close>

definition calls_right :: "(string \<Rightarrow> byte list) \<Rightarrow> ('rc, 'x) csys \<Rightarrow> bool" where
  "calls_right truth s \<longleftrightarrow> (\<forall>g p. TGet g p \<in> set (threads s) \<longrightarrow> fetch_right (truth (g_key g)) (g_fetch g))"

definition pstep :: "'rc deps \<Rightarrow> ('rc \<Rightarrow> nat list \<Rightarrow> 'rc \<Rightarrow> bool) \<Rightarrow> (string \<Rightarrow> byte list) \<Rightarrow> ('rc, 'x) csys \<Rightarrow> ('rc, 'x) csys \<Rightarrow> bool" where
  "pstep D bg truth s s' \<longleftrightarrow> cstep D bg s s' \<and> private_files (shared s') \<and> calls_right truth s'"

section \<open>Files in a fault-free run\<close>

lemma os_calm:
  assumes "faults fs = []"
  shows "os_Stat fs f = (x, fs') \<Longrightarrow> fs' = fs" "os_ReadAt fs f n off = (y, fs') \<Longrightarrow> fs' = fs"
    "os_Truncate fs f = (Some e, fs') \<Longrightarrow> fs' = fs"
    "os_Truncate fs f = (None, fs') \<Longrightarrow> \<exists>h. f = Some h \<and> fopen h \<and> fs' = fs\<lparr>inodes := (inodes fs)(finode h := [])\<rparr>"
    "os_Write fs f b = ((l, Some e), f', fs') \<Longrightarrow> f' = f \<and> fs' = fs"
    "os_Write fs f b = ((l, None), f', fs') \<Longrightarrow> \<exists>h. f = Some h \<and> fopen h \<and> l = length b
       \<and> f' = Some (h\<lparr>fpos := fpos h + length b\<rparr>) \<and> fs' = fs\<lparr>inodes := (inodes fs)(finode h := write_at (fpos h) b (content fs h))\<rparr>"
    "os_Close fs (Some h) = (z, f', fs') \<Longrightarrow> f' = Some (h\<lparr>fopen := False\<rparr>) \<and> fs' = fs"
  using assms os_Stat_calm [of fs f] os_ReadAt_calm [of fs f n off]
  by (auto simp: os_Truncate_def os_Write_def os_Close_def valid_file_def Let_def split: sum.splits option.splits if_splits)

text \<open>Writing the right bytes at any position of a file leaves the right bytes or a file of another length.\<close>

lemma sound_write: "sound_bytes want (write_at pos want old)"
proof (cases "pos = 0")
  case True
  then show ?thesis
    by (cases "length old \<le> length want") (auto simp: write_at_def sound_bytes_def)
next
  case False
  then show ?thesis
    by (auto simp: write_at_def sound_bytes_def)
qed

lemma sound_empty [simp]: "sound_bytes want []"
  by (auto simp: sound_bytes_def)

lemma owned_inv_lock [simp]:
  "owned_inv truth own fs (items (snd (item_RLock r s))) = owned_inv truth own fs (items s)"
  "owned_inv truth own fs (items (snd (item_RUnlock r s))) = owned_inv truth own fs (items s)"
  "owned_inv truth own fs (items (snd (item_Lock r s))) = owned_inv truth own fs (items s)"
  "owned_inv truth own fs (items (snd (item_Unlock r s))) = owned_inv truth own fs (items s)"
  by (simp_all add: owned_inv_def)

lemma owned_inv_bytes:
  assumes "owned_inv truth own fs its" "sound_bytes (truth (own n)) b"
  shows "owned_inv truth own (fs\<lparr>inodes := (inodes fs)(n := b)\<rparr>) its"
  using assms by (auto simp: owned_inv_def)

lemma owned_inv_files:
  assumes "owned_inv truth own fs (items c)" "\<And>h. f = Some h \<Longrightarrow> \<exists>h0. item_file (items c r) = Some h0 \<and> finode h = finode h0"
  shows "owned_inv truth own fs (items (upd_item r (\<lambda>i. i\<lparr>item_file := f\<rparr>) c))"
  using owned_inv_file [OF assms] by (simp add: upd_item_def fun_upd_def)

lemma owned_key: "owned_inv truth own fs its \<Longrightarrow> item_file (its r) = Some h \<Longrightarrow> own (finode h) = item_key (its r)"
  by (simp add: owned_inv_def)

lemma thread_step_owned:
  assumes "thread_step D t c = Some (t', out, c')" "owned_inv truth own (os c) (items c)" "ref_ok c t" "thread_right truth c t"
  shows "\<exists>own'. owned_inv truth own' (os c') (items c')"
proof -
  have calm: "faults (os c) = []" using assms(2) by (simp add: owned_inv_def)
  note calmD = os_calm [OF calm] and keyD = owned_key [OF assms(2)]
  show ?thesis
    using assms(1)
  proof (cases rule: thread_step_E)
    case (get g p p')
    show ?thesis
    proof (cases "p = PNew")
      case True
      have "chunk_inv truth (\<lambda>_. {}) c" using assms(2) by (auto simp: chunk_inv_def)
      then have "chunk_inv truth (\<lambda>_. {}) (snd (newItem (g_key g) c))"
        using newItem_inv [of "g_key g" c] by (metis prod.collapse)
      moreover have "c' = snd (newItem (g_key g) c)"
        using get True by (auto split: step_splits)
      ultimately show ?thesis by (simp add: chunk_inv_def)
    next
      case False
      have "owned_inv truth own (os c') (items c')"
        using get assms(2-4) False
        by (cases "(D, g, p, c)" rule: get_step.cases)
          (auto simp: do_Remove_calm calm ref_ok_def keyD sound_write split: step_splits dest!: calmD
            intro!: owned_inv_files owned_inv_bytes owned_inv_remove)
      then show ?thesis by blast
    qed
  next
    case (exists p p')
    with assms(2) show ?thesis
      by (cases "(D, p, c)" rule: exists_step.cases) (auto split: step_splits dest!: calmD)
  next
    case (dropping p p')
    with assms(2) show ?thesis
      by (cases "(p, c)" rule: drop_step.cases)
        (auto simp: do_Remove_calm calm split: step_splits dest!: calmD intro!: exI [of _ own] owned_inv_files owned_inv_remove)
  qed
qed

text \<open>A goroutine changes the bytes of a file only while it holds the write lock of an item with that file.\<close>

lemma thread_step_content:
  assumes "thread_step D t c = Some (t', out, c')" "faults (os c) = []" "n < next_inode (os c)" "inodes (os c') n \<noteq> inodes (os c) n"
  shows "\<exists>r h. holds_w t = Some r \<and> item_file (items c r) = Some h \<and> finode h = n"
proof -
  note calmD = os_calm [OF assms(2)]
  have new: "inodes (os c') n = inodes (os c) n" if "newItem k c = (x, c')" for k x
    using that assms(2,3) by (auto simp: newItem_def os_MkdirAll_def os_OpenFile_def Let_def split: step_splits)
  show ?thesis
    using assms(1)
  proof (cases rule: thread_step_E)
    case (get g p p')
    with assms(2-4) new show ?thesis
      by (cases "(D, g, p, c)" rule: get_step.cases)
        (auto simp: do_Remove_calm split: step_splits dest!: calmD)
  next
    case (exists p p')
    with assms(2-4) show ?thesis
      by (cases "(D, p, c)" rule: exists_step.cases) (auto split: step_splits dest!: calmD)
  next
    case (dropping p p')
    with assms(2-4) show ?thesis
      by (cases "(p, c)" rule: drop_step.cases) (auto simp: do_Remove_calm split: step_splits dest!: calmD)
  qed
qed

text \<open>What a goroutine's own action establishes.\<close>

lemma os_Stat_size:
  "faults fs = [] \<Longrightarrow> os_Stat fs f = (Inr n, fs') \<Longrightarrow> fs' = fs \<and> (\<exists>h. f = Some h \<and> fopen h \<and> n = length (content fs h))"
  by (auto simp: os_Stat_def valid_file_def split: step_splits)

lemma fetch_rightD: "fetch_right want fetch \<Longrightarrow> fetch e = (Ret (b, None), e') \<Longrightarrow> b = want"
  by (auto simp: fetch_right_def)

lemma os_ReadAt_whole:
  assumes "os_ReadAt fs (Some h) (n - length acc) (length acc) = ((b, e), fs')" "acc = take (length acc) (content fs h)"
  shows "acc @ b = take (length (acc @ b)) (content fs h)"
proof -
  have "b = take (length b) (drop (length acc) (content fs h))"
    using os_ReadAt_prefix [OF assms(1)] by blast
  then have "acc @ b = take (length acc) (content fs h) @ take (length b) (drop (length acc) (content fs h))"
    using assms(2) by metis
  then show ?thesis by (metis length_append take_add)
qed

lemma owned_sound:
  "owned_inv truth own fs its \<Longrightarrow> item_file (its r) = Some h \<Longrightarrow> sound_bytes (truth (item_key (its r))) (content fs h)"
  unfolding owned_inv_def content_def by metis

lemma thread_step_right:
  assumes "thread_step D t c = Some (t', out, c')" "owned_inv truth own (os c) (items c)" "ref_ok c t" "thread_right truth c t"
    and "\<And>g p. t = TGet g p \<Longrightarrow> fetch_right (truth (g_key g)) (g_fetch g)"
  shows "thread_right truth c' t'"
proof -
  have calm: "faults (os c) = []" using assms(2) by (simp add: owned_inv_def)
  show ?thesis
    using assms(1)
  proof (cases rule: thread_step_E)
    case (get g p p')
    show ?thesis
    proof (cases "\<exists>r n acc. p = PRead r n acc")
      case True
      then obtain r n acc where p: "p = PRead r n acc" by blast
      with assms(4) get obtain h where h: "item_file (items c r) = Some h" "n = length (content (os c) h)"
        "acc = take (length acc) (content (os c) h)" by auto
      have key: "sound_bytes (truth (g_key g)) (content (os c) h)"
        using owned_sound [OF assms(2) h(1)] assms(3) get p by (simp add: ref_ok_def)
      have all: "a = content (os c) h" if "a = take (length a) (content (os c) h)" "length a \<ge> n" for a
        using that h(2) by simp
      show ?thesis
      proof (cases "length acc < n")
        case False
        with all [of acc] h(3) key get p show ?thesis by auto
      next
        case less: True
        obtain b e fs where ra: "os_ReadAt (os c) (Some h) (n - length acc) (length acc) = ((b, e), fs)"
          by (metis prod.collapse)
        have fs: "fs = os c" using os_calm(2) [OF calm ra] .
        note pre = os_ReadAt_whole [OF ra h(3)]
        show ?thesis
          using get p less ra h(1,2) fs pre all [OF pre] key by (cases e) (auto simp del: length_append)
      qed
    next
      case False
      with get assms(3-5) show ?thesis
        by (cases "(D, g, p, c)" rule: get_step.cases)
          (auto split: step_splits dest: fetch_rightD dest!: os_Stat_size [OF calm])
    qed
  next
    case (exists p p')
    then show ?thesis by simp
  next
    case (dropping p p')
    then show ?thesis by simp
  qed
qed

text \<open>What it knows survives the actions of others: it holds the item's lock, and no other item has the file.\<close>

lemma file_stable:
  assumes "thread_step D t c = Some (t', out, c')" "owned_inv truth own (os c) (items c)" "private_files c"
    and "r < next_item c" "holds_w t \<noteq> Some r"
  shows "item_file (items c' r) = item_file (items c r)" "item_file (items c r) = Some h \<Longrightarrow> content (os c') h = content (os c) h"
proof -
  show "item_file (items c' r) = item_file (items c r)"
    using thread_step_items [OF assms(1), of r] assms(4,5) by simp
  show "content (os c') h = content (os c) h" if h: "item_file (items c r) = Some h"
  proof (rule ccontr)
    assume "content (os c') h \<noteq> content (os c) h"
    moreover have "faults (os c) = []" "finode h < next_inode (os c)"
      using assms(2) h by (auto simp: owned_inv_def)
    ultimately obtain q k where "holds_w t = Some q" "item_file (items c q) = Some k" "finode k = finode h"
      using thread_step_content [OF assms(1)] unfolding content_def by blast
    with assms(3,5) h show False unfolding private_files_def by metis
  qed
qed

lemma thread_right_stable:
  assumes "thread_step D t c = Some (t', out, c')" "owned_inv truth own (os c) (items c)" "private_files c"
    and "thread_right truth c u" "ref_ok c u" "\<And>r. holds_r u = Some r \<Longrightarrow> holds_w t \<noteq> Some r"
  shows "thread_right truth c' u"
proof (cases "\<exists>g r n acc. u = TGet g (PRead r n acc)")
  case True
  then obtain g r n acc where u: "u = TGet g (PRead r n acc)" by blast
  then have r: "r < next_item c" "holds_w t \<noteq> Some r"
    using assms(5,6) by (auto simp: ref_ok_def)
  show ?thesis
    using assms(4) file_stable [OF assms(1-3) r] by (auto simp: u)
next
  case False
  with assms(4) show ?thesis
    by (cases "(truth, c, u)" rule: thread_right.cases) auto
qed

section \<open>The right bytes\<close>

definition bytes_inv :: "('rc \<Rightarrow> (string \<times> nat) set) \<Rightarrow> (string \<Rightarrow> byte list) \<Rightarrow> ('rc, 'x) csys \<Rightarrow> bool" where
  "bytes_inv holds truth s \<longleftrightarrow> sys_inv holds s \<and> private_files (shared s) \<and> calls_right truth s
     \<and> (\<exists>own. owned_inv truth own (os (shared s)) (items (shared s))) \<and> (\<forall>t \<in> set (threads s). thread_right truth (shared s) t)"

lemma thread_right_start [simp]:
  "thread_right truth c (TGet g PGet)" "thread_right truth c (TExists p)" "thread_right truth c (TDrop q)"
  by simp_all

lemma thread_right_rist [simp]: "thread_right truth (c\<lparr>rist := rc\<rparr>) t = thread_right truth c t"
  by (cases "(truth, c, t)" rule: thread_right.cases) auto

lemma bex_at: "i < length xs \<Longrightarrow> (\<exists>u \<in> set xs. P u) \<longleftrightarrow> P (xs ! i) \<or> (\<exists>j < length xs. j \<noteq> i \<and> P (xs ! j))"
  by (metis in_set_conv_nth)

lemma bex_update:
  "i < length xs \<Longrightarrow> (\<exists>u \<in> set (xs[i := x] @ ys). P u) \<longleftrightarrow> P x \<or> (\<exists>j < length xs. j \<noteq> i \<and> P (xs ! j)) \<or> (\<exists>u \<in> set ys. P u)"
  using bex_at [of i "xs[i := x]" P] by auto

lemma update_membersE:
  assumes "u \<in> set (xs[i := x] @ ys)" "i < length xs"
  obtains "u = x" | j where "j < length xs" "j \<noteq> i" "u = xs ! j" | "u \<in> set ys"
proof -
  consider "u \<in> set (xs[i := x])" | "u \<in> set ys" using assms(1) by auto
  then show thesis
  proof cases
    case 1
    then obtain j where "j < length xs" "u = xs[i := x] ! j" by (auto simp: in_set_conv_nth)
    then show ?thesis using that(1,2) by (cases "j = i") auto
  qed (rule that(3))
qed

lemma bytes_inv_moved:
  assumes "bytes_inv holds truth s" "cmove D s s'"
  shows "(\<exists>own. owned_inv truth own (os (shared s')) (items (shared s'))) \<and> (\<forall>t \<in> set (threads s'). thread_right truth (shared s') t)"
  using assms(2)
proof (cases rule: cmove.cases)
  case (1 i t out c)
  have inv: "sys_inv holds s" "private_files (shared s)" "calls_right truth s" "\<And>u. u \<in> set (threads s) \<Longrightarrow> thread_right truth (shared s) u"
    and ref: "\<And>u. u \<in> set (threads s) \<Longrightarrow> ref_ok (shared s) u"
    using assms(1) by (auto simp: bytes_inv_def sys_inv_def refs_inv_def)
  obtain own where own: "owned_inv truth own (os (shared s)) (items (shared s))"
    using assms(1) by (auto simp: bytes_inv_def)
  have i: "threads s ! i \<in> set (threads s)" using 1(2) by simp
  have "thread_right truth c u" if "u \<in> set ((threads s)[i := t] @ droppers out)" for u
    using that 1(2)
  proof (cases rule: update_membersE)
    case 1
    have "fetch_right (truth (g_key g)) (g_fetch g)" if "threads s ! i = TGet g p" for g p
      using inv(3) i that unfolding calls_right_def by metis
    with 1 thread_step_right [OF \<open>thread_step D _ _ = _\<close> own ref [OF i] inv(4) [OF i]] show ?thesis by blast
  next
    case (2 j)
    then have "u \<in> set (threads s)" by simp
    moreover have "holds_w (threads s ! i) \<noteq> Some r" if "holds_r u = Some r" for r
      using sys_inv_excl(2) [OF inv(1) \<open>i < _\<close>, of j r] 2 that by auto
    ultimately show ?thesis
      using thread_right_stable [OF \<open>thread_step D _ _ = _\<close> own inv(2) inv(4) ref] by blast
  next
    case 3
    then show ?thesis by (auto simp: droppers_def)
  qed
  with thread_step_owned [OF 1(3) own ref [OF i] inv(4) [OF i]] 1(1) show ?thesis by simp
qed

lemma pstep_inv:
  assumes "bytes_inv holds truth s" "pstep D bg truth s s'" "kv_lawful D holds" "evicts_lawful D bg holds"
  shows "bytes_inv holds truth s'"
proof -
  have st: "cstep D bg s s'" "private_files (shared s')" "calls_right truth s'"
    using assms(2) by (simp_all add: pstep_def)
  have "sys_inv holds s'"
    using cstep_inv [OF st(1) _ assms(3,4)] assms(1) by (simp add: bytes_inv_def)
  moreover have "(\<exists>own. owned_inv truth own (os (shared s')) (items (shared s'))) \<and> (\<forall>t \<in> set (threads s'). thread_right truth (shared s') t)"
    using st(1)
  proof (cases rule: cstep.cases)
    case moved
    with assms(1) show ?thesis by (rule bytes_inv_moved)
  qed (use assms(1) in \<open>auto simp: bytes_inv_def droppers_def\<close>)
  ultimately show ?thesis
    using st(2,3) by (simp add: bytes_inv_def)
qed

lemma new_csys_bytes:
  assumes "NewCache rnew fs e bs path = Some c" "holds (rist c) = {}" "faults fs = []"
    and "\<forall>p. names fs p = None" "next_inode fs = 0"
  shows "bytes_inv holds truth (new_csys c)"
proof -
  have "chunk_inv truth holds c" by (rule new_cache_inv [where holds = holds, OF assms])
  moreover have "private_files c"
    using assms(1) by (auto simp: NewCache_def private_files_def split: prod.splits option.splits)
  ultimately show ?thesis
    using new_csys_inv [where holds = holds, OF assms(1,2)]
    by (simp add: bytes_inv_def chunk_inv_def calls_right_def new_csys_def)
qed

lemma reach_bytes_inv:
  assumes "kv_lawful D holds" "evicts_lawful D bg holds"
    and "NewCache rnew fs e bs path = Some c" "holds (rist c) = {}" "faults fs = []" "\<forall>p. names fs p = None" "next_inode fs = 0"
    and "reach (pstep D bg truth) (new_csys c) s"
  shows "bytes_inv holds truth s"
proof -
  have "invariant_system (pstep D bg truth) (bytes_inv holds truth)"
    by unfold_locales (rule pstep_inv [OF _ _ assms(1,2)])
  then show ?thesis
    using assms(8) new_csys_bytes [where holds = holds, OF assms(3-7)] by (rule invariant_system.reach_inv)
qed

section \<open>A cache that keeps its entries keeps files private\<close>

text \<open>A third-party cache that accepts every value and gives none up.\<close>

definition keeps_entries :: "'rc deps \<Rightarrow> ('rc \<Rightarrow> nat list \<Rightarrow> 'rc \<Rightarrow> bool) \<Rightarrow> ('rc \<Rightarrow> (string \<times> nat) set) \<Rightarrow> bool" where
  "keeps_entries D bg holds \<longleftrightarrow>
     (\<forall>rc k v rc'. rGet D rc k = (v, rc') \<longrightarrow> holds rc' = holds rc \<and> (v = None \<longrightarrow> k \<notin> fst ` holds rc))
     \<and> (\<forall>rc k r ok out rc'. rSet D rc k r = (ok, out, rc') \<longrightarrow> ok \<and> out = [] \<and> holds rc' = insert (k, r) (holds rc))
     \<and> (\<forall>rc out rc'. \<not> bg rc out rc')"

fun making :: "'x thread \<Rightarrow> string option" where
  "making (TGet g PNew) = Some (g_key g)"
| "making _ = None"

fun storing :: "'x thread \<Rightarrow> nat option" where
  "storing (TGet g (PSet r)) = Some r"
| "storing _ = None"

text \<open>Every item is stored or about to be, no key has two items, and an item is made only for a key without one.\<close>

definition keep_inv :: "('rc \<Rightarrow> (string \<times> nat) set) \<Rightarrow> ('rc, 'x) csys \<Rightarrow> bool" where
  "keep_inv holds s \<longleftrightarrow>
     (\<forall>r < next_item (shared s). (item_key (items (shared s) r), r) \<in> holds (rist (shared s)) \<or> (\<exists>t \<in> set (threads s). storing t = Some r))
     \<and> (\<forall>t \<in> set (threads s). \<forall>k. making t = Some k \<longrightarrow> k \<notin> fst ` holds (rist (shared s)))
     \<and> (\<forall>r < next_item (shared s). \<forall>q < next_item (shared s). item_key (items (shared s) r) = item_key (items (shared s) q) \<longrightarrow> r = q)
     \<and> (\<forall>r \<ge> next_item (shared s). item_file (items (shared s) r) = None)"

lemma keep_holds: "making t = Some k \<Longrightarrow> holds_c t" "storing t = Some r \<Longrightarrow> holds_c t"
  by (cases t rule: making.cases; simp) (cases t rule: storing.cases; simp)

lemma thread_step_idle:
  assumes "thread_step D t c = Some (t', out, c')" "keeps_entries D bg holds" "\<not> holds_c t"
  shows "holds (rist c') = holds (rist c) \<and> next_item c' = next_item c \<and> making t' = None \<and> storing t' = None \<and> out = []"
proof -
  have same: "holds rc = holds (rist c)" if "rGet D (rist c) k = (v, rc)" for k v rc
    using assms(2) that by (simp add: keeps_entries_def)
  show ?thesis
    using assms(1)
  proof (cases rule: thread_step_E)
    case (get g p p')
    with assms(3) show ?thesis
      by (cases "(D, g, p, c)" rule: get_step.cases) (auto simp: same split: step_splits)
  next
    case (exists p p')
    then show ?thesis
      by (cases "(D, p, c)" rule: exists_step.cases) (auto simp: same split: step_splits)
  next
    case (dropping p p')
    then show ?thesis
      by (cases "(p, c)" rule: drop_step.cases) (auto split: step_splits)
  qed
qed

lemma clock_excl:
  assumes "sys_inv holds s" "i < length (threads s)" "j < length (threads s)" "i \<noteq> j" "holds_c (threads s ! i)"
  shows "\<not> holds_c (threads s ! j)"
proof -
  have one: "of_bool b = n \<Longrightarrow> n \<le> 1" for b and n :: nat by auto
  have "sum_list (map lc (threads s)) \<le> 1"
    using assms(1) unfolding sys_inv_def locks_inv_def by (blast intro: one)
  then show ?thesis
    using sum_list_two [OF assms(2-4), of lc] assms(5) by (auto simp: lock_defs)
qed

text \<open>Files of items that are not made yet, and keys of those that are.\<close>

lemma keep_files:
  assumes "thread_step D t c = Some (t', out, c')" "ref_ok c t" "\<forall>r \<ge> next_item c. item_file (items c r) = None"
  shows "\<forall>r \<ge> next_item c'. item_file (items c' r) = None"
proof (intro allI impI)
  fix r assume r: "next_item c' \<le> r"
  have "next_item c \<le> next_item c'" using thread_step_items [OF assms(1)] by blast
  with r have "next_item c \<le> r" by simp
  then have "holds_w t \<noteq> Some r"
    using assms(2) holds_item(1) [of t r] by (auto simp: ref_ok_def)
  with thread_step_items [OF assms(1), of r] r assms(3) \<open>next_item c \<le> r\<close> show "item_file (items c' r) = None" by simp
qed

text \<open>The action of the goroutine that holds the cache's lock.\<close>

lemma keep_action:
  assumes "thread_step D t c = Some (t', out, c')" "keeps_entries D bg holds" "holds_c t" "ref_ok c t"
    and stored: "\<And>r. r < next_item c \<Longrightarrow> (item_key (items c r), r) \<in> holds (rist c) \<or> storing t = Some r"
    and making: "\<And>k. making t = Some k \<Longrightarrow> k \<notin> fst ` holds (rist c)"
    and inj: "\<And>r q. r < next_item c \<Longrightarrow> q < next_item c \<Longrightarrow> item_key (items c r) = item_key (items c q) \<Longrightarrow> r = q"
  shows "(\<forall>r < next_item c'. (item_key (items c' r), r) \<in> holds (rist c') \<or> storing t' = Some r)
    \<and> (\<forall>k. making t' = Some k \<longrightarrow> k \<notin> fst ` holds (rist c'))
    \<and> (\<forall>r < next_item c'. \<forall>q < next_item c'. item_key (items c' r) = item_key (items c' q) \<longrightarrow> r = q) \<and> out = []"
proof -
  have same: "holds rc = holds (rist c)" if "rGet D (rist c) k = (v, rc)" for k v rc
    using assms(2) that by (simp add: keeps_entries_def)
  have none: "(k, r) \<notin> holds (rist c)" if "rGet D (rist c) k = (None, rc)" for k r rc
    using assms(2) that unfolding keeps_entries_def by (metis fst_conv image_eqI)
  have set: "ok \<and> out = [] \<and> holds rc = insert (k, r) (holds (rist c))" if "rSet D (rist c) k r = (ok, out, rc)" for k r ok out rc
    using assms(2) that unfolding keeps_entries_def by blast
  from assms(1,3) obtain g p p' where t: "t = TGet g p" "t' = TGet g p'" "get_step D g p c = Some (p', out, c')"
    by (auto elim!: thread_step_E)
  consider "p = PGet2" | "p = PNew" | r where "p = PSet r" | x where "p = PUnlock x"
    using assms(3) t(1) by (cases p) auto
  then show ?thesis
  proof cases
    case 1
    with t stored inj same show ?thesis by (auto simp: none split: prod.splits option.splits)
  next
    case 2
    have new: "item_key (items c r) \<noteq> g_key g" "g_key g \<noteq> item_key (items c r)" if "r < next_item c" for r
      using stored [OF that] making [of "g_key g"] t(1) 2 by force+
    show ?thesis
      by (cases rule: newItem_cases [of "g_key g" c]) (use 2 t stored inj in \<open>auto simp: less_Suc_eq new\<close>)
  next
    case (3 r)
    obtain ok out' rc where s: "rSet D (rist c) (g_key g) r = (ok, out', rc)" using prod_cases3 by blast
    have "item_key (items c r) = g_key g" using assms(4) t(1) 3 by (simp add: ref_ok_def)
    moreover have "(item_key (items c q), q) \<in> insert (item_key (items c r), r) (holds (rist c))" if "q < next_item c" for q
      using stored [OF that] 3 t(1) by auto
    moreover have "p' = PUnlock (Inr r)" "out = []" "c' = c\<lparr>rist := rc\<rparr>"
      using 3 t(3) s set [OF s] by auto
    ultimately show ?thesis using t(2) inj set [OF s] by simp
  next
    case (4 x)
    with t stored inj show ?thesis by (cases x) auto
  qed
qed

lemma keep_inv_moved:
  assumes "sys_inv holds s" "keep_inv holds s" "keeps_entries D bg holds" "cmove D s s'"
  shows "keep_inv holds s'"
  using assms(4)
proof (cases rule: cmove.cases)
  case (1 i t out c)
  let ?t = "threads s ! i" and ?ts = "(threads s)[i := t] @ droppers out"
  note step = 1(3)
  have ref: "ref_ok (shared s) ?t" using assms(1) 1(2) by (simp add: sys_inv_def refs_inv_def)
  have old: "\<And>r. r < next_item (shared s) \<Longrightarrow> (item_key (items (shared s) r), r) \<in> holds (rist (shared s)) \<or> (\<exists>u \<in> set (threads s). storing u = Some r)"
    "\<And>u k. u \<in> set (threads s) \<Longrightarrow> making u = Some k \<Longrightarrow> k \<notin> fst ` holds (rist (shared s))"
    "\<And>r q. r < next_item (shared s) \<Longrightarrow> q < next_item (shared s) \<Longrightarrow> item_key (items (shared s) r) = item_key (items (shared s) q) \<Longrightarrow> r = q"
    "\<forall>r \<ge> next_item (shared s). item_file (items (shared s) r) = None"
    using assms(2) by (auto simp: keep_inv_def)
  have "(\<forall>r < next_item c. (item_key (items c r), r) \<in> holds (rist c) \<or> (\<exists>u \<in> set ?ts. storing u = Some r))
    \<and> (\<forall>u \<in> set ?ts. \<forall>k. making u = Some k \<longrightarrow> k \<notin> fst ` holds (rist c))
    \<and> (\<forall>r < next_item c. \<forall>q < next_item c. item_key (items c r) = item_key (items c q) \<longrightarrow> r = q)"
  proof (cases "holds_c ?t")
    case True
    have others: "making (threads s ! j) = None" "storing (threads s ! j) = None" if "j < length (threads s)" "j \<noteq> i" for j
      using clock_excl [OF assms(1) 1(2) that(1) _ True] that(2) keep_holds by (metis not_Some_eq)+
    have stored: "(item_key (items (shared s) r), r) \<in> holds (rist (shared s)) \<or> storing ?t = Some r" if "r < next_item (shared s)" for r
      using old(1) [OF that] others(2) by (metis in_set_conv_nth option.distinct(1))
    have act: "(\<forall>r < next_item c. (item_key (items c r), r) \<in> holds (rist c) \<or> storing t = Some r)
      \<and> (\<forall>k. making t = Some k \<longrightarrow> k \<notin> fst ` holds (rist c))
      \<and> (\<forall>r < next_item c. \<forall>q < next_item c. item_key (items c r) = item_key (items c q) \<longrightarrow> r = q) \<and> out = []"
      by (rule keep_action [OF step assms(3) True ref]) (erule stored, erule old(2) [OF nth_mem [OF 1(2)]], erule (2) old(3))
    have "making u = None" if "u \<in> set ?ts" "u \<noteq> t" for u
      using that(1) 1(2) by (cases rule: update_membersE) (use that(2) others(1) in \<open>auto simp: droppers_def\<close>)
    then have "\<forall>u \<in> set ?ts. \<forall>k. making u = Some k \<longrightarrow> k \<notin> fst ` holds (rist c)"
      using conjunct1 [OF conjunct2 [OF act]] by (metis option.distinct(1))
    moreover have "\<exists>u \<in> set ?ts. storing u = Some r" if "storing t = Some r" for r
      unfolding bex_update [OF 1(2)] using that by blast
    ultimately show ?thesis
      using act by blast
  next
    case False
    note idle = thread_step_idle [OF step assms(3) False]
    have keys: "item_key (items c r) = item_key (items (shared s) r)" if "r < next_item (shared s)" for r
      using thread_step_items [OF step, of r] that by blast
    have st: "(\<exists>u \<in> set ?ts. storing u = Some r) \<longleftrightarrow> (\<exists>u \<in> set (threads s). storing u = Some r)" for r
      unfolding bex_update [OF 1(2)] bex_at [OF 1(2)] using idle False keep_holds(2) [of ?t r] by (auto simp: droppers_def)
    have mk: "k \<notin> fst ` holds (rist (shared s))" if "u \<in> set ?ts" "making u = Some k" for u k
      using that(1) 1(2)
    proof (cases rule: update_membersE)
      case (2 j)
      then show ?thesis using old(2) [of u k] that(2) by simp
    qed (use that(2) idle in \<open>auto simp: droppers_def\<close>)
    have "holds (rist c) = holds (rist (shared s))" "next_item c = next_item (shared s)"
      using idle by simp_all
    with old(1,3) keys mk show ?thesis
      unfolding st by simp
  qed
  with keep_files [OF step ref old(4)] show ?thesis
    unfolding 1(1) keep_inv_def by simp
qed

lemma keep_private:
  assumes "keep_inv holds s" "owned_inv truth own (os (shared s)) (items (shared s))"
  shows "private_files (shared s)"
  unfolding private_files_def
proof (intro allI impI)
  fix r q h k
  assume f: "item_file (items (shared s) r) = Some h" "item_file (items (shared s) q) = Some k" "finode h = finode k"
  have "r < next_item (shared s)" "q < next_item (shared s)"
    using f(1,2) assms(1) unfolding keep_inv_def by (metis linorder_not_less option.distinct(1))+
  moreover have "item_key (items (shared s) r) = item_key (items (shared s) q)"
    using owned_key [OF assms(2) f(1)] owned_key [OF assms(2) f(2)] f(3) by simp
  ultimately show "r = q"
    using assms(1) unfolding keep_inv_def by blast
qed

lemma reach_keeps_private:
  assumes "kv_lawful D holds" "evicts_lawful D bg holds" "keeps_entries D bg holds"
    and "NewCache rnew fs e bs path = Some c" "holds (rist c) = {}" "faults fs = []" "\<forall>p. names fs p = None" "next_inode fs = 0"
    and "reach (\<lambda>s s'. cstep D bg s s' \<and> Q s') (new_csys c) s" "\<And>s. Q s \<Longrightarrow> calls_right truth s"
  shows "reach (\<lambda>s s'. pstep D bg truth s s' \<and> Q s') (new_csys c) s \<and> bytes_inv holds truth s \<and> keep_inv holds s"
  using assms(9)
proof (induction rule: reach.induct)
  case reach_init
  have "keep_inv holds (new_csys c)"
    using assms(4) by (auto simp: keep_inv_def new_csys_def NewCache_def split: prod.splits option.splits)
  then show ?case
    using new_csys_bytes [where holds = holds, OF assms(4-8)] by (simp add: reach.reach_init)
next
  case (reach_step s s')
  then have inv: "bytes_inv holds truth s" "keep_inv holds s" "sys_inv holds s" and st: "cstep D bg s s'" "Q s'" "calls_right truth s'"
    using assms(10) by (auto simp: bytes_inv_def)
  obtain own where own: "owned_inv truth own (os (shared s)) (items (shared s))" using inv(1) by (auto simp: bytes_inv_def)
  have new: "keep_inv holds s' \<and> (\<exists>own. owned_inv truth own (os (shared s')) (items (shared s')))"
    using st(1)
  proof (cases rule: cstep.cases)
    case moved
    then show ?thesis using keep_inv_moved [OF inv(3,2) assms(3)] bytes_inv_moved [OF inv(1)] by blast
  next
    case (given_up out rc)
    with assms(3) show ?thesis by (simp add: keeps_entries_def)
  qed (use inv(2) own in \<open>auto simp: keep_inv_def\<close>)
  then have "pstep D bg truth s s'"
    using st keep_private by (auto simp: pstep_def)
  with reach_step new st(2) show ?case
    using pstep_inv [OF inv(1) _ assms(1,2)] by (blast intro: reach.reach_step)
qed

section \<open>Claims\<close>

text \<open>C4: concurrent callers never get wrong bytes. In every interleaving of calls, existence checks,
  evictions and drops, started on an empty directory, with system calls that do not fail, fetches that
  deliver the right bytes of their chunk or an error, and no two items sharing a file: a call that returns
  bytes without an error returns as many as it was asked for, and if that is the chunk's length, exactly the
  bytes of the chunk, however often the chunk was truncated, rewritten, evicted or fetched meanwhile.\<close>

theorem concurrent_calls_right:
  assumes "kv_lawful D holds" "evicts_lawful D bg holds"
    and "NewCache rnew fs e bs path = Some c" "holds (rist c) = {}" "faults fs = []" "\<forall>p. names fs p = None" "next_inode fs = 0"
    and "reach (pstep D bg truth) (new_csys c) s" "TGet g (PDone (b, None)) \<in> set (threads s)"
  shows "int (length b) = g_count g \<and> (g_count g = int (length (truth (g_key g))) \<longrightarrow> b = truth (g_key g))"
proof -
  have "thread_right truth (shared s) (TGet g (PDone (b, None)))"
    using reach_bytes_inv [where holds = holds, OF assms(1-8)] assms(9) by (auto simp: bytes_inv_def)
  then show ?thesis by (auto simp: sound_bytes_def)
qed

text \<open>A run in which the third-party cache keeps everything: two callers of the same chunk, of which the first
  fetches and the second waits for it.\<close>

definition none_out :: "(string \<times> nat) list \<Rightarrow> nat list \<Rightarrow> (string \<times> nat) list \<Rightarrow> bool" where
  "none_out rc out rc' \<longleftrightarrow> False"

lemma keep_all_keeps: "kv_lawful keep_all set" "evicts_lawful keep_all none_out set" "keeps_entries keep_all none_out set"
  by (auto simp: kv_lawful_def evicts_lawful_def keeps_entries_def keep_all_def none_out_def map_of_SomeD weak_map_of_SomeI map_of_eq_None_iff)

definition no_evict :: "'x act list \<Rightarrow> bool" where
  "no_evict as \<longleftrightarrow> list_all (\<lambda>a. case a of Evict \<Rightarrow> False | _ \<Rightarrow> True) as"

lemma run_keeps:
  assumes "run keep_all ev as s = Some s'" "no_evict as" "reach (\<lambda>s s'. cstep keep_all none_out s s' \<and> P s') s0 s"
    and "\<And>bs cs s1. as = bs @ cs \<Longrightarrow> run keep_all ev bs s = Some s1 \<Longrightarrow> P s1"
  shows "reach (\<lambda>s s'. cstep keep_all none_out s s' \<and> P s') s0 s'"
  using assms
proof (induction as arbitrary: s)
  case (Cons a as)
  then obtain s1 where s1: "perform keep_all ev a s = Some s1" "run keep_all ev as s1 = Some s'"
    by (auto split: option.splits)
  have "cstep keep_all none_out s s1"
    using s1(1) Cons.prems(2)
    by (cases a) (auto simp: no_evict_def intro: cstep.intros cmove.intros split: if_splits option.splits prod.splits)
  moreover have "P s1"
    using Cons.prems(4) [of "[a]" as s1] s1(1) by simp
  ultimately have "reach (\<lambda>s s'. cstep keep_all none_out s s' \<and> P s') s0 s1"
    using Cons.prems(3) by (blast intro: reach_step)
  show ?case
  proof (rule Cons.IH [OF s1(2)])
    show "reach (\<lambda>s s'. cstep keep_all none_out s s' \<and> P s') s0 s1" by fact
    show "no_evict as" using Cons.prems(2) by (simp add: no_evict_def)
    show "P s2" if "as = bs @ cs" "run keep_all ev bs s1 = Some s2" for bs cs s2
      using Cons.prems(4) [of "a # bs" cs s2] that s1(1) by simp
  qed
qed simp

lemma empty_cache_start:
  "set (rist (empty_cache e)) = {}" "faults (os (empty_cache e)) = []" "\<forall>p. names (os (empty_cache e)) p = None"
  "next_inode (os (empty_cache e)) = 0"
  by (simp_all add: empty_cache_def)

fun result_of :: "'x thread \<Rightarrow> (byte list \<times> goerr option) option" where
  "result_of (TGet g (PDone x)) = Some x"
| "result_of _ = None"

lemma result_of_Some: "result_of t = Some x \<Longrightarrow> \<exists>g. t = TGet g (PDone x)"
  by (cases t rule: result_of.cases) auto

text \<open>Both calls to their end.\<close>

definition both_done :: "nat act list" where
  "both_done = two_calls @ map Go (replicate 9 0 @ replicate 8 1)"

lemma both_done_calls:
  assumes "both_done = bs @ cs" "run keep_all all_out bs start = Some s" "TGet g p \<in> set (threads s)"
  shows "g = call_78"
proof -
  have "Call g \<in> set both_done"
    unfolding assms(1) using run_calls [OF assms(2,3)] by (auto simp: start_def new_csys_def)
  then show ?thesis by (auto simp: both_done_def two_calls_def)
qed

lemma both_done_reach:
  assumes "run keep_all all_out both_done start = Some s" "\<And>s. (\<And>g p. TGet g p \<in> set (threads s) \<Longrightarrow> g = call_78) \<Longrightarrow> P s"
  shows "reach (\<lambda>s s'. cstep keep_all none_out s s' \<and> P s') (new_csys (empty_cache 0)) s"
proof (rule run_keeps [OF assms(1)])
  show "no_evict both_done" by code_simp
qed (use assms(2) both_done_calls in \<open>auto simp: start_def intro: reach_init\<close>)

lemma both_done_runs:
  "\<exists>s. run keep_all all_out both_done start = Some s \<and> map result_of (threads s)
     = [Some ([7, 8], None), Some ([7, 8], None)] \<and> fetched s = [0]"
proof -
  have "map_option (\<lambda>s. (map result_of (threads s), fetched s)) (run keep_all all_out both_done start)
     = Some ([Some ([7, 8], None), Some ([7, 8], None)], [0])"
    by code_simp
  then show ?thesis by auto
qed

theorem concurrent_calls_right_witness:
  "\<exists>s. run keep_all all_out both_done start = Some s \<and> length (threads s) = 2 \<and> (\<forall>t \<in> set (threads s). t = TGet call_78 (PDone ([7, 8], None)))"
proof -
  let ?truth = "\<lambda>_ :: string. [7, 8 :: byte]"
  obtain s where s: "run keep_all all_out both_done start = Some s"
    "map result_of (threads s) = [Some ([7, 8], None), Some ([7, 8], None)]"
    using both_done_runs by (elim exE conjE) (rule that)
  have fr: "fetch_right [7, 8] (g_fetch call_78)"
    by (simp add: call_78_def fetch_right_def fetch_78_def)
  have cr: "calls_right ?truth s" if "\<And>g p. TGet g p \<in> set (threads s) \<Longrightarrow> g = call_78" for s :: "((string \<times> nat) list, nat) csys"
    unfolding calls_right_def by (intro allI impI) (drule that, simp add: fr)
  have "reach (\<lambda>s s'. cstep keep_all none_out s s' \<and> calls_right ?truth s') (new_csys (empty_cache 0)) s"
    by (rule both_done_reach [OF s(1)]) (rule cr)
  then have "reach (pstep keep_all none_out ?truth) (new_csys (empty_cache 0)) s"
    by (rule reach_mono [OF conjunct1 [OF reach_keeps_private [where truth = ?truth, OF keep_all_keeps empty_cache_is_NewCache empty_cache_start]]]) simp_all
  note right = concurrent_calls_right [OF keep_all_keeps(1,2) empty_cache_is_NewCache empty_cache_start this]
  have fin: "\<exists>g b. t = TGet g (PDone (b, None))" if "t \<in> set (threads s)" for t
    using s(2) that by (auto simp: map_eq_Cons_conv dest!: result_of_Some)
  have "g = call_78" if "TGet g p \<in> set (threads s)" for g p
    using both_done_calls [of both_done "[]"] s(1) that by auto
  then have "t = TGet call_78 (PDone ([7, 8], None))" if "t \<in> set (threads s)" for t
    using fin [OF that] right that by (fastforce simp: call_78_def)
  then show ?thesis
    using s by (metis length_Cons length_map list.size(3) numeral_2_eq_2)
qed

end
