(* ===== verification/SingleFlight.thy ===== *)
theory SingleFlight
  imports Interleaved
begin

text \<open>
  A chunk is fetched once, however many callers ask for it at the same time: an item for which a fetch ran is
  being filled by the goroutine that holds its write lock, or its file is full.
\<close>

section \<open>Definitions\<close>

text \<open>A fetch that succeeds, and calls that ask for whole chunks.\<close>

definition fetch_succeeds :: "byte list \<Rightarrow> ('x, byte list \<times> goerr option) go \<Rightarrow> bool" where
  "fetch_succeeds want fetch \<longleftrightarrow> (\<forall>e. fst (fetch e) = Ret (want, None))"

definition calls_whole :: "(string \<Rightarrow> byte list) \<Rightarrow> ('rc, 'x) csys \<Rightarrow> bool" where
  "calls_whole truth s \<longleftrightarrow> (\<forall>g p. TGet g p \<in> set (threads s) \<longrightarrow>
     fetch_succeeds (truth (g_key g)) (g_fetch g) \<and> g_count g = int (length (truth (g_key g))))"

definition fstep :: "'rc deps \<Rightarrow> ('rc \<Rightarrow> nat list \<Rightarrow> 'rc \<Rightarrow> bool) \<Rightarrow> (string \<Rightarrow> byte list) \<Rightarrow> ('rc, 'x) csys \<Rightarrow> ('rc, 'x) csys \<Rightarrow> bool" where
  "fstep D bg truth s s' \<longleftrightarrow> cstep D bg s s' \<and> private_files (shared s') \<and> calls_whole truth s'"

fun filling :: "'x thread \<Rightarrow> nat option" where
  "filling (TGet g (PTruncate r b)) = Some r"
| "filling (TGet g (PWrite r b)) = Some r"
| "filling _ = None"

text \<open>A call fetches only into an open file of the wrong length, and writes into a file that was not written
  before.\<close>

fun fill_ok :: "(string \<Rightarrow> byte list) \<Rightarrow> ('rc, 'x) cstate \<Rightarrow> 'x thread \<Rightarrow> bool" where
  "fill_ok truth c (TGet g (PFetch r)) \<longleftrightarrow> (\<exists>h. item_file (items c r) = Some h \<and> fopen h
     \<and> length (content (os c) h) \<noteq> length (truth (g_key g)))"
| "fill_ok truth c (TGet g (PTruncate r b)) \<longleftrightarrow> (\<exists>h. item_file (items c r) = Some h \<and> fopen h \<and> fpos h = 0)"
| "fill_ok truth c (TGet g (PWrite r b)) \<longleftrightarrow> (\<exists>h. item_file (items c r) = Some h \<and> fopen h \<and> fpos h = 0
     \<and> content (os c) h = [])"
| "fill_ok truth c (TGet g (PRemove r e)) \<longleftrightarrow> False"
| "fill_ok truth c (TGet g (PCrashW r q)) \<longleftrightarrow> False"
| "fill_ok truth c _ \<longleftrightarrow> True"

text \<open>\<open>was\<close>: a fetch ran for the item; \<open>now\<close>: its file is being written.\<close>

definition item_once :: "(string \<Rightarrow> byte list) \<Rightarrow> bool \<Rightarrow> bool \<Rightarrow> ('rc, 'x) cstate \<Rightarrow> nat \<Rightarrow> bool" where
  "item_once truth was now c r \<longleftrightarrow> (if was then now \<or> (\<forall>h. item_file (items c r) = Some h \<and> fopen h \<longrightarrow>
       content (os c) h = truth (item_key (items c r)))
     else \<not> now \<and> (\<forall>h. item_file (items c r) = Some h \<longrightarrow> fpos h = 0))"

definition once_inv :: "(string \<Rightarrow> byte list) \<Rightarrow> ('rc, 'x) csys \<Rightarrow> bool" where
  "once_inv truth s \<longleftrightarrow> distinct (fetched s) \<and> (\<forall>r \<in> set (fetched s). r < next_item (shared s))
     \<and> (\<forall>t \<in> set (threads s). fill_ok truth (shared s) t)
     \<and> (\<forall>r < next_item (shared s). item_once truth (r \<in> set (fetched s)) (\<exists>t \<in> set (threads s). filling t = Some r) (shared s) r)"

section \<open>One action\<close>

lemma fetch_succeedsD: "fetch_succeeds want fetch \<Longrightarrow> \<exists>e'. fetch e = (Ret (want, None), e')"
  by (metis fetch_succeeds_def prod.collapse)

lemma fetch_succeeds_right: "fetch_succeeds want fetch \<Longrightarrow> fetch_right want fetch"
  unfolding fetch_succeeds_def fetch_right_def by (metis fst_conv outcome.inject(1) prod.inject)

lemma filling_holds: "filling t = Some r \<Longrightarrow> holds_w t = Some r"
  by (cases t rule: filling.cases) auto

lemma thread_step_filling:
  "thread_step D t c = Some (t', out, c') \<Longrightarrow> filling t' = Some r \<Longrightarrow> holds_w t = Some r"
  by (erule thread_step_E; hypsubst) (auto elim!: get_step.elims split: step_splits)

lemma fetching_cases: "fetching t = [] \<or> (\<exists>g r. t = TGet g (PFetch r) \<and> fetching t = [r])"
  by (cases t rule: fetching.cases) auto

lemma fetching_holds: "fetching t = [r] \<Longrightarrow> holds_w t = Some r" "r \<in> set (fetching t) \<longleftrightarrow> fetching t = [r]" "distinct (fetching t)"
  using fetching_cases [of t] by auto

text \<open>The action of a goroutine that holds the item's write lock.\<close>

lemma fill_action:
  assumes "thread_step D t c = Some (t', out, c')" "faults (os c) = []" "holds_w t = Some r" "ref_ok c t"
    and "fill_ok truth c t" "thread_right truth c t" "item_once truth was (filling t = Some r) c r"
    and "\<And>g p. t = TGet g p \<Longrightarrow> fetch_succeeds (truth (g_key g)) (g_fetch g) \<and> g_count g = int (length (truth (g_key g)))"
  shows "fill_ok truth c' t' \<and> item_once truth (was \<or> fetching t = [r]) (filling t' = Some r) c' r \<and> (fetching t = [r] \<longrightarrow> \<not> was)"
proof -
  note calmD = os_calm [OF assms(2)]
  show ?thesis
    using assms(1)
  proof (cases rule: thread_step_E)
    case (get g p p')
    have ok: "fetch_succeeds (truth (g_key g)) (g_fetch g)" "g_count g = int (length (truth (g_key g)))"
      using assms(8) get(1) by auto
    consider "p = PStat2 r" | "p = PFetch r" | b where "p = PTruncate r b" | b where "p = PWrite r b" | e where "p = PWUnlock r e"
      using get(1) assms(3,5) by (cases p) auto
    then show ?thesis
    proof cases
      case 1
      obtain x fs where st: "os_Stat (os c) (item_file (items c r)) = (x, fs)" by fastforce
      with calmD(1) have fs: "fs = os c" by blast
      show ?thesis
        using 1 get assms(7) ok(2) st fs os_Stat_size [OF assms(2), of "item_file (items c r)"]
        by (cases x) (auto simp: item_once_def split: if_splits)
    next
      case 2
      with get assms(4,5,7) fetch_succeedsD [OF ok(1), of "env c"] show ?thesis
        by (auto simp: item_once_def ref_ok_def split: if_splits)
    next
      case 3
      with get assms(5,7) show ?thesis
        by (auto simp: item_once_def content_def os_Truncate_def assms(2))
    next
      case 4
      with get assms(4-7) ok(2) show ?thesis
        by (auto simp: item_once_def ref_ok_def content_def write_at_empty os_Write_def Let_def assms(2))
    next
      case 5
      with get assms(7) show ?thesis
        by (cases e) (auto simp: item_once_def)
    qed
  next
    case (exists p p')
    with assms(2-7) show ?thesis
      by (cases "(D, p, c)" rule: exists_step.cases) (auto simp: item_once_def split: step_splits dest!: calmD)
  next
    case (dropping p p')
    with assms(2-7) show ?thesis
      by (cases "(p, c)" rule: drop_step.cases) (auto simp: item_once_def do_Remove_calm split: step_splits dest!: calmD)
  qed
qed

lemma os_OpenFile_pos: "os_OpenFile fs p = (Inr h, fs') \<Longrightarrow> fpos h = 0"
  by (auto simp: os_OpenFile_def Let_def split: step_splits io_fault.splits)

lemma new_item_pos:
  assumes "thread_step D t c = Some (t', out, c')" "next_item c \<le> r" "r < next_item c'"
  shows "\<exists>h. item_file (items c' r) = Some h \<and> fpos h = 0"
  using assms(1)
proof (cases rule: thread_step_E)
  case (get g p p')
  show ?thesis
  proof (cases "p = PNew")
    case True
    show ?thesis
    proof (cases rule: newItem_cases [of "g_key g" c])
      case (opens h fs k)
      then have "fpos h = 0" using os_OpenFile_pos by blast
      with opens(1) get True assms(2,3) show ?thesis by (auto simp: less_Suc_eq)
    qed (use get True assms(2,3) in auto)
  next
    case False
    with get assms(2,3) show ?thesis
      by (cases "(D, g, p, c)" rule: get_step.cases) (auto split: step_splits)
  qed
next
  case (exists p p')
  with assms(2,3) show ?thesis
    by (cases "(D, p, c)" rule: exists_step.cases) (auto split: step_splits)
next
  case (dropping p p')
  with assms(2,3) show ?thesis
    by (cases "(p, c)" rule: drop_step.cases) (auto split: step_splits)
qed

lemma fill_ok_idle: "thread_step D t c = Some (t', out, c') \<Longrightarrow> holds_w t = None \<Longrightarrow> fill_ok truth c' t'"
  by (erule thread_step_E; hypsubst) (auto elim!: get_step.elims split: step_splits)

lemma fill_ok_stable:
  assumes "thread_step D t c = Some (t', out, c')" "owned_inv truth own (os c) (items c)" "private_files c"
    and "fill_ok truth c u" "ref_ok c u" "\<And>r. holds_w u = Some r \<Longrightarrow> holds_w t \<noteq> Some r"
  shows "fill_ok truth c' u"
proof (cases "holds_w u")
  case None
  with assms(4) show ?thesis by (cases "(truth, c, u)" rule: fill_ok.cases) auto
next
  case (Some r)
  then have r: "r < next_item c" "holds_w t \<noteq> Some r"
    using assms(5,6) holds_item(1) by (auto simp: ref_ok_def)
  from assms(4) Some file_stable [OF assms(1-3) r] show ?thesis
    by (cases "(truth, c, u)" rule: fill_ok.cases) auto
qed

lemma item_once_stable:
  assumes "thread_step D t c = Some (t', out, c')" "owned_inv truth own (os c) (items c)" "private_files c"
    and "r < next_item c" "holds_w t \<noteq> Some r" "item_once truth was now c r"
  shows "item_once truth was now c' r"
  using assms(6) file_stable [OF assms(1-5)] thread_step_items [OF assms(1), of r] assms(4)
  by (auto simp: item_once_def split: if_splits)

section \<open>All goroutines\<close>

lemma droppers_fill [simp]: "u \<in> set (droppers out) \<Longrightarrow> filling u = None" "u \<in> set (droppers out) \<Longrightarrow> fill_ok truth c u"
  by (auto simp: droppers_def)

text \<open>The goroutine that acts, when it holds the write lock of \<open>r\<close>.\<close>

lemma once_action:
  assumes "bytes_inv holds truth s" "once_inv truth s" "calls_whole truth s" "i < length (threads s)"
    and "thread_step D (threads s ! i) (shared s) = Some (t, out, c)" "holds_w (threads s ! i) = Some r"
  shows "fill_ok truth c t" "item_once truth (r \<in> set (fetched s) \<or> fetching (threads s ! i) = [r]) (filling t = Some r) c r"
    "fetching (threads s ! i) = [r] \<Longrightarrow> r \<notin> set (fetched s)" "r < next_item (shared s)"
    "\<And>j. j < length (threads s) \<Longrightarrow> j \<noteq> i \<Longrightarrow> holds_w (threads s ! j) \<noteq> Some r"
proof -
  let ?t = "threads s ! i"
  have inv: "sys_inv holds s" "faults (os (shared s)) = []" and i: "?t \<in> set (threads s)"
    and t: "thread_right truth (shared s) ?t" "ref_ok (shared s) ?t" "fill_ok truth (shared s) ?t"
    using assms(1,2,4) by (auto simp: bytes_inv_def sys_inv_def refs_inv_def once_inv_def owned_inv_def)
  show r: "r < next_item (shared s)"
    using t(2) holds_item(1) [OF assms(6)] by (simp add: ref_ok_def)
  show ex: "holds_w (threads s ! j) \<noteq> Some r" if "j < length (threads s)" "j \<noteq> i" for j
    using sys_inv_excl(1) [OF inv(1) assms(4) that(1) _ assms(6)] that(2) by blast
  then have "(\<exists>u \<in> set (threads s). filling u = Some r) \<longleftrightarrow> filling ?t = Some r"
    unfolding bex_at [OF assms(4)] using filling_holds by blast
  moreover have "item_once truth (r \<in> set (fetched s)) (\<exists>u \<in> set (threads s). filling u = Some r) (shared s) r"
    using r assms(2) by (simp add: once_inv_def)
  ultimately have once: "item_once truth (r \<in> set (fetched s)) (filling ?t = Some r) (shared s) r" by simp
  have call: "fetch_succeeds (truth (g_key g)) (g_fetch g) \<and> g_count g = int (length (truth (g_key g)))" if "?t = TGet g p" for g p
    using assms(3) i that unfolding calls_whole_def by metis
  have "fill_ok truth c t \<and> item_once truth (r \<in> set (fetched s) \<or> fetching ?t = [r]) (filling t = Some r) c r
      \<and> (fetching ?t = [r] \<longrightarrow> r \<notin> set (fetched s))"
    by (rule fill_action [OF assms(5) inv(2) assms(6) t(2,3,1) once]) (rule call)
  then show "fill_ok truth c t" "item_once truth (r \<in> set (fetched s) \<or> fetching ?t = [r]) (filling t = Some r) c r"
    "fetching ?t = [r] \<Longrightarrow> r \<notin> set (fetched s)" by blast+
qed

lemma once_items:
  assumes "bytes_inv holds truth s" "once_inv truth s" "calls_whole truth s" "i < length (threads s)"
    and "thread_step D (threads s ! i) (shared s) = Some (t, out, c)" "r < next_item c"
  shows "item_once truth (r \<in> set (fetched s @ fetching (threads s ! i)))
    (\<exists>u \<in> set ((threads s)[i := t] @ droppers out). filling u = Some r) c r"
proof -
  let ?t = "threads s ! i" and ?others = "\<exists>j < length (threads s). j \<noteq> i \<and> filling (threads s ! j) = Some r"
  obtain own where own: "owned_inv truth own (os (shared s)) (items (shared s))" "private_files (shared s)"
    using assms(1) by (auto simp: bytes_inv_def)
  have now: "(\<exists>u \<in> set ((threads s)[i := t] @ droppers out). filling u = Some r) \<longleftrightarrow> filling t = Some r \<or> ?others"
    unfolding bex_update [OF assms(4)] by auto
  have was: "r \<in> set (fetched s @ fetching ?t) \<longleftrightarrow> r \<in> set (fetched s) \<or> fetching ?t = [r]"
    by (simp add: fetching_holds(2))
  consider "next_item (shared s) \<le> r" | "holds_w ?t = Some r" | "r < next_item (shared s)" "holds_w ?t \<noteq> Some r" by linarith
  then show ?thesis
  proof cases
    case 1
    have "holds_w u \<noteq> Some r" if "u \<in> set (threads s)" for u
      using assms(1) that 1 holds_item(1) [of u r] by (fastforce simp: bytes_inv_def sys_inv_def refs_inv_def ref_ok_def)
    then have no: "holds_w ?t \<noteq> Some r" "\<not> ?others"
      using assms(4) filling_holds by (metis nth_mem)+
    then have "filling t \<noteq> Some r" "fetching ?t \<noteq> [r]"
      using thread_step_filling [OF assms(5)] fetching_holds(1) by blast+
    moreover have "r \<notin> set (fetched s)"
      using assms(2) 1 by (auto simp: once_inv_def)
    ultimately show ?thesis
      unfolding was now using new_item_pos [OF assms(5) 1 assms(6)] no by (auto simp: item_once_def)
  next
    case 2
    note act = once_action [OF assms(1-5) 2]
    have "filling t = Some r \<or> ?others \<longleftrightarrow> filling t = Some r" using act(5) filling_holds by blast
    with act(2) show ?thesis unfolding was now by (simp only:)
  next
    case 3
    have "item_once truth (r \<in> set (fetched s)) (filling ?t = Some r \<or> ?others) (shared s) r"
      using assms(2) 3(1) unfolding once_inv_def bex_at [OF assms(4)] by blast
    moreover have "filling ?t \<noteq> Some r" "filling t \<noteq> Some r" "fetching ?t \<noteq> [r]"
      using 3(2) filling_holds thread_step_filling [OF assms(5)] fetching_holds(1) by blast+
    ultimately have "item_once truth (r \<in> set (fetched s)) ?others (shared s) r" by simp
    from item_once_stable [OF assms(5) own 3 this] \<open>filling t \<noteq> Some r\<close> \<open>fetching ?t \<noteq> [r]\<close> show ?thesis unfolding was now by simp
  qed
qed

lemma once_inv_moved:
  assumes "bytes_inv holds truth s" "once_inv truth s" "calls_whole truth s" "cmove D s s'"
  shows "once_inv truth s'"
  using assms(4)
proof (cases rule: cmove.cases)
  case (1 i t out c)
  let ?t = "threads s ! i"
  note act = once_action [OF assms(1-3) 1(2,3)]
  obtain own where own: "owned_inv truth own (os (shared s)) (items (shared s))" "private_files (shared s)"
    using assms(1) by (auto simp: bytes_inv_def)
  have others: "fill_ok truth (shared s) u" "ref_ok (shared s) u" if "u \<in> set (threads s)" for u
    using assms(1,2) that by (auto simp: once_inv_def bytes_inv_def sys_inv_def refs_inv_def)
  have "fill_ok truth c u" if "u \<in> set ((threads s)[i := t] @ droppers out)" for u
    using that 1(2)
  proof (cases rule: update_membersE)
    case 1
    with act(1) fill_ok_idle [OF \<open>thread_step D _ _ = _\<close>] show ?thesis by (cases "holds_w ?t") auto
  next
    case (2 j)
    with fill_ok_stable [OF \<open>thread_step D _ _ = _\<close> own others, of u] act(5) show ?thesis by auto
  qed simp
  moreover have "distinct (fetched s @ fetching ?t) \<and> (\<forall>r \<in> set (fetched s @ fetching ?t). r < next_item c)"
    using assms(2) act(3,4) fetching_holds thread_step_items [OF 1(3)] by (fastforce simp: once_inv_def)
  ultimately show ?thesis
    using once_items [OF assms(1-3) 1(2,3)] unfolding 1(1) once_inv_def by simp
qed

lemma calls_whole_right: "calls_whole truth s \<Longrightarrow> calls_right truth s"
  unfolding calls_whole_def calls_right_def using fetch_succeeds_right by blast

lemma fill_ok_rist [simp]: "fill_ok truth (c\<lparr>rist := rc\<rparr>) t = fill_ok truth c t"
  by (cases "(truth, c, t)" rule: fill_ok.cases) auto

lemma once_inv_append:
  assumes "once_inv truth s" "\<And>u. u \<in> set ts \<Longrightarrow> filling u = None \<and> fill_ok truth (shared s) u"
  shows "once_inv truth (s\<lparr>threads := threads s @ ts\<rparr>)" "once_inv truth (s\<lparr>shared := (shared s)\<lparr>rist := rc\<rparr>, threads := threads s @ ts\<rparr>)"
proof -
  have "(\<exists>u \<in> set (threads s @ ts). filling u = Some r) \<longleftrightarrow> (\<exists>u \<in> set (threads s). filling u = Some r)" for r
    using assms(2) by auto
  with assms show "once_inv truth (s\<lparr>threads := threads s @ ts\<rparr>)" "once_inv truth (s\<lparr>shared := (shared s)\<lparr>rist := rc\<rparr>, threads := threads s @ ts\<rparr>)"
    by (auto simp: once_inv_def item_once_def)
qed

lemma fstep_inv:
  assumes "bytes_inv holds truth s \<and> once_inv truth s \<and> calls_whole truth s" "fstep D bg truth s s'" "kv_lawful D holds" "evicts_lawful D bg holds"
  shows "bytes_inv holds truth s' \<and> once_inv truth s' \<and> calls_whole truth s'"
proof -
  have st: "pstep D bg truth s s'" "cstep D bg s s'" "calls_whole truth s'"
    using assms(2) calls_whole_right by (auto simp: fstep_def pstep_def)
  have "once_inv truth s'"
    using st(2)
  proof (cases rule: cstep.cases)
    case moved
    with assms(1) once_inv_moved show ?thesis by blast
  qed (use assms(1) in \<open>auto intro: once_inv_append\<close>)
  with pstep_inv [OF _ st(1) assms(3,4)] assms(1) st(3) show ?thesis by blast
qed

section \<open>Claims\<close>



end
