(* ===== verification/Races.thy ===== *)
theory Races
  imports SingleFlight
begin

text \<open>
  Two interleavings with an eviction in which the cache does not do what it means to. Both are schedules of
  the concurrent model, evaluated step by step: no system call fails, and every fetch delivers the bytes
  \<open>[7, 8]\<close>.
\<close>

text \<open>Where each call stands.\<close>

fun point_of :: "'x thread \<Rightarrow> gpc option" where
  "point_of (TGet g p) = Some p"
| "point_of _ = None"

section \<open>An item dropped between filling and reading it\<close>

text \<open>The call fills the item and releases the write lock; the item is evicted and dropped; the call takes the
  read lock and reads.\<close>

definition dropped_before_read :: "nat act list" where
  "dropped_before_read = [Call call_78] @ map Go (replicate 15 0) @ [Evict] @ map Go (replicate 4 1) @ map Go (replicate 3 0)"

text \<open>C32: an eviction can crash a call. \<open>GetOrCreate\<close> releases the write lock after filling the item and takes
  the read lock again to read it. When the item is dropped in between, its file is nil, the read fails, and
  reporting that failure dereferences the nil file: the call panics with the read lock held, although its
  fetch succeeded and every system call did.\<close>

theorem eviction_crashes_call:
  "\<exists>s. reach (cstep keep_all (ev_rel all_out)) (new_csys (empty_cache (0::nat))) s
    \<and> map point_of (threads s) = [Some (PCrashR 0 NilDereference), None]
    \<and> readers (item_lock (items (shared s) 0)) = 1 \<and> fetched s = [0]"
proof -
  have "map_option (\<lambda>s. (map point_of (threads s), readers (item_lock (items (shared s) 0)), fetched s))
     (run keep_all all_out dropped_before_read start) = Some ([Some (PCrashR 0 NilDereference), None], 1, [0])"
    by code_simp
  then obtain s where s: "run keep_all all_out dropped_before_read start = Some s"
    "map point_of (threads s) = [Some (PCrashR 0 NilDereference), None]" "readers (item_lock (items (shared s) 0)) = 1" "fetched s = [0]"
    by auto
  from s(2-) show ?thesis by (intro exI [of _ s] conjI reach_run [OF s(1)])
qed

section \<open>Two items with one file\<close>

text \<open>Goroutines 0 and 1 ask for the chunk and get the same item; it is evicted, but the goroutine that drops
  it (2) does not run yet; goroutine 3 asks for the chunk, gets a new item, and opens the same file. Goroutine
  0 and goroutine 3 find the file empty and fetch; 0 writes, and when 3 truncates the file to write, 1 finds
  it empty again. It fetches and writes a second time through the first item, behind the first copy, while 3
  reads.\<close>

definition one_file :: "nat act list" where
  "one_file = [Call call_78, Call call_78] @ map Go (replicate 6 0 @ [1]) @ [Evict, Call call_78] @ map Go (replicate 6 3
     @ replicate 5 3 @ replicate 9 0 @ replicate 2 3 @ replicate 5 1 @ replicate 4 3 @ replicate 3 1 @ replicate 3 3)"

text \<open>C33: two items with one file can serve wrong bytes. An evicted item whose drop is still waiting and a new
  item for the same chunk have the same file but different locks. The fetches all deliver \<open>[7, 8]\<close>, and a
  call returns \<open>[0, 0]\<close> without an error.\<close>

theorem shared_file_serves_zeros:
  "\<exists>s. reach (cstep keep_all (ev_rel all_out)) (new_csys (empty_cache (0::nat))) s
    \<and> {g. \<exists>p. TGet g p \<in> set (threads s)} \<subseteq> {call_78}
    \<and> point_of (threads s ! 3) = Some (PDone ([0, 0], None))"
proof -
  have "map_option (\<lambda>s. point_of (threads s ! 3)) (run keep_all all_out one_file start) = Some (Some (PDone ([0, 0], None)))"
    by code_simp
  then obtain s where s: "run keep_all all_out one_file start = Some s" "point_of (threads s ! 3) = Some (PDone ([0, 0], None))"
    by auto
  have "g = call_78" if "TGet g p \<in> set (threads s)" for g p
    using run_calls [OF s(1) that] by (auto simp: one_file_def start_def new_csys_def)
  then have "{g. \<exists>p. TGet g p \<in> set (threads s)} \<subseteq> {call_78}" by blast
  with s(2) show ?thesis by (intro exI [of _ s] conjI reach_run [OF s(1)])
qed

end
