(* ===== verification/Adequacy.thy ===== *)
theory Adequacy
  imports Concurrent
begin

text \<open>
  The two models of the cache are one program. \<open>GetOrCreate\<close> and \<open>Exists\<close> of \<open>FileCache\<close> run a call without
  interruption; \<open>get_step\<close>, \<open>exists_step\<close> and \<open>drop_step\<close> of \<open>Concurrent\<close> take it apart into actions. Whatever a
  sequential call returns, the goroutine of the call reaches in the interleaved model when it is scheduled
  alone, with the same shared state, among any other goroutines, and the items that the third-party cache
  gives up on the way are dropped by goroutines of their own.
\<close>

section \<open>A call that runs alone\<close>

definition goes :: "'rc deps \<Rightarrow> 'x gcall \<Rightarrow> gpc \<Rightarrow> ('rc, 'x) cstate \<Rightarrow> gpc \<Rightarrow> ('rc, 'x) cstate \<Rightarrow> bool" where
  "goes D g p s q t \<longleftrightarrow> (\<lambda>(p, s) (q, t). get_step D g p s = Some (q, [], t))\<^sup>*\<^sup>* (p, s) (q, t)"

lemma goes_refl: "goes D g p s p s"
  by (simp add: goes_def)

lemma goes_step: "get_step D g p s = Some (p', [], s') \<Longrightarrow> goes D g p' s' q t \<Longrightarrow> goes D g p s q t"
  unfolding goes_def by (rule converse_rtranclp_into_rtranclp) auto

lemma goes_trans: "goes D g p s p' s' \<Longrightarrow> goes D g p' s' q t \<Longrightarrow> goes D g p s q t"
  unfolding goes_def by (rule rtranclp_trans)

lemma goes_read:
  assumes "read_loop (os s) (item_file (items s r)) n acc = ((b, err), fs)" "length acc \<le> n"
  shows "goes D g (PRead r n acc) s (if (err = None \<or> err = Some EOF) \<and> length b = n then PBytes r b else PFailed r) (s\<lparr>os := fs\<rparr>)"
  using assms
proof (induction "os s" "item_file (items s r)" n acc arbitrary: s rule: read_loop.induct)
  case (1 n acc)
  show ?case
  proof (cases "length acc < n")
    case True
    obtain c e fs1 where ra: "os_ReadAt (os s) (item_file (items s r)) (n - length acc) (length acc) = ((c, e), fs1)"
      by (metis prod.exhaust)
    show ?thesis
    proof (cases e)
      case None
      let ?s = "s\<lparr>os := fs1\<rparr>"
      have "goes D g (PRead r n (acc @ c)) ?s (if (err = None \<or> err = Some EOF) \<and> length b = n then PBytes r b else PFailed r) (?s\<lparr>os := fs\<rparr>)"
        by (rule 1(1) [of "(c, None)" ?s c None])
          (use 1(2,3) True ra None os_ReadAt_full in \<open>auto simp: read_loop.simps [of "os s"]\<close>)
      then show ?thesis
        using True ra None by (intro goes_step [where p = "PRead r n acc"]) auto
    next
      case (Some x)
      then show ?thesis
        using 1(2) True ra by (auto simp: read_loop.simps [of "os s"] intro!: goes_step [OF _ goes_refl] split: if_splits)
    qed
  next
    case False
    then show ?thesis
      using 1(2,3) by (intro goes_step [where p = "PRead r n acc"]) (auto simp: read_loop.simps goes_refl)
  qed
qed

lemma goes_bytes:
  assumes "item_bytes r s = (Ret b, s')"
  shows "goes D g (PReadStat r) s (PBytes r b) s'"
proof -
  obtain x fs where st: "os_Stat (os s) (item_file (items s r)) = (x, fs)" by fastforce
  show ?thesis
  proof (cases x)
    case (Inl e)
    with st assms show ?thesis
      by (auto simp: item_bytes_def readFromStart_def item_Name_def file_Name_def bind_apply ret_apply
          intro!: goes_step [OF _ goes_step [OF _ goes_refl]] split: option.splits)
  next
    case (Inr n)
    obtain c err fs' where l: "read_loop fs (item_file (items s r)) n [] = ((c, err), fs')" by (metis prod.exhaust)
    from goes_read [of "s\<lparr>os := fs\<rparr>" r n "[]" c err fs' D g] l
    have "goes D g (PRead r n []) (s\<lparr>os := fs\<rparr>) (if (err = None \<or> err = Some EOF) \<and> length c = n then PBytes r c else PFailed r) (s\<lparr>os := fs'\<rparr>)"
      by simp
    moreover have "goes D g (if (err = None \<or> err = Some EOF) \<and> length c = n then PBytes r c else PFailed r) (s\<lparr>os := fs'\<rparr>) (PBytes r b) s'"
      using assms st Inr l
      by (auto simp: item_bytes_def readFromStart_def item_Name_def file_Name_def bind_apply ret_apply Let_def
          intro: goes_refl goes_step [OF _ goes_refl] split: option.splits if_splits)
    ultimately have "goes D g (PRead r n []) (s\<lparr>os := fs\<rparr>) (PBytes r b) s'" by (rule goes_trans)
    with st Inr show ?thesis by (auto intro: goes_step)
  qed
qed

text \<open>The result of a fill, as the error that \<open>GetOrCreate\<close> returns.\<close>

definition fill_error :: "int \<Rightarrow> nat \<times> goerr option \<Rightarrow> goerr option" where
  "fill_error cnt x = (case x of (n, Some e) \<Rightarrow> Some e | (n, None) \<Rightarrow> if int n \<noteq> cnt then Some (FillCount cnt (int n)) else None)"

lemma goes_fill:
  assumes "item_fill r (g_fetch g) s = (Ret x, s')"
  shows "goes D g (PFetch r) s (PWUnlock r (fill_error (g_count g) x)) s'"
proof -
  obtain y e' where f: "g_fetch g (env s) = (y, e')" by fastforce
  with assms obtain b er where y: "y = Ret (b, er)"
    by (cases y) (auto simp: item_fill_def run_fetch_def bind_apply)
  show ?thesis
  proof (cases er)
    case (Some err)
    with assms f y obtain h where "item_file (items s r) = Some h"
      by (cases "item_file (items s r)") (auto simp: item_fill_def run_fetch_def bind_apply item_Name_def file_Name_def)
    with assms f y Some show ?thesis
      by (auto simp: item_fill_def run_fetch_def bind_apply item_Name_def file_Name_def do_Remove_def ret_apply fill_error_def
          intro!: goes_step [OF _ goes_step [OF _ goes_refl]] split: prod.splits)
  next
    case None
    let ?s = "s\<lparr>env := e'\<rparr>"
    obtain t fs where tr: "os_Truncate (os s) (item_file (items s r)) = (t, fs)" by fastforce
    have w: "(case writeAll (os s) (item_file (items s r)) b of (x, f, fs) \<Rightarrow> (x, upd_item r (\<lambda>i. i\<lparr>item_file := f\<rparr>) (?s\<lparr>os := fs\<rparr>))) = (Ret x, s')"
      using assms f y None by (simp add: item_fill_def run_fetch_def bind_apply)
    have "goes D g (PTruncate r b) ?s (PWUnlock r (fill_error (g_count g) x)) s'"
    proof (cases t)
      case (Some e)
      with w tr show ?thesis
        by (auto simp: writeAll_def fill_error_def upd_item_def intro!: goes_step [OF _ goes_refl])
    next
      case None
      obtain l e f fs' where wr: "os_Write fs (item_file (items s r)) b = ((l, e), f, fs')" by (metis prod.exhaust)
      show ?thesis
      proof (cases e)
        case None
        with w tr wr \<open>t = None\<close> show ?thesis
          by (auto simp: writeAll_def fill_error_def upd_item_def intro!: goes_step [OF _ goes_step [OF _ goes_refl]])
      next
        case (Some err)
        with w tr wr \<open>t = None\<close> show ?thesis
          by (cases f) (auto simp: writeAll_def fill_error_def upd_item_def file_Name_def do_Remove_def
            intro!: goes_step [OF _ goes_step [OF _ goes_step [OF _ goes_refl]]] split: prod.splits)
      qed
    qed
    with f y None show ?thesis
      by (auto intro: goes_step)
  qed
qed

lemma goes_fill_locked:
  assumes "fill_locked r (g_count g) (g_fetch g) s = (Ret err, s')"
  shows "goes D g (PStat2 r) s (case err of None \<Rightarrow> PRLock2 r | Some e \<Rightarrow> PDone ([], Some e)) s'"
proof -
  obtain x fs where st: "os_Stat (os s) (item_file (items s r)) = (x, fs)" by fastforce
  let ?s = "s\<lparr>os := fs\<rparr>"
  show ?thesis
  proof (cases "\<exists>sz. x = Inr sz \<and> int sz \<noteq> g_count g")
    case False
    with st assms show ?thesis
      by (auto simp: fill_locked_def item_Stat_def item_Unlock_def bind_apply ret_apply modify_apply
          intro!: goes_step [OF _ goes_step [OF _ goes_refl]] split: sum.splits)
  next
    case True
    with assms st obtain y s1 where f: "item_fill r (g_fetch g) ?s = (Ret y, s1)"
      by (cases "item_fill r (g_fetch g) ?s"; cases "fst (item_fill r (g_fetch g) ?s)")
        (auto simp: fill_locked_def item_Stat_def bind_apply)
    with assms st True have "err = fill_error (g_count g) y" "s' = snd (item_Unlock r s1)"
      by (auto simp: fill_locked_def item_Stat_def item_Unlock_def bind_apply ret_apply modify_apply fill_error_def
          split: prod.splits option.splits if_splits)
    then have "goes D g (PWUnlock r (fill_error (g_count g) y)) s1 (case err of None \<Rightarrow> PRLock2 r | Some e \<Rightarrow> PDone ([], Some e)) s'"
      by (cases "fill_error (g_count g) y") (auto intro!: goes_step [OF _ goes_refl])
    with goes_fill [OF f, of D] have "goes D g (PFetch r) ?s (case err of None \<Rightarrow> PRLock2 r | Some e \<Rightarrow> PDone ([], Some e)) s'"
      by (rule goes_trans)
    with st True show ?thesis by (auto intro: goes_step)
  qed
qed

lemma goes_RLock:
  "item_RLock r s = (Ret u, s') \<Longrightarrow> get_step D g (PRLock r) s = Some (PStat r, [], s')"
  "item_RLock r s = (Ret u, s') \<Longrightarrow> get_step D g (PRLock2 r) s = Some (PReadStat r, [], s')"
  by (auto simp: item_RLock_def split: if_splits)

lemma goes_Lock: "item_Lock r s = (Ret u, s') \<Longrightarrow> get_step D g (PWLock r) s = Some (PStat2 r, [], s')"
  by (auto simp: item_Lock_def unlocked_def split: if_splits intro: rwmutex.equality)

lemma goes_ensure_filled:
  assumes "ensure_filled r (g_count g) (g_fetch g) s = (Ret err, s')"
  shows "goes D g (PRLock r) s (case err of None \<Rightarrow> PReadStat r | Some e \<Rightarrow> PDone ([], Some e)) s'"
proof -
  obtain s1 where l: "item_RLock r s = (Ret (), s1)"
    using assms by (auto simp: ensure_filled_def bind_apply item_RLock_def split: if_splits)
  obtain x fs where st: "os_Stat (os s1) (item_file (items s1 r)) = (x, fs)" by fastforce
  let ?s = "s1\<lparr>os := fs\<rparr>" and ?u = "snd (item_RUnlock r (s1\<lparr>os := fs\<rparr>))"
  have "goes D g (PStat r) s1 (case err of None \<Rightarrow> PReadStat r | Some e \<Rightarrow> PDone ([], Some e)) s'"
  proof (cases "\<exists>sz. x = Inr sz \<and> int sz \<noteq> g_count g")
    case False
    show ?thesis
    proof (cases x)
      case (Inl e)
      with l st assms show ?thesis
        by (auto simp: ensure_filled_def item_Stat_def item_RUnlock_def bind_apply ret_apply modify_apply intro!: goes_step [OF _ goes_step [OF _ goes_refl]])
    qed (use False l st assms in \<open>auto simp: ensure_filled_def item_Stat_def bind_apply ret_apply intro!: goes_step [OF _ goes_refl]\<close>)
  next
    case True
    then have e: "bind (item_Lock r) (\<lambda>_. bind (fill_locked r (g_count g) (g_fetch g)) (\<lambda>err. case err of
        Some e \<Rightarrow> ret (Some e) | None \<Rightarrow> bind (item_RLock r) (\<lambda>_. ret None))) ?u = (Ret err, s')"
      using l st assms by (auto simp: ensure_filled_def item_Stat_def item_RUnlock_def bind_apply modify_apply)
    then obtain s2 where l2: "item_Lock r ?u = (Ret (), s2)"
      by (auto simp: bind_apply item_Lock_def split: if_splits)
    with e obtain er s3 where f: "fill_locked r (g_count g) (g_fetch g) s2 = (Ret er, s3)"
      by (cases "fill_locked r (g_count g) (g_fetch g) s2"; cases "fst (fill_locked r (g_count g) (g_fetch g) s2)") (auto simp: bind_apply)
    have "goes D g (case er of None \<Rightarrow> PRLock2 r | Some e \<Rightarrow> PDone ([], Some e)) s3 (case err of None \<Rightarrow> PReadStat r | Some e \<Rightarrow> PDone ([], Some e)) s'"
    proof (cases er)
      case None
      with e l2 f obtain s4 where "item_RLock r s3 = (Ret (), s4)" "err = None" "s' = s4"
        by (cases "item_RLock r s3"; cases "fst (item_RLock r s3)") (auto simp: bind_apply ret_apply)
      from goes_step [OF goes_RLock(2) [OF this(1)] goes_refl] this None show ?thesis by simp
    qed (use e l2 f in \<open>auto simp: bind_apply ret_apply goes_refl\<close>)
    note w = goes_step [OF goes_Lock [OF l2] goes_trans [OF goes_fill_locked [OF f] this]]
    have "goes D g (PRUnlock r None) ?s (case err of None \<Rightarrow> PReadStat r | Some e \<Rightarrow> PDone ([], Some e)) s'"
      by (rule goes_step [OF _ w]) simp
    then show ?thesis by (rule goes_step [rotated]) (use st True in auto)
  qed
  with goes_RLock(1) [OF l] show ?thesis by (rule goes_step)
qed

lemma goes_serve_item:
  assumes "serve_item r (g_count g) (g_fetch g) s = (Ret x, s')"
  shows "goes D g (PRLock r) s (PDone x) s'"
proof -
  obtain err s1 where e: "ensure_filled r (g_count g) (g_fetch g) s = (Ret err, s1)"
    using assms by (cases "ensure_filled r (g_count g) (g_fetch g) s"; cases "fst (ensure_filled r (g_count g) (g_fetch g) s)")
      (auto simp: serve_item_def bind_apply)
  have "goes D g (case err of None \<Rightarrow> PReadStat r | Some e \<Rightarrow> PDone ([], Some e)) s1 (PDone x) s'"
  proof (cases err)
    case None
    with assms e obtain b s2 where b: "item_bytes r s1 = (Ret b, s2)"
      by (cases "item_bytes r s1"; cases "fst (item_bytes r s1)") (auto simp: serve_item_def bind_apply)
    have "goes D g (PBytes r b) s2 (PDone x) s'"
      using assms e None b by (auto simp: serve_item_def bind_apply ret_apply item_RUnlock_def modify_apply intro!: goes_step [OF _ goes_refl])
    with goes_bytes [OF b] None show ?thesis by (auto intro: goes_trans)
  qed (use assms e in \<open>auto simp: serve_item_def bind_apply ret_apply goes_refl\<close>)
  with goes_ensure_filled [OF e] show ?thesis by (rule goes_trans)
qed

section \<open>Among other goroutines\<close>

lemma cmove_get:
  assumes "goes D g p c q c'" "i < length (threads s)" "threads s ! i = TGet g p" "shared s = c"
  shows "\<exists>F. (cmove D)\<^sup>*\<^sup>* s (s\<lparr>shared := c', threads := (threads s)[i := TGet g q], fetched := fetched s @ F\<rparr>)"
  using assms(1) unfolding goes_def
proof (induction "(q, c')" arbitrary: q c' rule: rtranclp_induct)
  case base
  have "(threads s)[i := TGet g p] = threads s" using assms(3) by (metis list_update_id)
  with assms(4) show ?case by (intro exI [of _ "[]"]) (cases s, simp)
next
  case (step y)
  obtain p1 c1 where y: "y = (p1, c1)" by fastforce
  with step(3) obtain F where F: "(cmove D)\<^sup>*\<^sup>* s (s\<lparr>shared := c1, threads := (threads s)[i := TGet g p1], fetched := fetched s @ F\<rparr>)" by blast
  let ?t = "s\<lparr>shared := c1, threads := (threads s)[i := TGet g p1], fetched := fetched s @ F\<rparr>"
  have "thread_step D (threads ?t ! i) (shared ?t) = Some (TGet g q, [], c')"
    using step(2) y assms(2) by (simp add: thread_step_def)
  from cmove.intros [OF _ this] assms(2) have "\<exists>F'. cmove D ?t (s\<lparr>shared := c', threads := (threads s)[i := TGet g q], fetched := fetched s @ F'\<rparr>)"
    by (auto simp: droppers_def)
  with F show ?case by (meson rtranclp.rtrancl_into_rtrancl)
qed

lemma cmove_thread:
  assumes "i < length (threads s)" "threads s ! i = t" "thread_step D t (shared s) = Some (t', [], c)" "fetching t = []"
  shows "cmove D s (s\<lparr>shared := c, threads := (threads s)[i := t']\<rparr>)"
  using cmove.intros [of i s D t' "[]" c] assms by (cases s) (simp add: droppers_def)

lemma cmove_drop:
  assumes "item_drop r (shared s) = (Ret u, c')" "i < length (threads s)" "threads s ! i = TDrop (DLock r)"
  shows "(cmove D)\<^sup>*\<^sup>* s (s\<lparr>shared := c', threads := (threads s)[i := TDrop (DDone None)]\<rparr>)"
proof -
  obtain c1 where l: "item_Lock r (shared s) = (Ret (), c1)"
    using assms(1) by (auto simp: item_drop_def bind_apply item_Lock_def split: if_splits)
  then have d: "drop_step (DLock r) (shared s) = Some (DClose r, c1)"
    by (auto simp: item_Lock_def unlocked_def split: if_splits)
  obtain h where h: "item_file (items c1 r) = Some h"
    using assms(1) l by (cases "item_file (items c1 r)")
      (auto simp: item_drop_def bind_apply with_defer_def item_drop_body_def modify_apply item_Name_def file_Name_def item_Unlock_def)
  obtain e f fs where cl: "os_Close (os c1) (Some h) = (e, f, fs)" by (metis prod.exhaust)
  let ?c2 = "upd_item r (\<lambda>i. i\<lparr>item_file := f\<rparr>) (c1\<lparr>os := fs, fdCnt := i32 (fdCnt c1 - 1)\<rparr>)"
  let ?c3 = "upd_item r (\<lambda>i. i\<lparr>item_file := None\<rparr>) (snd (do_Remove (fname h) ?c2))"
  have c': "c' = snd (item_Unlock r ?c3)"
    using assms(1) l h cl
    by (auto simp: item_drop_def bind_apply with_defer_def item_drop_body_def modify_apply item_Name_def file_Name_def item_Unlock_def
        do_Remove_def upd_item_def split: prod.splits)
  let ?s1 = "s\<lparr>shared := c1, threads := (threads s)[i := TDrop (DClose r)]\<rparr>"
  let ?s2 = "s\<lparr>shared := ?c2, threads := (threads s)[i := TDrop (DRemove r (fname h))]\<rparr>"
  let ?s3 = "s\<lparr>shared := ?c3, threads := (threads s)[i := TDrop (DUnlock r None)]\<rparr>"
  have a: "cmove D s ?s1" using cmove_thread [OF assms(2,3), of D "TDrop (DClose r)" c1] d by (simp add: thread_step_def del: drop_step.simps)
  have b: "cmove D ?s1 ?s2" using cmove_thread [of i ?s1 _ D "TDrop (DRemove r (fname h))" ?c2] assms(2) h cl by (simp add: thread_step_def)
  have c: "cmove D ?s2 ?s3" using cmove_thread [of i ?s2 _ D "TDrop (DUnlock r None)" ?c3] assms(2) by (simp add: thread_step_def)
  have d: "cmove D ?s3 (s\<lparr>shared := c', threads := (threads s)[i := TDrop (DDone None)]\<rparr>)"
    using cmove_thread [of i ?s3 _ D "TDrop (DDone None)" c'] assms(2) c' by (simp add: thread_step_def)
  note step = converse_rtranclp_into_rtranclp [where r = "cmove D"]
  show ?thesis by (rule step [OF a step [OF b step [OF c r_into_rtranclp [where r = "cmove D", OF d]]]])
qed

lemma cmove_OnExit:
  assumes "OnExit rs (shared s) = (Ret u, c')" "threads s = ts @ droppers rs"
  shows "(cmove D)\<^sup>*\<^sup>* s (s\<lparr>shared := c', threads := ts @ replicate (length rs) (TDrop (DDone None))\<rparr>)"
  using assms
proof (induction rs arbitrary: s ts)
  case Nil
  then show ?case by (cases s) (simp add: ret_apply droppers_def)
next
  case (Cons r rs)
  then obtain c1 where d: "item_drop r (shared s) = (Ret (), c1)" "OnExit rs c1 = (Ret u, c')"
    by (cases "item_drop r (shared s)"; cases "fst (item_drop r (shared s))") (auto simp: bind_apply)
  let ?s = "s\<lparr>shared := c1, threads := (ts @ [TDrop (DDone None)]) @ droppers rs\<rparr>"
  have "(cmove D)\<^sup>*\<^sup>* s ?s"
    using cmove_drop [OF d(1), of "length ts" D] Cons.prems(2) by (simp add: droppers_def nth_append list_update_append)
  also have "(cmove D)\<^sup>*\<^sup>* ?s (s\<lparr>shared := c', threads := ts @ replicate (length (r # rs)) (TDrop (DDone None))\<rparr>)"
    using Cons.IH [of ?s "ts @ [TDrop (DDone None)]"] d(2) by simp
  finally show ?case .
qed

text \<open>Where the first half of a call leads: to the lock of an item, or to the error it returns.\<close>

definition looked_up :: "goerr + nat \<Rightarrow> gpc" where
  "looked_up v = (case v of Inl e \<Rightarrow> PDone ([], Some e) | Inr r \<Rightarrow> PRLock r)"

lemma goes_unlock: "goes D g (PUnlock v) c (looked_up v) (c\<lparr>clock := False\<rparr>)"
  by (cases v) (auto simp: looked_up_def intro!: goes_step [OF _ goes_refl])

lemma goes_lookup:
  assumes "lookup_or_new D (g_key g) c = (Ret v, c')"
  obtains (direct) "goes D g PGet c (looked_up v) c'"
  | (set) r c1 ok out rc c2 where "goes D g PGet c (PSet r) c1" "rSet D (rist c1) (g_key g) r = (ok, out, rc)"
      "OnExit out (c1\<lparr>rist := rc\<rparr>) = (Ret (), c2)" "v = (if ok then Inr r else Inl ErrUnexpectedEOF)" "c' = c2\<lparr>clock := False\<rparr>"
proof -
  obtain x rc where g: "rGet D (rist c) (g_key g) = (x, rc)" by fastforce
  show thesis
  proof (cases x)
    case (Some r)
    with g assms have "goes D g PGet c (looked_up v) c'"
      by (auto simp: lookup_or_new_def cache_Get_def bind_apply ret_apply looked_up_def intro!: goes_step [OF _ goes_refl])
    then show thesis by (rule direct)
  next
    case None
    let ?c1 = "c\<lparr>rist := rc, clock := True\<rparr>"
    obtain y rc2 where g2: "rGet D rc (g_key g) = (y, rc2)" by fastforce
    let ?c2 = "?c1\<lparr>rist := rc2\<rparr>"
    have l: "\<not> clock c"
      using assms g None by (auto simp: lookup_or_new_def cache_Get_def bind_apply c_Lock_def split: if_splits)
    then have to2: "goes D g PGet c PGet2 ?c1"
      using g None by (intro goes_step [OF _ goes_step [OF _ goes_refl]]) auto
    have new: "newItem (g_key g) ?c2 = (Ret w, c3) \<Longrightarrow> goes D g PGet2 ?c1 (case w of Inl e \<Rightarrow> PUnlock (Inl e) | Inr r \<Rightarrow> PSet r) c3" if "y = None" for w c3
      using g2 that by (cases w) (auto intro!: goes_step [OF _ goes_step [OF _ goes_refl]])
    note run = assms [unfolded lookup_or_new_def] g g2 None l
    show thesis
    proof (cases y)
      case (Some r)
      have "goes D g PGet2 ?c1 (PUnlock (Inr r)) ?c2"
        using g2 Some by (auto intro!: goes_step [OF _ goes_refl])
      note goes_trans [OF goes_trans [OF to2 this] goes_unlock]
      moreover have "v = Inr r" "c' = ?c2\<lparr>clock := False\<rparr>"
        using run Some by (auto simp: cache_Get_def bind_apply ret_apply c_Lock_def c_Unlock_def modify_apply)
      ultimately show thesis using direct by simp
    next
      case y: None
      obtain z c3 where z: "newItem (g_key g) ?c2 = (z, c3)" by fastforce
      then obtain w where w: "z = Ret w"
        by (auto simp: newItem_def Let_def split: prod.splits option.splits sum.splits)
      note to3 = goes_trans [OF to2 new [OF y z [unfolded w]]]
      show thesis
      proof (cases w)
        case (Inl e)
        then have "v = Inl e" "c' = c3\<lparr>clock := False\<rparr>"
          using run y z w by (auto simp: cache_Get_def bind_apply ret_apply c_Lock_def c_Unlock_def modify_apply)
        with goes_trans [OF to3 [unfolded Inl sum.case] goes_unlock] direct show thesis by simp
      next
        case (Inr r)
        obtain ok out rc3 where r: "rSet D (rist c3) (g_key g) r = (ok, out, rc3)" by (metis prod.exhaust)
        obtain u c4 where o: "OnExit out (c3\<lparr>rist := rc3\<rparr>) = (u, c4)" by fastforce
        with run y z w Inr r have "u = Ret ()" "v = (if ok then Inr r else Inl ErrUnexpectedEOF)" "c' = c4\<lparr>clock := False\<rparr>"
          by (cases u; auto simp: cache_Get_def cache_Set_def bind_apply ret_apply c_Lock_def c_Unlock_def modify_apply split: if_splits)+
        with set [OF to3 [unfolded Inr sum.case] r] o show thesis by simp
      qed
    qed
  qed
qed

lemma GetOrCreate_alone:
  assumes "GetOrCreate D name offset cnt fetch (shared s) = (Ret x, c')"
    and "g = \<lparr>g_key = getKey (cpath (shared s)) name offset, g_count = cnt, g_fetch = fetch\<rparr>"
  shows "\<exists>m F. (cmove D)\<^sup>*\<^sup>* (s\<lparr>threads := threads s @ [TGet g PGet]\<rparr>)
    (s\<lparr>shared := c', threads := threads s @ TGet g (PDone x) # replicate m (TDrop (DDone None)), fetched := fetched s @ F\<rparr>)"
proof -
  let ?s = "s\<lparr>threads := threads s @ [TGet g PGet]\<rparr>"
  obtain v c where l: "lookup_or_new D (g_key g) (shared s) = (Ret v, c)" and v: "looked_up v = PDone x \<and> c' = c \<or> (\<exists>r. v = Inr r \<and> serve_item r cnt fetch c = (Ret x, c'))"
  proof -
    obtain u c where u: "lookup_or_new D (g_key g) (shared s) = (u, c)" by fastforce
    with assms obtain v where "u = Ret v" by (cases u) (auto simp: GetOrCreate_def bind_apply gets_apply)
    with that u assms show thesis by (cases v) (auto simp: GetOrCreate_def bind_apply gets_apply ret_apply looked_up_def)
  qed
  have serve: "goes D g (looked_up v) c (PDone x) c'"
    using v goes_serve_item [of _ g c x c' D] assms(2) by (auto simp: looked_up_def goes_refl)
  from l show ?thesis
  proof (cases rule: goes_lookup)
    case direct
    from cmove_get [OF goes_trans [OF direct serve], of "length (threads s)" ?s] show ?thesis
      by (auto intro!: exI [of _ 0])
  next
    case (set r c1 ok out rc c2)
    let ?i = "length (threads s)"
    obtain F where F: "(cmove D)\<^sup>*\<^sup>* ?s (s\<lparr>shared := c1, threads := threads s @ [TGet g (PSet r)], fetched := fetched s @ F\<rparr>)"
      using cmove_get [OF set(1), of ?i ?s] by auto
    let ?t = "s\<lparr>shared := c1, threads := threads s @ [TGet g (PSet r)], fetched := fetched s @ F\<rparr>"
    let ?u = "s\<lparr>shared := c1\<lparr>rist := rc\<rparr>, threads := (threads s @ [TGet g (PUnlock v)]) @ droppers out, fetched := fetched s @ F\<rparr>"
    have "cmove D ?t ?u"
      using cmove.intros [of ?i ?t D "TGet g (PUnlock v)" out "c1\<lparr>rist := rc\<rparr>"] set(2,4) by (simp add: thread_step_def)
    moreover have "(cmove D)\<^sup>*\<^sup>* ?u (?u\<lparr>shared := c2, threads := (threads s @ [TGet g (PUnlock v)]) @ replicate (length out) (TDrop (DDone None))\<rparr>)"
      using cmove_OnExit [of out ?u "()" c2 "threads s @ [TGet g (PUnlock v)]" D] set(3) by simp
    moreover have "goes D g (PUnlock v) c2 (PDone x) c'"
      using goes_trans [OF goes_unlock, of D g v c2] serve set(5) by simp
    from cmove_get [OF this, of ?i "?u\<lparr>shared := c2, threads := (threads s @ [TGet g (PUnlock v)]) @ replicate (length out) (TDrop (DDone None))\<rparr>"]
    obtain F' where "(cmove D)\<^sup>*\<^sup>* (?u\<lparr>shared := c2, threads := (threads s @ [TGet g (PUnlock v)]) @ replicate (length out) (TDrop (DDone None))\<rparr>)
        (s\<lparr>shared := c', threads := threads s @ TGet g (PDone x) # replicate (length out) (TDrop (DDone None)), fetched := fetched s @ F @ F'\<rparr>)"
      by (auto simp: nth_append list_update_append)
    ultimately have "(cmove D)\<^sup>*\<^sup>* ?s (s\<lparr>shared := c', threads := threads s @ TGet g (PDone x) # replicate (length out) (TDrop (DDone None)), fetched := fetched s @ F @ F'\<rparr>)"
      using F by (meson converse_rtranclp_into_rtranclp rtranclp_trans)
    then show ?thesis by blast
  qed
qed

lemma Exists_alone:
  assumes "Exists D name offset (shared s) = (Ret b, c')"
  shows "(cmove D)\<^sup>*\<^sup>* (s\<lparr>threads := threads s @ [TExists (EGet (getKey (cpath (shared s)) name offset))]\<rparr>)
    (s\<lparr>shared := c', threads := threads s @ [TExists (EDone b)]\<rparr>)"
proof -
  let ?at = "\<lambda>c p. s\<lparr>shared := c, threads := threads s @ [TExists p]\<rparr>" and ?key = "getKey (cpath (shared s)) name offset"
  have go: "cmove D (?at c p) (?at c1 q)" if "exists_step D p c = Some (q, c1)" for c p c1 q
    using cmove_thread [of "length (threads s)" "?at c p" _ D "TExists q" c1] that by (simp add: thread_step_def)
  have now: "s\<lparr>threads := threads s @ [TExists (EGet ?key)]\<rparr> = ?at (shared s) (EGet ?key)" by (cases s) simp
  note step = converse_rtranclp_into_rtranclp [where r = "cmove D"] and last = r_into_rtranclp [where r = "cmove D"]
  obtain v rc where g: "rGet D (rist (shared s)) ?key = (v, rc)" by fastforce
  show ?thesis
  proof (cases v)
    case None
    with g assms have "exists_step D (EGet ?key) (shared s) = Some (EDone b, c')"
      by (auto simp: Exists_def bind_apply gets_apply cache_Get_def ret_apply)
    from last [OF go [OF this]] show ?thesis by (simp only: now)
  next
    case (Some r)
    let ?c1 = "(shared s)\<lparr>rist := rc\<rparr>"
    have a: "exists_step D (EGet ?key) (shared s) = Some (ELock r, ?c1)" using g Some by simp
    have e: "bind (item_Lock r) (\<lambda>_. with_defer (item_Unlock r) (bind (item_Stat r) (\<lambda>info. case info of
        Inl e \<Rightarrow> ret False | Inr sz \<Rightarrow> ret (sz > 0)))) ?c1 = (Ret b, c')"
      using g Some assms by (simp add: Exists_def bind_apply gets_apply cache_Get_def)
    then obtain c2 where l: "item_Lock r ?c1 = (Ret (), c2)"
      by (auto simp: bind_apply item_Lock_def split: if_splits)
    then have b: "exists_step D (ELock r) ?c1 = Some (EStat r, c2)"
      by (auto simp: item_Lock_def unlocked_def split: if_splits)
    obtain x fs where st: "os_Stat (os c2) (item_file (items c2 r)) = (x, fs)" by fastforce
    with e l have "b = (case x of Inl e \<Rightarrow> False | Inr sz \<Rightarrow> sz > 0)" "c' = snd (item_Unlock r (c2\<lparr>os := fs\<rparr>))"
      by (auto simp: bind_apply with_defer_def item_Stat_def ret_apply item_Unlock_def modify_apply split: sum.splits)
    with st have c: "exists_step D (EStat r) c2 = Some (EUnlock r b, c2\<lparr>os := fs\<rparr>)" and d: "exists_step D (EUnlock r b) (c2\<lparr>os := fs\<rparr>) = Some (EDone b, c')"
      by (auto split: sum.splits)
    from step [OF go [OF a] step [OF go [OF b] step [OF go [OF c] last [OF go [OF d]]]]] show ?thesis by (simp only: now)
  qed
qed

section \<open>Claims\<close>



end
