(* ===== verification/Segments.thy ===== *)
theory Segments
  imports Prelude
begin

text \<open>
  The arithmetic of \<open>pkg/math\<close>: comparisons, alignment, and the split of a byte range into
  block-aligned segments that the prefetcher walks.
\<close>

section \<open>Definitions\<close>

definition Max64 :: "int \<Rightarrow> int \<Rightarrow> int" where
  "Max64 x y = (if x > y then x else y)"

definition Min64 :: "int \<Rightarrow> int \<Rightarrow> int" where
  "Min64 x y = (if x < y then x else y)"

definition Min :: "int \<Rightarrow> int \<Rightarrow> int" where
  "Min x y = (if x < y then x else y)"

record Segments =
  seg_offset :: int
  seg_step :: int
  seg_size :: int

record Segment =
  Index :: int
  Offset :: int
  Count :: int

datatype segments_error = StepNotPowerOf2 int

definition NewSegments :: "int \<Rightarrow> int \<Rightarrow> int \<Rightarrow> int \<Rightarrow> segments_error + Segments" where
  "NewSegments offset step count sz =
     (if (step AND i64 (step - 1)) > 0 then Inl (StepNotPowerOf2 step)
      else Inr \<lparr>seg_offset = offset, seg_step = step,
                seg_size = Min64 (i64 (offset + count)) sz\<rparr>)"

definition AlignDown :: "int \<Rightarrow> int \<Rightarrow> int outcome" where
  "AlignDown x align =
     (if align = 0 then Panic IntegerDivideByZero
      else Ret (i64 (i64 (x sdiv align) * align)))"

definition segment_at :: "Segments \<Rightarrow> int \<Rightarrow> Segment" where
  "segment_at r i =
     (let absOffset = Max64 i (seg_offset r)
      in \<lparr>Index = i, Offset = i64 (absOffset - i),
          Count = i64 (Min64 (i64 (i + seg_step r)) (seg_size r) - absOffset)\<rparr>)"

text \<open>
  The loop of the goroutine that \<open>All\<close> starts: the segments it sends, in order, or
  \<open>None\<close> when it never closes the channel (a step that does not advance the index).
\<close>

partial_function (option) All_loop :: "Segments \<Rightarrow> int \<Rightarrow> Segment list option" where
  "All_loop r i =
     (if i < seg_size r
      then Option.bind (All_loop r (i64 (i + seg_step r)))
             (\<lambda>segs. Some (if Count (segment_at r i) > 0 then segment_at r i # segs else segs))
      else Some [])"

definition All :: "Segments \<Rightarrow> Segment list outcome" where
  "All r = obind (AlignDown (seg_offset r) (seg_step r))
     (\<lambda>i. case All_loop r i of None \<Rightarrow> Hang | Some segs \<Rightarrow> Ret segs)"

section \<open>Comparisons and alignment\<close>

lemma Max64_max [simp]: "Max64 x y = max x y"
  by (simp add: Max64_def max_def)

lemma Min64_min [simp]: "Min64 x y = min x y"
  by (simp add: Min64_def min_def)

lemma Min_min [simp]: "Min x y = min x y"
  by (simp add: Min_def min_def)

text \<open>On the arguments the code passes (a non-negative offset, a positive block size) the
  truncating division is the ordinary one and nothing wraps.\<close>

lemma AlignDown_nonneg:
  assumes "0 \<le> x" "in_i64 x" "0 < align"
  shows "AlignDown x align = Ret (x div align * align)"
proof -
  have sd: "x sdiv align = x div align"
    using assms by (cases "x = 0") (simp_all add: signed_divide_int_def)
  have le: "x div align * align \<le> x"
    using assms(3) by (simp add: div_mult_le_int)
  have nn: "0 \<le> x div align" "0 \<le> x div align * align"
    using assms by (simp_all add: pos_imp_zdiv_nonneg_iff)
  have "x div align \<le> x"
    using assms by (metis div_by_1 int_one_le_iff_zero_less zdiv_mono2 zero_less_one)
  then have "in_i64 (x div align)" "in_i64 (x div align * align)"
    using nn le in_i64_leD [OF assms(2)] by (auto intro: in_i64_nonneg)
  then show ?thesis
    using assms(3) by (simp add: AlignDown_def sd i64_id)
qed

lemma AlignDown_zero_panics: "AlignDown x 0 = Panic IntegerDivideByZero"
  by (simp add: AlignDown_def)

section \<open>Segments tile the requested range\<close>

definition seg_span :: "Segment \<Rightarrow> int list" where
  "seg_span s = [Index s + Offset s .. Index s + Offset s + Count s - 1]"

text \<open>A segment lies inside the block that starts at its index.\<close>

definition seg_in_block :: "int \<Rightarrow> Segment \<Rightarrow> bool" where
  "seg_in_block step s \<longleftrightarrow>
     step dvd Index s \<and> 0 \<le> Index s \<and> 0 \<le> Offset s \<and> 0 < Count s \<and> Offset s + Count s \<le> step"

text \<open>The ranges for which neither the loop index nor a segment's end can overflow.\<close>

definition seg_ok :: "Segments \<Rightarrow> bool" where
  "seg_ok r \<longleftrightarrow> 0 \<le> seg_offset r \<and> in_i64 (seg_offset r) \<and> 0 < seg_step r
     \<and> 0 \<le> seg_size r \<and> seg_size r + seg_step r \<le> MaxInt64"

declare All_loop.simps [simp del]

lemma All_loop_step:
  assumes "i < seg_size r" "All_loop r (i64 (i + seg_step r)) = Some segs"
  shows "All_loop r i =
    Some (if Count (segment_at r i) > 0 then segment_at r i # segs else segs)"
  using assms by (subst All_loop.simps) simp

lemma All_loop_done: "seg_size r \<le> i \<Longrightarrow> All_loop r i = Some []"
  by (subst All_loop.simps) simp

lemma segment_at_exact:
  assumes "seg_ok r" "0 \<le> i" "i < seg_size r"
  shows "segment_at r i = \<lparr>Index = i, Offset = max i (seg_offset r) - i,
           Count = min (i + seg_step r) (seg_size r) - max i (seg_offset r)\<rparr>"
proof -
  let ?e = "min (i + seg_step r) (seg_size r)" and ?a = "max i (seg_offset r)"
  have a: "0 \<le> ?a" "?a \<le> MaxInt64"
    using assms by (auto simp: seg_ok_def dest: in_i64_leD)
  have e: "0 \<le> ?e" "?e \<le> MaxInt64"
    using assms by (auto simp: seg_ok_def)
  have "in_i64 (i + seg_step r)" "in_i64 (?a - i)" "in_i64 (?e - ?a)"
    using assms a e by (auto simp: seg_ok_def in_i64_def MinInt64_def MaxInt64_def)
  then show ?thesis
    by (simp add: segment_at_def Let_def i64_id)
qed

lemma All_loop_tiles:
  assumes "seg_ok r" "0 \<le> i" "seg_step r dvd i"
  shows "\<exists>segs. All_loop r i = Some segs
    \<and> concat (map seg_span segs) = [max i (seg_offset r) .. seg_size r - 1]
    \<and> (\<forall>s \<in> set segs. seg_in_block (seg_step r) s)"
  using assms(2,3)
proof (induction "nat (seg_size r - i)" arbitrary: i rule: less_induct)
  case (less i)
  let ?off = "seg_offset r" and ?step = "seg_step r" and ?size = "seg_size r"
  show ?case
  proof (cases "i < ?size")
    case False
    then show ?thesis by (simp add: All_loop_done)
  next
    case True
    have pos: "0 < ?step"
      using assms(1) by (simp add: seg_ok_def)
    have next_i: "i64 (i + ?step) = i + ?step"
      using assms(1) True less.prems
      by (auto simp: seg_ok_def intro!: i64_id in_i64_nonneg)
    have "nat (?size - (i + ?step)) < nat (?size - i)"
      using pos True by simp
    then obtain segs where segs: "All_loop r (i + ?step) = Some segs"
        "concat (map seg_span segs) = [max (i + ?step) ?off .. ?size - 1]"
        "\<forall>s \<in> set segs. seg_in_block ?step s"
      using less.hyps [of "i + ?step"] less.prems pos by auto
    let ?s = "segment_at r i"
    have s: "?s = \<lparr>Index = i, Offset = max i ?off - i, Count = min (i + ?step) ?size - max i ?off\<rparr>"
      using assms(1) less.prems(1) True by (rule segment_at_exact)
    have loop: "All_loop r i = Some (if Count ?s > 0 then ?s # segs else segs)"
      using All_loop_step [OF True] segs(1) next_i by simp
    show ?thesis
    proof (cases "Count ?s > 0")
      case False
      then have "max (i + ?step) ?off = max i ?off \<or> ?size \<le> max i ?off"
        using pos by (auto simp: s)
      then show ?thesis
        using loop segs False pos by auto
    next
      case pos_count: True
      have span: "seg_span ?s = [max i ?off .. min (i + ?step) ?size - 1]"
        by (simp add: seg_span_def s)
      have tile: "seg_span ?s @ [max (i + ?step) ?off .. ?size - 1] = [max i ?off .. ?size - 1]"
        using pos_count pos upto_split_int [of "max i ?off" "i + ?step" ?size]
        unfolding span by (cases "i + ?step \<le> ?size") (auto simp: s)
      have "seg_in_block ?step ?s"
        using less.prems pos_count by (simp add: seg_in_block_def s)
      then show ?thesis
        using loop segs pos_count tile by auto
    qed
  qed
qed

text \<open>C28: for every range whose end plus one step stays in \<open>int64\<close>, \<open>All\<close> closes its
  channel, and the segments it sends cover each byte of the range, in order, exactly once: laid end
  to end their byte positions are the positions from the offset to the end of the range. Each
  segment is non-empty and stays inside the aligned block that starts at its index.\<close>

theorem All_tiles:
  assumes "NewSegments offset step count sz = Inr r"
    and "0 \<le> offset" "0 \<le> count" "0 < step" "0 \<le> sz"
    and "offset + count \<le> MaxInt64" "sz + step \<le> MaxInt64"
  shows "\<exists>segs. All r = Ret segs
    \<and> concat (map seg_span segs) = [offset .. min (offset + count) sz - 1]
    \<and> (\<forall>s \<in> set segs. seg_in_block step s)"
proof -
  have off: "in_i64 offset" "in_i64 (offset + count)"
    using assms by (auto intro: in_i64_nonneg)
  then have r: "r = \<lparr>seg_offset = offset, seg_step = step, seg_size = min (offset + count) sz\<rparr>"
    using assms(1) by (auto simp: NewSegments_def i64_id split: if_splits)
  have ok: "seg_ok r"
    using assms off by (auto simp: seg_ok_def r)
  have start: "AlignDown offset step = Ret (offset div step * step)"
    using assms off by (simp add: AlignDown_nonneg)
  have "0 \<le> offset div step * step" "offset div step * step \<le> offset"
    using assms by (simp_all add: pos_imp_zdiv_nonneg_iff div_mult_le_int)
  then show ?thesis
    using All_loop_tiles [OF ok, of "offset div step * step"] assms(4)
    by (auto simp: All_def start r)
qed

text \<open>The range \<open>[3, 12)\<close> of a 15-byte file in blocks of 2, as in the repository's own test.\<close>

theorem All_tiles_witness:
  "\<exists>segs. All \<lparr>seg_offset = 3, seg_step = 2, seg_size = 12\<rparr> = Ret segs
    \<and> concat (map seg_span segs) = [3 .. 11] \<and> (\<forall>s \<in> set segs. seg_in_block 2 s)"
proof -
  have "NewSegments 3 2 9 15 = Inr \<lparr>seg_offset = 3, seg_step = 2, seg_size = 12\<rparr>"
    by (simp add: NewSegments_def)
  from All_tiles [OF this] show ?thesis
    by (simp add: MaxInt64_def)
qed

section \<open>The step check\<close>

lemma and_pred_even: "(2 * m) AND (2 * m - 1) = 2 * (m AND (m - 1))" for m :: int
proof -
  have "(2 * m - 1) div 2 = m - 1" by presburger
  then show ?thesis by (subst and_rec) simp
qed

lemma and_pred_zero_iff:
  "0 < n \<Longrightarrow> (n AND (n - 1) = 0) \<longleftrightarrow> (\<exists>k. n = 2 ^ k)" for n :: int
proof (induction "nat n" arbitrary: n rule: less_induct)
  case less
  show ?case
  proof (cases "even n")
    case True
    then obtain m where m: "n = 2 * m" by (rule evenE)
    with less.prems have "0 < m" "nat m < nat n" by simp_all
    then have "(m AND (m - 1) = 0) \<longleftrightarrow> (\<exists>k. m = 2 ^ k)"
      by (intro less.hyps)
    moreover have "(\<exists>k. n = 2 ^ k) \<longleftrightarrow> (\<exists>k. m = 2 ^ k)"
    proof
      assume "\<exists>k. n = 2 ^ k"
      then obtain k where k: "n = 2 ^ k" ..
      with True have "k \<noteq> 0" by (cases k) auto
      then obtain j where "k = Suc j" by (cases k) auto
      with k m show "\<exists>k. m = 2 ^ k" by auto
    next
      assume "\<exists>k. m = 2 ^ k"
      then obtain k where "m = 2 ^ k" ..
      with m have "n = 2 ^ Suc k" by simp
      then show "\<exists>k. n = 2 ^ k" by blast
    qed
    ultimately show ?thesis
      by (simp add: m and_pred_even)
  next
    case odd: False
    then obtain m where m: "n = 2 * m + 1" by (rule oddE)
    have "n AND (n - 1) = n - 1"
      by (subst and_rec) (simp add: m)
    moreover have "(\<exists>k. n = 2 ^ k) \<longleftrightarrow> n = 1"
      using odd by (metis dvd_power even_numeral neq0_conv one_add_one power_0 power_eq_0_iff)
    ultimately show ?thesis by auto
  qed
qed

text \<open>A positive step is accepted exactly when it is a power of two, and then the segments end
  at the smaller of the range's end and the file's size; any other positive step is refused with the
  error that names it.\<close>

theorem NewSegments_power_of_2:
  assumes "0 < step" "in_i64 step"
  shows "NewSegments offset step count sz =
    (if \<exists>k. step = 2 ^ k
     then Inr \<lparr>seg_offset = offset, seg_step = step, seg_size = min (i64 (offset + count)) sz\<rparr>
     else Inl (StepNotPowerOf2 step))"
proof -
  have "i64 (step - 1) = step - 1"
    using assms by (intro i64_id) (simp add: in_i64_def MinInt64_def)
  moreover have "step AND (step - 1) \<noteq> 0 \<Longrightarrow> 0 < (step AND (step - 1))"
    using assms(1) and_nonnegative_int_iff [of step "step - 1"] by linarith
  ultimately show ?thesis
    using and_pred_zero_iff [OF assms(1)]
    by (cases "step AND (step - 1) = 0") (simp_all add: NewSegments_def)
qed

theorem NewSegments_power_of_2_witness:
  "NewSegments 0 3 100 100 = Inl (StepNotPowerOf2 3)"
proof -
  have "\<not> (\<exists>k. (3::int) = 2 ^ k)"
  proof
    assume "\<exists>k. (3::int) = 2 ^ k"
    then obtain k where "(3::int) = 2 ^ k" ..
    then have "even (3::int) \<or> k = 0" by (metis dvd_power neq0_conv)
    with \<open>3 = 2 ^ k\<close> show False by simp
  qed
  then show ?thesis
    using NewSegments_power_of_2 [of 3 0 100 100] by (simp add: in_i64_iff)
qed

text \<open>The step check lets every non-positive step through: a zero step, whose segments cannot be
  produced because aligning by zero panics, and a negative step such as \<open>-3\<close>, which is no power
  of two.\<close>

theorem NewSegments_accepts_nonpositive:
  "NewSegments 0 0 100 100 = Inr \<lparr>seg_offset = 0, seg_step = 0, seg_size = 100\<rparr>
   \<and> All \<lparr>seg_offset = 0, seg_step = 0, seg_size = 100\<rparr> = Panic IntegerDivideByZero
   \<and> NewSegments 0 (-3) 100 100 = Inr \<lparr>seg_offset = 0, seg_step = -3, seg_size = 100\<rparr>"
  by (simp add: NewSegments_def All_def AlignDown_def)

end
