(* ===== verification/PContext.thy ===== *)
theory PContext
  imports GoLib
begin

text \<open>
  \<open>pkg/context/context.go\<close>: the request context that the components pass around. The request is
  its method, headers and query; the path parameter and the key-value store that the web framework
  keeps beside it are fields of the same record. The logger that the middleware stores there has a type
  of its own and is an argument of \<open>Logger\<close>.
\<close>

section \<open>Definitions\<close>

definition CorrelationIdCtxKey :: string where "CorrelationIdCtxKey = ''correlation_id''"
definition DigestCtxKey :: string where "DigestCtxKey = ''digest''"
definition FileChunkCtxKey :: string where "FileChunkCtxKey = ''file_chunk''"
definition BlobUrlCtxKey :: string where "BlobUrlCtxKey = ''blob_url''"
definition BlobRangeCtxKey :: string where "BlobRangeCtxKey = ''blob_range''"
definition LoggerCtxKey :: string where "LoggerCtxKey = ''logger''"

definition P2PHeaderKey :: string where "P2PHeaderKey = ''X-MS-Peerd-RequestFromPeer''"
definition CorrelationHeaderKey :: string where "CorrelationHeaderKey = ''X-MS-Peerd-CorrelationId''"
definition NodeHeaderKey :: string where "NodeHeaderKey = ''X-MS-Peerd-Node''"

record request =
  req_method :: string
  req_url :: string
  req_rawQuery :: string
  req_header :: header

record Context =
  Request :: request
  param_url :: string
  keys :: "string \<rightharpoonup> string"

definition GetString :: "Context \<Rightarrow> string \<Rightarrow> string" where
  "GetString c k = (case keys c k of None \<Rightarrow> [] | Some v \<Rightarrow> v)"

definition ctx_Set :: "Context \<Rightarrow> string \<Rightarrow> string \<Rightarrow> Context" where
  "ctx_Set c k v = c\<lparr>keys := (keys c)(k \<mapsto> v)\<rparr>"

definition IsRequestFromAPeer :: "Context \<Rightarrow> bool" where
  "IsRequestFromAPeer c \<longleftrightarrow> header_Get (req_header (Request c)) P2PHeaderKey = ''true''"

text \<open>\<open>uuid\<close> is the identifier that the third-party generator would produce for this request.\<close>

definition FillCorrelationId :: "string \<Rightarrow> Context \<Rightarrow> Context" where
  "FillCorrelationId uuid c =
     (let correlationId = header_Get (req_header (Request c)) CorrelationHeaderKey;
          correlationId = (if correlationId = [] then uuid else correlationId)
      in ctx_Set c CorrelationIdCtxKey correlationId)"

text \<open>\<open>node\<close> is the host name read at start-up.\<close>

definition SetOutboundHeaders :: "string \<Rightarrow> request \<Rightarrow> Context \<Rightarrow> request" where
  "SetOutboundHeaders node r c =
     r\<lparr>req_header :=
        header_Set (header_Set (header_Set (req_header r) P2PHeaderKey ''true'')
          CorrelationHeaderKey (GetString c CorrelationIdCtxKey)) NodeHeaderKey node\<rparr>"

text \<open>The framework's own context is the same record, so that wrapping it changes nothing; its \<open>Copy\<close> is an
  argument.\<close>

definition pcontext_FromContext :: "Context \<Rightarrow> Context" where
  "pcontext_FromContext c = c"

definition context_Copy :: "(Context \<Rightarrow> Context) \<Rightarrow> Context \<Rightarrow> Context" where
  "context_Copy gin_Copy c = gin_Copy c"

text \<open>The logging package's operations (\<open>zlog\<close>), the framework's guess of the client's address (\<open>clientIP\<close>) and
  what the context holds under a key (\<open>obj\<close>) are arguments. A value that is not a logger fails the type
  assertion. The second component is what is printed.\<close>

record 'l zlog =
  z_Nop :: 'l
  z_Str :: "string \<Rightarrow> string \<Rightarrow> 'l \<Rightarrow> 'l"
  z_Bool :: "string \<Rightarrow> bool \<Rightarrow> 'l \<Rightarrow> 'l"

datatype 'l ctx_value = LoggerValue 'l | OtherValue

definition Logger :: "'l zlog \<Rightarrow> (Context \<Rightarrow> string) \<Rightarrow> (string \<rightharpoonup> 'l ctx_value) \<Rightarrow> Context \<Rightarrow> 'l outcome \<times> string list" where
  "Logger Z clientIP obj c =
     (let fields = (\<lambda>l. z_Str Z ''clientname'' (header_Get (req_header (Request c)) NodeHeaderKey)
            (z_Str Z ''clientip'' (clientIP c)
            (z_Bool Z ''requestfrompeer'' (IsRequestFromAPeer c)
            (z_Str Z ''range'' (header_Get (req_header (Request c)) ''Range'')
            (z_Str Z ''url'' (req_url (Request c))
            (z_Str Z ''correlationid'' (GetString c CorrelationIdCtxKey) l))))))
      in case obj LoggerCtxKey of
           None \<Rightarrow> (Ret (fields (z_Nop Z)), [''WARN: logger not found in context''])
         | Some (LoggerValue l) \<Rightarrow> (Ret (fields l), [])
         | Some OtherValue \<Rightarrow> (Panic InterfaceConversion, []))"

definition BlobUrl :: "Context \<Rightarrow> string" where
  "BlobUrl c = TrimPrefix (param_url c) ''/'' @ ''?'' @ req_rawQuery (Request c)"

definition RangeStartIndex :: "string \<Rightarrow> int \<times> goerr option" where
  "RangeStartIndex rangeValue =
     (if rangeValue = [] then (0, Some NoRangeHeader)
      else let parts = Split (CHR ''='') rangeValue in
        if length parts \<noteq> 2 \<or> parts ! 0 \<noteq> ''bytes'' then (0, Some InvalidRangeFormat)
        else let ranges = Split (CHR ''-'') (parts ! 1) in
          if length ranges \<noteq> 2 then (0, Some InvalidRangeFormat)
          else let (startIndex, err) = Atoi (ranges ! 0) in
            case err of Some e \<Rightarrow> (0, Some e) | None \<Rightarrow> (startIndex, None))"

section \<open>Headers\<close>

lemma peerd_header_keys:
  "CanonicalHeaderKey P2PHeaderKey = ''X-Ms-Peerd-Requestfrompeer''"
  "CanonicalHeaderKey CorrelationHeaderKey = ''X-Ms-Peerd-Correlationid''"
  "CanonicalHeaderKey NodeHeaderKey = ''X-Ms-Peerd-Node''"
  "CanonicalHeaderKey ''Range'' = ''Range''"
  by code_simp+

lemma outbound_headers:
  "header_Get (req_header (SetOutboundHeaders node r c)) P2PHeaderKey = ''true''"
  "header_Get (req_header (SetOutboundHeaders node r c)) CorrelationHeaderKey = GetString c CorrelationIdCtxKey"
  "header_Get (req_header (SetOutboundHeaders node r c)) NodeHeaderKey = node"
  "header_Get (req_header (SetOutboundHeaders node r c)) ''Range'' = header_Get (req_header r) ''Range''"
  by (simp_all add: SetOutboundHeaders_def peerd_header_keys)

lemma GetString_Set [simp]:
  "GetString (ctx_Set c k v) k' = (if k' = k then v else GetString c k')"
  by (simp add: GetString_def ctx_Set_def)

lemma Request_Set [simp]: "Request (ctx_Set c k v) = Request c" "param_url (ctx_Set c k v) = param_url c"
  by (simp_all add: ctx_Set_def)

section \<open>Range headers\<close>

lemma Split_two:
  "Split sep s = [a, b] \<longleftrightarrow> s = a @ sep # b \<and> sep \<notin> set a \<and> sep \<notin> set b"
proof
  assume eq: "Split sep s = [a, b]"
  have "Join_sep [sep] (Split sep s) = s"
    by (rule Split_Join)
  with eq Split_parts [of _ sep s] show "s = a @ sep # b \<and> sep \<notin> set a \<and> sep \<notin> set b"
    by simp
qed (simp add: Split_append Split_no_sep)

lemma length_2_iff: "length xs = 2 \<longleftrightarrow> (\<exists>a b. xs = [a, b])"
  by (auto simp: numeral_2_eq_2 length_Suc_conv)

lemma RangeStartIndex_iff:
  "RangeStartIndex v = (i, None) \<longleftrightarrow>
     (\<exists>x y. v = ''bytes='' @ x @ ''-'' @ y \<and> set x \<inter> {CHR ''='', CHR ''-''} = {}
        \<and> set y \<inter> {CHR ''='', CHR ''-''} = {} \<and> Atoi x = (i, None))"
proof
  assume r: "RangeStartIndex v = (i, None)"
  let ?p = "Split (CHR ''='') v"
  have p: "length ?p = 2" "?p ! 0 = ''bytes''" "length (Split (CHR ''-'') (?p ! 1)) = 2"
    using r by (auto simp: RangeStartIndex_def Let_def split: if_splits)
  from p(1,2) obtain w where w: "?p = [''bytes'', w]"
    by (auto simp: length_2_iff)
  with p(3) obtain x y where xy: "Split (CHR ''-'') w = [x, y]"
    by (auto simp: length_2_iff)
  have "Atoi x = (i, None)"
    using r w xy by (auto simp: RangeStartIndex_def Let_def split: if_splits prod.splits option.splits)
  then show "\<exists>x y. v = ''bytes='' @ x @ ''-'' @ y \<and> set x \<inter> {CHR ''='', CHR ''-''} = {}
        \<and> set y \<inter> {CHR ''='', CHR ''-''} = {} \<and> Atoi x = (i, None)"
    using w xy by (intro exI [of _ x] exI [of _ y]) (auto simp: Split_two)
next
  assume "\<exists>x y. v = ''bytes='' @ x @ ''-'' @ y \<and> set x \<inter> {CHR ''='', CHR ''-''} = {}
        \<and> set y \<inter> {CHR ''='', CHR ''-''} = {} \<and> Atoi x = (i, None)"
  then obtain x y where v: "v = ''bytes='' @ x @ ''-'' @ y"
    and x: "set x \<inter> {CHR ''='', CHR ''-''} = {}" and y: "set y \<inter> {CHR ''='', CHR ''-''} = {}"
    and a: "Atoi x = (i, None)" by auto
  have "Split (CHR ''='') v = [''bytes'', x @ ''-'' @ y]"
    unfolding Split_two using x y by (auto simp: v)
  moreover have "Split (CHR ''-'') (x @ ''-'' @ y) = [x, y]"
    unfolding Split_two using x y by auto
  ultimately show "RangeStartIndex v = (i, None)"
    using a v by (simp add: RangeStartIndex_def)
qed

lemma RangeStartIndex_in_i64: "RangeStartIndex v = (i, None) \<Longrightarrow> in_i64 i"
  unfolding RangeStartIndex_iff Atoi_def by (metis ParseInt_in_i64 fst_conv)

lemma RangeStartIndex_FormatInt:
  assumes "0 \<le> a" "in_i64 a" "0 \<le> b"
  shows "RangeStartIndex (''bytes='' @ FormatInt a @ ''-'' @ FormatInt b) = (a, None)"
  unfolding RangeStartIndex_iff using assms
  by (intro exI [of _ "FormatInt a"] exI [of _ "FormatInt b"]) (simp add: Atoi_def)

text \<open>C30: the range header is accepted exactly in the form \<open>bytes=x-y\<close>, with no other equals sign
  or dash, and the result is the number \<open>x\<close> denotes. In particular the header that the reader sends
  for a range of non-negative positions is read back as its first position.\<close>

theorem RangeStartIndex_accepts:
  "(RangeStartIndex v = (i, None) \<longleftrightarrow>
     (\<exists>x y. v = ''bytes='' @ x @ ''-'' @ y \<and> set x \<inter> {CHR ''='', CHR ''-''} = {}
        \<and> set y \<inter> {CHR ''='', CHR ''-''} = {} \<and> Atoi x = (i, None)))
   \<and> (0 \<le> a \<and> in_i64 a \<and> 0 \<le> b \<longrightarrow>
        RangeStartIndex (''bytes='' @ FormatInt a @ ''-'' @ FormatInt b) = (a, None))"
  using RangeStartIndex_FormatInt [of a b] by (intro conjI impI RangeStartIndex_iff) simp

theorem RangeStartIndex_accepts_witness:
  "RangeStartIndex ''bytes=10-20'' = (10, None)"
proof -
  have "FormatInt 10 = ''10''" "FormatInt 20 = ''20''"
    by code_simp+
  then show ?thesis
    using RangeStartIndex_accepts [of "''bytes=10-20''" 10 10 20] by (simp add: in_i64_iff)
qed

section \<open>The request's logger\<close>

text \<open>A logger that collects its fields in order.\<close>

definition field_log :: "(string \<times> string) list zlog" where
  "field_log = \<lparr>z_Nop = [], z_Str = (\<lambda>k v l. l @ [(k, v)]), z_Bool = (\<lambda>k b l. l @ [(k, if b then ''true'' else ''false'')])\<rparr>"

text \<open>Once the middleware filled the correlation identifier and stored its logger, building the request's
  logger cannot panic, and its lines carry the client's own identifier when it sent one.\<close>

theorem Logger_after_middleware:
  assumes "obj LoggerCtxKey = Some (LoggerValue base)"
  shows "\<exists>l. Logger field_log clientIP obj (FillCorrelationId uuid c) = (Ret (base @ l), [])
    \<and> map_of l ''correlationid'' = Some (let h = header_Get (req_header (Request c)) CorrelationHeaderKey in if h = [] then uuid else h)"
  using assms
  by (simp add: Logger_def field_log_def FillCorrelationId_def Let_def GetString_def ctx_Set_def)

theorem Logger_after_middleware_witness:
  "\<exists>l. Logger field_log (\<lambda>_. ''10.0.0.1'') [LoggerCtxKey \<mapsto> LoggerValue []] (FillCorrelationId ''id''
      \<lparr>Request = \<lparr>req_method = ''GET'', req_url = ''/blobs/x'', req_rawQuery = [], req_header = Map.empty\<rparr>, param_url = [], keys = Map.empty\<rparr>)
     = (Ret ([] @ l), []) \<and> map_of l ''correlationid'' = Some ''id''"
  using Logger_after_middleware [where obj = "[LoggerCtxKey \<mapsto> LoggerValue []]" and base = "[]" and uuid = "''id''" and clientIP = "\<lambda>_. ''10.0.0.1''"
      and c = "\<lparr>Request = \<lparr>req_method = ''GET'', req_url = ''/blobs/x'', req_rawQuery = [], req_header = Map.empty\<rparr>, param_url = [], keys = Map.empty\<rparr>"]
  by (simp add: header_Get_def Let_def)

end
