(* ===== verification/Routing.thy ===== *)
theory Routing
  imports GoLib "HOL-Library.Sublist"
begin

text \<open>
  \<open>pkg/discovery/routing\<close>: resolving a key to the peers that provide it, advertising keys, and the
  negative cache of lookups. The distributed hash table, content identifiers, multiaddresses, the
  lookup cache and the Kubernetes event recorder are third-party packages: what the router uses of
  them is the record \<open>net_deps\<close>. \<open>Resolve\<close> starts a goroutine; the goroutines of all lookups and
  the receivers of their channels run interleaved, as the step relation \<open>gstep\<close>.
\<close>

section \<open>Data\<close>

record PeerInfo =
  ID :: string
  HttpHost :: string

record 'ma addr_info =
  ai_ID :: string
  Addrs :: "'ma list"

text \<open>\<open>lcGet\<close> and \<open>lcSet\<close> are \<open>Get\<close> and \<open>SetWithTTL\<close> of the lookup cache, \<open>cidSum\<close> makes a content
  identifier, \<open>ip4Value\<close> reads the IPv4 part of a multiaddress, \<open>dhtProvide\<close> advertises an identifier
  (after the ones already advertised) and \<open>newRecorder\<close> is the error of making an event recorder.\<close>

record ('lc, 'cid, 'ma) net_deps =
  lcGet :: "'lc \<Rightarrow> string \<Rightarrow> string option \<times> 'lc"
  lcSet :: "'lc \<Rightarrow> string \<Rightarrow> string \<Rightarrow> 'lc"
  cidSum :: "string \<Rightarrow> goerr + 'cid"
  ip4Value :: "'ma \<Rightarrow> goerr + string"
  dhtProvide :: "'cid list \<Rightarrow> 'cid \<Rightarrow> goerr option"
  newRecorder :: "goerr option"

text \<open>The router, with the advertised identifiers and the number of \<open>Active\<close> events as its trace.\<close>

record ('lc, 'cid) router =
  host_ID :: string
  peerRegistryPort :: string
  lookupCache :: 'lc
  active :: bool
  provided :: "'cid list"
  active_events :: nat

text \<open>A lookup: the providers it was given, those still to come, the channel of peers (its buffer
  and capacity), whether a peer was just sent and the activity check comes next, and what was received
  from the channel so far. The code never closes the channel.\<close>

record 'ma lookup =
  allowSelf :: bool
  providers :: "'ma addr_info list"
  pending :: "'ma addr_info list"
  peersCh :: "PeerInfo list"
  chcap :: nat
  reporting :: bool
  received :: "PeerInfo list"

record ('lc, 'cid, 'ma) rnet =
  rtr :: "('lc, 'cid) router"
  lookups :: "nat \<Rightarrow> 'ma lookup option"

definition strPeerNotFound :: string where
  "strPeerNotFound = ''PEER_NOT_FOUND''"

section \<open>Operations\<close>

text \<open>The body of the loop over the providers: \<open>None\<close> where it continues with the next one.\<close>

definition peer_of :: "('lc, 'cid, 'ma) net_deps \<Rightarrow> ('lc, 'cid) router \<Rightarrow> bool \<Rightarrow> 'ma addr_info \<Rightarrow> PeerInfo option" where
  "peer_of D r allow info =
     (if \<not> allow \<and> ai_ID info = host_ID r then None
      else if length (Addrs info) \<noteq> 1 then None
      else case ip4Value D (Addrs info ! 0) of
          Inl err \<Rightarrow> None
        | Inr v \<Rightarrow> Some \<lparr>ID = ai_ID info, HttpHost = ''https://'' @ v @ '':'' @ peerRegistryPort r\<rparr>)"

text \<open>After a peer was sent, the first lookup that ever gets here reports that the host is active.\<close>

definition mark_active :: "('lc, 'cid, 'ma) net_deps \<Rightarrow> ('lc, 'cid) router \<Rightarrow> ('lc, 'cid) router" where
  "mark_active D r =
     (if active r then r
      else case newRecorder D of
          Some err \<Rightarrow> r\<lparr>active := True\<rparr>
        | None \<Rightarrow> r\<lparr>active := True, active_events := Suc (active_events r)\<rparr>)"

text \<open>\<open>infos\<close> is what \<open>FindProvidersAsync\<close> delivers for the identifier and the count before it
  closes its channel; \<open>i\<close> names the new lookup.\<close>

definition Resolve :: "('lc, 'cid, 'ma) net_deps \<Rightarrow> ('cid \<Rightarrow> int \<Rightarrow> 'ma addr_info list) \<Rightarrow> nat \<Rightarrow> string \<Rightarrow> bool \<Rightarrow> int \<Rightarrow>
    (('lc, 'cid, 'ma) rnet, goerr + nat) go" where
  "Resolve D infos i key allow count = (case cidSum D key of
      Inl err \<Rightarrow> ret (Inl err)
    | Inr contentId \<Rightarrow>
        if count < 0 then gpanic MakechanSizeOutOfRange
        else bind (modify (\<lambda>s. s\<lparr>lookups := (lookups s)(i \<mapsto>
               \<lparr>allowSelf = allow, providers = infos contentId count, pending = infos contentId count,
                peersCh = [], chcap = nat count, reporting = False, received = []\<rparr>)\<rparr>)) (\<lambda>_. ret (Inr i)))"

definition negCacheCallback :: "('lc, 'cid, 'ma) net_deps \<Rightarrow> string \<Rightarrow> (('lc, 'cid, 'ma) rnet, unit) go" where
  "negCacheCallback D key =
     modify (\<lambda>s. s\<lparr>rtr := (rtr s)\<lparr>lookupCache := lcSet D (lookupCache (rtr s)) key strPeerNotFound\<rparr>\<rparr>)"

text \<open>The callback that is returned beside the channel is \<open>negCacheCallback D key\<close>.\<close>

definition ResolveWithNegativeCacheCallback ::
  "('lc, 'cid, 'ma) net_deps \<Rightarrow> ('cid \<Rightarrow> int \<Rightarrow> 'ma addr_info list) \<Rightarrow> nat \<Rightarrow> string \<Rightarrow> bool \<Rightarrow> int \<Rightarrow>
    (('lc, 'cid, 'ma) rnet, goerr + nat) go" where
  "ResolveWithNegativeCacheCallback D infos i key allow count =
     bind (\<lambda>s. case lcGet D (lookupCache (rtr s)) key of
             (v, lc) \<Rightarrow> (Ret v, s\<lparr>rtr := (rtr s)\<lparr>lookupCache := lc\<rparr>\<rparr>)) (\<lambda>v.
       if v = Some strPeerNotFound then ret (Inl (ContentNotFoundError key))
       else Resolve D infos i key allow count)"

fun Provide :: "('lc, 'cid, 'ma) net_deps \<Rightarrow> string list \<Rightarrow> (('lc, 'cid) router, goerr option) go" where
  "Provide D [] = ret None"
| "Provide D (key # ks) = (case cidSum D key of
      Inl err \<Rightarrow> ret (Some err)
    | Inr contentId \<Rightarrow>
        bind (gets (\<lambda>r. dhtProvide D (provided r) contentId)) (\<lambda>err.
          if err \<noteq> None then ret err
          else bind (modify (\<lambda>r. r\<lparr>provided := provided r @ [contentId]\<rparr>)) (\<lambda>_. Provide D ks)))"

text \<open>The address factory that \<open>newHost\<close> installs: what the host advertises of its addresses.\<close>

fun addrs_factory :: "('ma \<Rightarrow> goerr + string) \<Rightarrow> 'ma list \<Rightarrow> 'ma list" where
  "addrs_factory ip4 [] = []"
| "addrs_factory ip4 (addr # addrs) = (case ip4 addr of
      Inl err \<Rightarrow> addrs_factory ip4 addrs
    | Inr v \<Rightarrow>
        if v = [] then addrs_factory ip4 addrs
        else if v = ''127.0.0.1'' then addrs_factory ip4 addrs
        else [addr])"

text \<open>The bootstrap callback of \<open>NewRouter\<close>: from what the leader election answers, the peers to
  connect to and the event that is recorded.\<close>

datatype p2p_event = Connected | Disconnected

definition bootstrap_peers :: "string \<Rightarrow> ('ma \<Rightarrow> goerr + 'ma addr_info) \<Rightarrow> goerr + 'ma \<Rightarrow> 'ma addr_info list \<times> p2p_event list" where
  "bootstrap_peers self addrInfoFromP2pAddr leader = (case leader of
      Inl err \<Rightarrow> ([], [Disconnected])
    | Inr addr \<Rightarrow> (case addrInfoFromP2pAddr addr of
          Inl err \<Rightarrow> ([], [])
        | Inr addrInfo \<Rightarrow>
            if ai_ID addrInfo = self then ([], [Connected]) else ([addrInfo], [Connected])))"

section \<open>Interleaved lookups\<close>

definition set_lookup :: "nat \<Rightarrow> 'ma lookup \<Rightarrow> ('lc, 'cid, 'ma) rnet \<Rightarrow> ('lc, 'cid, 'ma) rnet" where
  "set_lookup i l s = s\<lparr>lookups := (lookups s)(i \<mapsto> l)\<rparr>"

text \<open>The steps of the goroutine of lookup \<open>i\<close>: skip a provider, or send a peer, which blocks while
  the buffer is full, and then check the activity flag.\<close>

inductive produce :: "('lc, 'cid, 'ma) net_deps \<Rightarrow> nat \<Rightarrow> ('lc, 'cid, 'ma) rnet \<Rightarrow> ('lc, 'cid, 'ma) rnet \<Rightarrow> bool" for D i where
  skip: "lookups s i = Some l \<Longrightarrow> \<not> reporting l \<Longrightarrow> pending l = info # infos \<Longrightarrow>
    peer_of D (rtr s) (allowSelf l) info = None \<Longrightarrow>
    produce D i s (set_lookup i (l\<lparr>pending := infos\<rparr>) s)"
| send: "lookups s i = Some l \<Longrightarrow> \<not> reporting l \<Longrightarrow> pending l = info # infos \<Longrightarrow>
    peer_of D (rtr s) (allowSelf l) info = Some p \<Longrightarrow> length (peersCh l) < chcap l \<Longrightarrow>
    produce D i s (set_lookup i (l\<lparr>pending := infos, peersCh := peersCh l @ [p], reporting := True\<rparr>) s)"
| report: "lookups s i = Some l \<Longrightarrow> reporting l \<Longrightarrow>
    produce D i s (set_lookup i (l\<lparr>reporting := False\<rparr>) (s\<lparr>rtr := mark_active D (rtr s)\<rparr>))"

text \<open>The steps of the whole router: of a goroutine, of a receiver (who meets the sender on an
  unbuffered channel), of a caller who starts a lookup, reports a failed one or advertises keys.\<close>

inductive gstep :: "('lc, 'cid, 'ma) net_deps \<Rightarrow> ('lc, 'cid, 'ma) rnet \<Rightarrow> ('lc, 'cid, 'ma) rnet \<Rightarrow> bool" for D where
  prod: "produce D i s s' \<Longrightarrow> gstep D s s'"
| recv: "lookups s i = Some l \<Longrightarrow> peersCh l = p # ps \<Longrightarrow>
    gstep D s (set_lookup i (l\<lparr>peersCh := ps, received := received l @ [p]\<rparr>) s)"
| handoff: "lookups s i = Some l \<Longrightarrow> \<not> reporting l \<Longrightarrow> pending l = info # infos \<Longrightarrow>
    peer_of D (rtr s) (allowSelf l) info = Some p \<Longrightarrow> chcap l = 0 \<Longrightarrow>
    gstep D s (set_lookup i (l\<lparr>pending := infos, received := received l @ [p], reporting := True\<rparr>) s)"
| start: "lookups s i = None \<Longrightarrow>
    ResolveWithNegativeCacheCallback D infos i key allow count s = (Ret v, s') \<Longrightarrow> gstep D s s'"
| not_found: "negCacheCallback D key s = (Ret v, s') \<Longrightarrow> gstep D s s'"
| advertise: "Provide D ks (rtr s) = (v, r') \<Longrightarrow> gstep D s (s\<lparr>rtr := r'\<rparr>)"

abbreviation reachable :: "('lc, 'cid, 'ma) net_deps \<Rightarrow> ('lc, 'cid, 'ma) rnet \<Rightarrow> ('lc, 'cid, 'ma) rnet \<Rightarrow> bool" where
  "reachable D \<equiv> reach (gstep D)"

text \<open>The router as \<open>NewRouter\<close> builds it, before any lookup.\<close>

definition new_rnet :: "string \<Rightarrow> string \<Rightarrow> 'lc \<Rightarrow> ('lc, 'cid, 'ma) rnet" where
  "new_rnet self port lc = \<lparr>rtr = \<lparr>host_ID = self, peerRegistryPort = port, lookupCache = lc,
     active = False, provided = [], active_events = 0\<rparr>, lookups = Map.empty\<rparr>"

definition lookup_inv :: "('lc, 'cid, 'ma) net_deps \<Rightarrow> ('lc, 'cid) router \<Rightarrow> 'ma lookup \<Rightarrow> bool" where
  "lookup_inv D r l \<longleftrightarrow>
     received l @ peersCh l @ List.map_filter (peer_of D r (allowSelf l)) (pending l)
       = List.map_filter (peer_of D r (allowSelf l)) (providers l)
     \<and> length (peersCh l) \<le> chcap l \<and> length (peersCh l) + length (pending l) \<le> length (providers l)"

definition rnet_inv :: "('lc, 'cid, 'ma) net_deps \<Rightarrow> string \<Rightarrow> string \<Rightarrow> ('lc, 'cid, 'ma) rnet \<Rightarrow> bool" where
  "rnet_inv D self port s \<longleftrightarrow> host_ID (rtr s) = self \<and> peerRegistryPort (rtr s) = port
     \<and> (\<forall>i l. lookups s i = Some l \<longrightarrow> lookup_inv D (rtr s) l)
     \<and> active_events (rtr s) \<le> (if active (rtr s) then 1 else 0)"

section \<open>Invariants of the interleaving\<close>

lemma peer_of_cong: "host_ID r = host_ID r' \<Longrightarrow> peerRegistryPort r = peerRegistryPort r' \<Longrightarrow> peer_of D r = peer_of D r'"
  by (intro ext) (simp add: peer_of_def split: sum.splits)

lemma lookup_inv_cong:
  "host_ID r = host_ID r' \<Longrightarrow> peerRegistryPort r = peerRegistryPort r' \<Longrightarrow> lookup_inv D r l = lookup_inv D r' l"
  by (simp add: lookup_inv_def peer_of_cong [of r r'])

lemma mark_active_frame [simp]:
  "host_ID (mark_active D r) = host_ID r" "peerRegistryPort (mark_active D r) = peerRegistryPort r"
  by (auto simp: mark_active_def split: option.splits)

lemma mark_active_once:
  "active_events r \<le> (if active r then 1 else 0) \<Longrightarrow>
     active_events (mark_active D r) \<le> (if active (mark_active D r) then 1 else 0)"
  by (auto simp: mark_active_def split: option.splits if_splits)

lemma set_lookup_simps [simp]:
  "rtr (set_lookup i l s) = rtr s" "lookups (set_lookup i l s) j = (if j = i then Some l else lookups s j)"
  by (simp_all add: set_lookup_def)

lemma Provide_frame:
  "Provide D ks r = (v, r') \<Longrightarrow> host_ID r' = host_ID r \<and> peerRegistryPort r' = peerRegistryPort r
     \<and> active r' = active r \<and> active_events r' = active_events r"
proof (induction ks arbitrary: r)
  case (Cons k ks)
  show ?case
  proof (cases "cidSum D k")
    case (Inr c)
    with Cons.prems Cons.IH [of "r\<lparr>provided := provided r @ [c]\<rparr>"] show ?thesis
      by (auto simp: bind_apply gets_apply modify_apply ret_apply split: if_splits)
  qed (use Cons.prems in \<open>simp add: ret_apply\<close>)
qed (simp add: ret_apply)

text \<open>What starting a lookup can do to the state.\<close>

lemma Resolve_cases:
  assumes "ResolveWithNegativeCacheCallback D infos i key allow count s = (Ret v, s')"
  obtains lc where "rtr s' = (rtr s)\<lparr>lookupCache := lc\<rparr>" "lookups s' = lookups s"
  | lc ps where "rtr s' = (rtr s)\<lparr>lookupCache := lc\<rparr>"
      "lookups s' = (lookups s)(i \<mapsto> \<lparr>allowSelf = allow, providers = ps, pending = ps, peersCh = [],
         chcap = nat count, reporting = False, received = []\<rparr>)"
  using assms
  by (auto simp: ResolveWithNegativeCacheCallback_def Resolve_def bind_apply ret_apply gpanic_def modify_apply
      split: prod.splits if_splits sum.splits)

lemma produce_inv:
  assumes "produce D i s s'" "rnet_inv D self port s"
  shows "rnet_inv D self port s'"
  using assms
proof (induction rule: produce.induct)
  case (report s l)
  have "lookup_inv D (mark_active D (rtr s)) k = lookup_inv D (rtr s) k" for k
    by (rule lookup_inv_cong) simp_all
  with report show ?case
    using mark_active_once [of "rtr s" D] by (auto simp: rnet_inv_def lookup_inv_def)
qed (fastforce simp: rnet_inv_def lookup_inv_def map_filter_simps)+

lemma gstep_inv:
  assumes "gstep D s s'" "rnet_inv D self port s"
  shows "rnet_inv D self port s'"
  using assms
proof (induction rule: gstep.induct)
  case (prod i s s')
  then show ?case by (rule produce_inv)
next
  case (start s i infos key allow count v s')
  have cong: "lookup_inv D ((rtr s)\<lparr>lookupCache := lc\<rparr>) l = lookup_inv D (rtr s) l" for lc l
    by (rule lookup_inv_cong) simp_all
  from start(2) show ?case
    by (rule Resolve_cases) (use start(3) in \<open>auto simp: rnet_inv_def cong\<close>, auto simp: lookup_inv_def)
next
  case (not_found key s v s')
  have cong: "lookup_inv D ((rtr s)\<lparr>lookupCache := lc\<rparr>) l = lookup_inv D (rtr s) l" for lc l
    by (rule lookup_inv_cong) simp_all
  from not_found show ?case
    by (auto simp: negCacheCallback_def modify_apply rnet_inv_def cong)
next
  case (advertise ks s v r')
  have "lookup_inv D r' l = lookup_inv D (rtr s) l" for l
    by (rule lookup_inv_cong) (use Provide_frame [OF advertise(1)] in simp_all)
  with advertise(2) Provide_frame [OF advertise(1)] show ?case
    by (auto simp: rnet_inv_def)
qed (fastforce simp: rnet_inv_def lookup_inv_def map_filter_simps)+

interpretation rn: invariant_system "gstep D" "rnet_inv D self port" for D self port
  by unfold_locales (rule gstep_inv)

lemma reachable_inv:
  "reachable D (new_rnet self port lc) s \<Longrightarrow> rnet_inv D self port s"
  by (erule rn.reach_inv) (simp add: rnet_inv_def new_rnet_def)

section \<open>Properties\<close>

lemma map_filter_in: "x \<in> set (List.map_filter f xs) \<longleftrightarrow> (\<exists>y \<in> set xs. f y = Some x)"
  by (induction xs) (auto simp: map_filter_simps split: option.splits)

lemma peer_of_Some:
  "peer_of D r allow info = Some p \<longleftrightarrow> (\<not> allow \<longrightarrow> ai_ID info \<noteq> host_ID r) \<and>
     (\<exists>a v. Addrs info = [a] \<and> ip4Value D a = Inr v \<and>
        p = \<lparr>ID = ai_ID info, HttpHost = ''https://'' @ v @ '':'' @ peerRegistryPort r\<rparr>)"
  by (auto simp: peer_of_def length_Suc_conv split: sum.splits if_splits)

text \<open>C13: in every interleaving of lookups, receivers and callers, the peers of a lookup come out in
  the order of its providers and none is lost; each is a provider with a single IPv4 address, under
  \<open>https\<close> at that address and the registry port, and never the host itself unless the caller asked
  for it.\<close>

theorem Resolve_delivers:
  assumes "reachable D (new_rnet self port lc) s" "lookups s i = Some l"
  shows "prefix (received l) (List.map_filter (peer_of D (rtr s) (allowSelf l)) (providers l))
    \<and> (pending l = [] \<and> peersCh l = [] \<longrightarrow>
           received l = List.map_filter (peer_of D (rtr s) (allowSelf l)) (providers l))
    \<and> (\<forall>p \<in> set (received l). \<exists>info \<in> set (providers l). \<exists>a v.
           Addrs info = [a] \<and> ip4Value D a = Inr v \<and> ID p = ai_ID info
           \<and> HttpHost p = ''https://'' @ v @ '':'' @ port \<and> (\<not> allowSelf l \<longrightarrow> ID p \<noteq> self))"
proof -
  have r: "host_ID (rtr s) = self" "peerRegistryPort (rtr s) = port" and l: "lookup_inv D (rtr s) l"
    using reachable_inv [OF assms(1)] assms(2) by (auto simp: rnet_inv_def)
  let ?f = "List.map_filter (peer_of D (rtr s) (allowSelf l))"
  have eq: "?f (providers l) = received l @ peersCh l @ ?f (pending l)"
    using l by (simp add: lookup_inv_def)
  have "\<exists>info \<in> set (providers l). \<exists>a v.
           Addrs info = [a] \<and> ip4Value D a = Inr v \<and> ID p = ai_ID info
           \<and> HttpHost p = ''https://'' @ v @ '':'' @ port \<and> (\<not> allowSelf l \<longrightarrow> ID p \<noteq> self)"
    if "p \<in> set (received l)" for p
  proof -
    from that have "p \<in> set (?f (providers l))"
      by (simp add: eq)
    then obtain info where "info \<in> set (providers l)" "peer_of D (rtr s) (allowSelf l) info = Some p"
      by (auto simp: map_filter_in)
    with r show ?thesis
      by (intro bexI [of _ info]) (auto simp: peer_of_Some)
  qed
  then show ?thesis
    by (auto simp: eq map_filter_simps)
qed

text \<open>However many lookups find peers, in whatever interleaving, the host is reported active at
  most once.\<close>

theorem active_reported_once:
  assumes "reachable D (new_rnet self port lc) s"
  shows "active_events (rtr s) \<le> 1"
  using reachable_inv [OF assms] by (auto simp: rnet_inv_def split: if_splits)

lemma produce_progress:
  assumes "lookups s i = Some l" "lookup_inv D (rtr s) l" "length (providers l) \<le> chcap l"
    and "pending l \<noteq> [] \<or> reporting l"
  shows "\<exists>s' l'. produce D i s s' \<and> lookups s' i = Some l' \<and> lookup_inv D (rtr s') l'
    \<and> length (providers l') \<le> chcap l' \<and> received l' = received l
    \<and> 2 * length (pending l') + (if reporting l' then 1 else 0) < 2 * length (pending l) + (if reporting l then 1 else 0)"
proof (cases "reporting l")
  case True
  have "lookup_inv D (mark_active D (rtr s)) (l\<lparr>reporting := False\<rparr>)"
    using assms(2) peer_of_cong [of "mark_active D (rtr s)" "rtr s" D] by (simp add: lookup_inv_def)
  with True assms(1,3) produce.report [OF assms(1) True, of D] show ?thesis
    by (intro exI [of _ "set_lookup i (l\<lparr>reporting := False\<rparr>) (s\<lparr>rtr := mark_active D (rtr s)\<rparr>)"]
        exI [of _ "l\<lparr>reporting := False\<rparr>"] conjI) auto
next
  case False
  with assms(4) obtain info infos where p: "pending l = info # infos" by (auto simp: neq_Nil_conv)
  show ?thesis
  proof (cases "peer_of D (rtr s) (allowSelf l) info")
    case None
    with False assms p produce.skip [OF assms(1) False p None] show ?thesis
      by (intro exI [of _ "set_lookup i (l\<lparr>pending := infos\<rparr>) s"] exI [of _ "l\<lparr>pending := infos\<rparr>"] conjI)
        (auto simp: lookup_inv_def map_filter_simps)
  next
    case (Some q)
    have "length (peersCh l) < chcap l"
      using assms(2,3) p by (simp add: lookup_inv_def)
    with False assms p produce.send [OF assms(1) False p Some] Some show ?thesis
      by (intro exI [of _ "set_lookup i (l\<lparr>pending := infos, peersCh := peersCh l @ [q], reporting := True\<rparr>) s"]
          exI [of _ "l\<lparr>pending := infos, peersCh := peersCh l @ [q], reporting := True\<rparr>"] conjI)
        (auto simp: lookup_inv_def map_filter_simps)
  qed
qed

lemma produce_finishes:
  assumes "lookups s i = Some l" "lookup_inv D (rtr s) l" "length (providers l) \<le> chcap l"
  shows "\<exists>s' l'. (produce D i)\<^sup>*\<^sup>* s s' \<and> lookups s' i = Some l' \<and> pending l' = [] \<and> \<not> reporting l'
    \<and> received l' = received l"
  using assms
proof (induction "2 * length (pending l) + (if reporting l then 1 else 0::nat)" arbitrary: s l rule: less_induct)
  case less
  show ?case
  proof (cases "pending l = [] \<and> \<not> reporting l")
    case True
    with less.prems show ?thesis by blast
  next
    case False
    then obtain s1 l1 where 1: "produce D i s s1" "lookups s1 i = Some l1" "lookup_inv D (rtr s1) l1"
      "length (providers l1) \<le> chcap l1" "received l1 = received l"
      "2 * length (pending l1) + (if reporting l1 then 1 else 0) < 2 * length (pending l) + (if reporting l then 1 else 0::nat)"
      using produce_progress [OF less.prems] by blast
    from less.hyps [OF 1(6,2,3,4)] 1(1,5) show ?thesis
      by (metis converse_rtranclp_into_rtranclp)
  qed
qed

text \<open>The goroutine of a lookup ends even if nobody receives: when the table delivers no more
  providers than the count it was asked for (its documented limit), the goroutine is never blocked,
  and from every reachable state its own steps alone bring it to its end.\<close>

theorem Resolve_goroutine_ends:
  assumes "reachable D (new_rnet self port lc) s" "lookups s i = Some l" "length (providers l) \<le> chcap l"
  shows "\<exists>s' l'. (produce D i)\<^sup>*\<^sup>* s s' \<and> lookups s' i = Some l' \<and> pending l' = [] \<and> \<not> reporting l'
    \<and> received l' = received l"
  using produce_finishes [OF assms(2) _ assms(3)] reachable_inv [OF assms(1)] assms(2)
  by (auto simp: rnet_inv_def)

text \<open>Keys are advertised in order, up to the first one for which an identifier cannot be made or
  the table refuses; \<open>Provide\<close> reports success exactly when all of them were.\<close>

theorem Provide_in_order:
  "\<exists>n \<le> length ks. \<exists>cids. map (cidSum D) (take n ks) = map Inr cids
     \<and> snd (Provide D ks r) = r\<lparr>provided := provided r @ cids\<rparr>
     \<and> (\<exists>err. fst (Provide D ks r) = Ret err \<and> (err = None \<longleftrightarrow> n = length ks)
         \<and> (n < length ks \<longrightarrow> err \<noteq> None
              \<and> (cidSum D (ks ! n) = Inl (the err)
                 \<or> (\<exists>c. cidSum D (ks ! n) = Inr c \<and> dhtProvide D (provided r @ cids) c = err))))"
proof (induction ks arbitrary: r)
  case Nil
  show ?case by (rule exI [of _ 0]) (simp add: ret_apply)
next
  case (Cons k ks)
  show ?case
  proof (cases "cidSum D k")
    case (Inl e)
    then show ?thesis by (intro exI [of _ 0]) (simp add: ret_apply)
  next
    case (Inr c)
    show ?thesis
    proof (cases "dhtProvide D (provided r) c")
      case (Some e)
      with Inr show ?thesis
        by (intro exI [of _ 0]) (simp add: bind_apply gets_apply ret_apply)
    next
      case None
      let ?r = "r\<lparr>provided := provided r @ [c]\<rparr>"
      from Inr None have eq: "Provide D (k # ks) r = Provide D ks ?r"
        by (simp add: bind_apply gets_apply modify_apply)
      obtain n cids err where n: "n \<le> length ks" "map (cidSum D) (take n ks) = map Inr cids"
        "snd (Provide D ks ?r) = ?r\<lparr>provided := provided ?r @ cids\<rparr>"
        "fst (Provide D ks ?r) = Ret err" "err = None \<longleftrightarrow> n = length ks"
        "n < length ks \<longrightarrow> err \<noteq> None \<and> (cidSum D (ks ! n) = Inl (the err)
            \<or> (\<exists>c. cidSum D (ks ! n) = Inr c \<and> dhtProvide D (provided ?r @ cids) c = err))"
        using Cons.IH [of ?r] by blast
      show ?thesis
        unfolding eq
        by (rule exI [of _ "Suc n"], rule conjI, use n(1) in simp, rule exI [of _ "c # cids"])
          (use n Inr in auto)
    qed
  qed
qed

text \<open>After a lookup was reported as failed, and as long as the lookup cache remembers it, looking
  the key up again fails at once: no lookup is started, whatever the table would deliver.\<close>

theorem negative_cache_hit:
  assumes "lcGet D (lcSet D (lookupCache (rtr s)) key strPeerNotFound) key = (Some strPeerNotFound, lc')"
  shows "bind (negCacheCallback D key) (\<lambda>_. ResolveWithNegativeCacheCallback D infos i key allow count) s
    = (Ret (Inl (ContentNotFoundError key)), s\<lparr>rtr := (rtr s)\<lparr>lookupCache := lc'\<rparr>\<rparr>)"
  using assms
  by (simp add: negCacheCallback_def ResolveWithNegativeCacheCallback_def bind_apply modify_apply ret_apply)

text \<open>What a host advertises through the address factory is at most one address, which has an
  IPv4 part other than the loopback; so a provider that advertises an address at all is accepted by the
  lookups of the others.\<close>

theorem addrs_factory_accepted:
  "addrs_factory (ip4Value D) addrs = [] \<or>
     (\<exists>a v. addrs_factory (ip4Value D) addrs = [a] \<and> a \<in> set addrs \<and> ip4Value D a = Inr v
        \<and> v \<noteq> [] \<and> v \<noteq> ''127.0.0.1''
        \<and> peer_of D r True \<lparr>ai_ID = pid, Addrs = addrs_factory (ip4Value D) addrs\<rparr>
          = Some \<lparr>ID = pid, HttpHost = ''https://'' @ v @ '':'' @ peerRegistryPort r\<rparr>)"
proof (induction addrs)
  case (Cons a addrs)
  then show ?case
    by (auto simp: peer_of_def split: sum.splits)
qed simp

section \<open>A network of three providers\<close>

text \<open>Addresses are the text of an IPv4 address; the host itself, a provider with two addresses and
  one good provider answer every lookup. The lookup cache remembers its last entry.\<close>

definition demo_deps :: "((string \<times> string) option, string, string) net_deps" where
  "demo_deps = \<lparr>lcGet = (\<lambda>lc k. (case lc of Some (k', v) \<Rightarrow> if k = k' then Some v else None | None \<Rightarrow> None, lc)),
     lcSet = (\<lambda>lc k v. Some (k, v)), cidSum = (\<lambda>k. Inr k), ip4Value = (\<lambda>a. Inr a),
     dhtProvide = (\<lambda>_ _. None), newRecorder = None\<rparr>"

definition demo_providers :: "string addr_info list" where
  "demo_providers = [\<lparr>ai_ID = ''self'', Addrs = [''10.0.0.1'']\<rparr>, \<lparr>ai_ID = ''two'', Addrs = [''10.0.0.2'', ''10.0.0.3'']\<rparr>,
     \<lparr>ai_ID = ''peer'', Addrs = [''10.0.0.4'']\<rparr>]"

definition demo_net :: "((string \<times> string) option, string, string) rnet" where
  "demo_net = new_rnet ''self'' ''5001'' None"

text \<open>The state after the lookup was started, and after its goroutine ran and the peer was received.\<close>

definition demo_started :: "((string \<times> string) option, string, string) rnet" where
  "demo_started = snd (ResolveWithNegativeCacheCallback demo_deps (\<lambda>_ _. demo_providers) 0 ''key'' False 3 demo_net)"

definition demo_lookup :: "string addr_info list \<Rightarrow> PeerInfo list \<Rightarrow> bool \<Rightarrow> PeerInfo list \<Rightarrow> string lookup" where
  "demo_lookup ps ch rep rc = \<lparr>allowSelf = False, providers = demo_providers, pending = ps, peersCh = ch,
     chcap = 3, reporting = rep, received = rc\<rparr>"

definition demo_peer :: PeerInfo where
  "demo_peer = \<lparr>ID = ''peer'', HttpHost = ''https://10.0.0.4:5001''\<rparr>"

lemmas demo_defs = demo_deps_def demo_providers_def demo_net_def demo_lookup_def demo_peer_def

lemma demo_started_eq: "demo_started = set_lookup 0 (demo_lookup demo_providers [] False []) demo_net"
  by (simp add: demo_started_def demo_defs new_rnet_def ResolveWithNegativeCacheCallback_def Resolve_def
      bind_apply modify_apply ret_apply set_lookup_def)

lemma demo_reach_started: "reachable demo_deps demo_net demo_started"
proof (rule reach_step [OF reach_init])
  show "gstep demo_deps demo_net demo_started"
    by (rule gstep.start [of _ 0 _ "\<lambda>_ _. demo_providers" "''key''" False 3 "Inr 0"])
      (simp_all add: demo_started_def demo_defs new_rnet_def ResolveWithNegativeCacheCallback_def Resolve_def
        bind_apply modify_apply ret_apply)
qed

definition demo_at :: "string lookup \<Rightarrow> ((string \<times> string) option, string, string) rnet" where
  "demo_at l = set_lookup 0 l demo_net"

lemma demo_at_simps [simp]:
  "lookups (demo_at l) 0 = Some l" "rtr (demo_at l) = rtr demo_net" "set_lookup 0 l' (demo_at l) = demo_at l'"
  by (simp_all add: demo_at_def set_lookup_def)

text \<open>The steps with the state they lead to as a premise, for concrete runs.\<close>

lemma gstep_runs:
  "lookups s i = Some l \<Longrightarrow> \<not> reporting l \<Longrightarrow> pending l = info # infos \<Longrightarrow>
     peer_of D (rtr s) (allowSelf l) info = None \<Longrightarrow> s' = set_lookup i (l\<lparr>pending := infos\<rparr>) s \<Longrightarrow> gstep D s s'"
  "lookups s i = Some l \<Longrightarrow> \<not> reporting l \<Longrightarrow> pending l = info # infos \<Longrightarrow>
     peer_of D (rtr s) (allowSelf l) info = Some p \<Longrightarrow> length (peersCh l) < chcap l \<Longrightarrow>
     s' = set_lookup i (l\<lparr>pending := infos, peersCh := peersCh l @ [p], reporting := True\<rparr>) s \<Longrightarrow> gstep D s s'"
  "lookups s i = Some l \<Longrightarrow> peersCh l = p # ps \<Longrightarrow>
     s' = set_lookup i (l\<lparr>peersCh := ps, received := received l @ [p]\<rparr>) s \<Longrightarrow> gstep D s s'"
  by (simp_all add: gstep.prod [OF produce.skip] gstep.prod [OF produce.send] gstep.recv)

lemma demo_reach_received:
  "reachable demo_deps demo_net (demo_at (demo_lookup [] [] True [demo_peer]))"
proof -
  let ?D = demo_deps
  have 0: "reachable ?D demo_net (demo_at (demo_lookup demo_providers [] False []))"
    using demo_reach_started by (simp add: demo_started_eq demo_at_def)
  have s1: "gstep ?D (demo_at (demo_lookup demo_providers [] False []))
      (demo_at (demo_lookup (drop 1 demo_providers) [] False []))"
    by (rule gstep_runs(1) [OF demo_at_simps(1), where info = "demo_providers ! 0" and infos = "drop 1 demo_providers"])
      (simp_all add: demo_defs peer_of_def new_rnet_def)
  have s2: "gstep ?D (demo_at (demo_lookup (drop 1 demo_providers) [] False []))
      (demo_at (demo_lookup (drop 2 demo_providers) [] False []))"
    by (rule gstep_runs(1) [OF demo_at_simps(1), where info = "demo_providers ! 1" and infos = "drop 2 demo_providers"])
      (simp_all add: demo_defs peer_of_def new_rnet_def)
  have s3: "gstep ?D (demo_at (demo_lookup (drop 2 demo_providers) [] False []))
      (demo_at (demo_lookup [] [demo_peer] True []))"
    by (rule gstep_runs(2) [OF demo_at_simps(1), where info = "demo_providers ! 2" and infos = "[]" and p = demo_peer])
      (simp_all add: demo_defs peer_of_def new_rnet_def)
  have s4: "gstep ?D (demo_at (demo_lookup [] [demo_peer] True [])) (demo_at (demo_lookup [] [] True [demo_peer]))"
    by (rule gstep_runs(3) [OF demo_at_simps(1), where p = demo_peer and ps = "[]"]) (simp_all add: demo_defs)
  show ?thesis
    using 0 s1 s2 s3 s4 by (blast intro: reach_step)
qed

theorem Resolve_delivers_witness:
  "prefix [demo_peer] (List.map_filter (peer_of demo_deps (rtr demo_net) False) demo_providers)
   \<and> (\<exists>info \<in> set demo_providers. ID demo_peer = ai_ID info) \<and> ID demo_peer \<noteq> ''self''"
  using Resolve_delivers [OF demo_reach_received [unfolded demo_net_def] demo_at_simps(1) [unfolded demo_net_def]]
  by (auto simp: demo_lookup_def demo_net_def)

theorem active_reported_once_witness: "active_events (rtr demo_started) \<le> 1"
  by (rule active_reported_once [OF demo_reach_started [unfolded demo_net_def]])

theorem Resolve_goroutine_ends_witness:
  "\<exists>s' l'. (produce demo_deps 0)\<^sup>*\<^sup>* demo_started s' \<and> lookups s' 0 = Some l' \<and> pending l' = []
     \<and> \<not> reporting l' \<and> received l' = []"
  using Resolve_goroutine_ends [OF demo_reach_started [unfolded demo_net_def], of 0 "demo_lookup demo_providers [] False []"]
  by (simp add: demo_started_eq demo_lookup_def demo_providers_def)

theorem Provide_in_order_witness:
  "Provide demo_deps [''a'', ''b''] (rtr demo_net) = (Ret None, (rtr demo_net)\<lparr>provided := [''a'', ''b'']\<rparr>)"
proof -
  obtain n cids err where n: "n \<le> 2" "map (cidSum demo_deps) (take n [''a'', ''b'']) = map Inr cids"
    "snd (Provide demo_deps [''a'', ''b''] (rtr demo_net)) = (rtr demo_net)\<lparr>provided := provided (rtr demo_net) @ cids\<rparr>"
    "fst (Provide demo_deps [''a'', ''b''] (rtr demo_net)) = Ret err" "err = None \<longleftrightarrow> n = 2"
    "n < 2 \<longrightarrow> err \<noteq> None \<and> (cidSum demo_deps ([''a'', ''b''] ! n) = Inl (the err)
        \<or> (\<exists>c. cidSum demo_deps ([''a'', ''b''] ! n) = Inr c
             \<and> dhtProvide demo_deps (provided (rtr demo_net) @ cids) c = err))"
    using Provide_in_order [of "[''a'', ''b'']" demo_deps "rtr demo_net"]
    by (auto simp: numeral_2_eq_2)
  from n(6) have "\<not> n < 2"
    by (auto simp: demo_deps_def)
  with n(1) have "n = 2" by simp
  with n(2) have "map projr (map Inr cids :: (goerr + string) list) = [''a'', ''b'']"
    by (simp add: demo_deps_def flip: n(2))
  then have "cids = [''a'', ''b'']"
    by (simp add: comp_def)
  with n(3,4,5) \<open>n = 2\<close> show ?thesis
    by (simp add: prod_eq_iff demo_net_def new_rnet_def)
qed

theorem negative_cache_hit_witness:
  "fst (bind (negCacheCallback demo_deps ''key'')
      (\<lambda>_. ResolveWithNegativeCacheCallback demo_deps (\<lambda>_ _. demo_providers) 1 ''key'' False 3) demo_net)
   = Ret (Inl (ContentNotFoundError ''key''))"
  by (subst negative_cache_hit [of _ _ _ "Some (''key'', strPeerNotFound)"]) (simp_all add: demo_deps_def)

end
