(* ===== verification/Reader.thy ===== *)
theory Reader
  imports PContext Routing
begin

text \<open>
  \<open>pkg/discovery/content/reader\<close>: reading a part of a remote file, from a peer if one can be found
  and from the origin otherwise. Clients, responses and the parsing of URLs belong to \<open>net/http\<close> and
  \<open>net/url\<close>; what the reader uses of them is the record \<open>http_deps\<close>. Every request that is sent and
  every metric that is recorded is kept in the state.
\<close>

section \<open>Data\<close>

text \<open>A response body is the bytes it delivers and the error that follows them, \<open>None\<close> at its end.\<close>

record response =
  StatusCode :: int
  ContentLength :: int
  resp_header :: header
  body :: "byte list"
  body_err :: "goerr option"

datatype operation = operationFstatRemote | operationPreadRemote | other_operation int

datatype metric =
    PeerDiscovery string
  | PeerResponse string string string int
  | UpstreamResponse string string string int
  | RequestServed string string

text \<open>\<open>urlParse\<close> is the error of parsing a URL, \<open>urlHostname\<close> its host; \<open>httpDo\<close> is \<open>Do\<close> of the client
  for a peer (the empty name is the origin's client).\<close>

record 'n http_deps =
  urlParse :: "string \<Rightarrow> goerr option"
  urlHostname :: "string \<Rightarrow> string"
  httpDo :: "'n \<Rightarrow> string \<Rightarrow> request \<Rightarrow> (goerr + response) \<times> 'n"

record ('lc, 'cid, 'ma, 'n) renv =
  net :: "('lc, 'cid, 'ma) rnet"
  http :: 'n
  sent :: "(string \<times> request) list"
  recorded :: "metric list"

text \<open>The reader of one request. \<open>node\<close> is the host name that outbound requests carry.\<close>

record reader =
  rcontext :: Context
  resolveRetries :: int
  node :: string

text \<open>What the select of the peer loop sees: the deadline, a peer, or the closed channel.\<close>

datatype select = Deadline | Peer PeerInfo | ChanClosed

section \<open>Requests\<close>

definition range_value :: "int \<Rightarrow> int \<Rightarrow> string" where
  "range_value start stop = ''bytes='' @ FormatInt start @ ''-'' @ FormatInt stop"

definition remoteRequest :: "'n http_deps \<Rightarrow> reader \<Rightarrow> string \<Rightarrow> int \<Rightarrow> int \<Rightarrow> goerr + request" where
  "remoteRequest H r u start stop = (case urlParse H u of
      Some err \<Rightarrow> Inl err
    | None \<Rightarrow>
        let req = \<lparr>req_method = ''GET'', req_url = u, req_rawQuery = [], req_header = req_header (Request (rcontext r))\<rparr>;
            req = req\<lparr>req_header := header_Set (req_header req) ''Range'' (range_value start stop)\<rparr>
        in Inr (SetOutboundHeaders (node r) req (rcontext r)))"

definition originRequest :: "'n http_deps \<Rightarrow> reader \<Rightarrow> int \<Rightarrow> int \<Rightarrow> goerr + request" where
  "originRequest H r start stop = remoteRequest H r (GetString (rcontext r) BlobUrlCtxKey) start stop"

definition peerRequest :: "'n http_deps \<Rightarrow> reader \<Rightarrow> string \<Rightarrow> int \<Rightarrow> int \<Rightarrow> goerr + request" where
  "peerRequest H r peer start stop =
     remoteRequest H r (peer @ ''/blobs/'' @ GetString (rcontext r) BlobUrlCtxKey) start stop"

definition client_Do :: "'n http_deps \<Rightarrow> string \<Rightarrow> request \<Rightarrow> (('lc, 'cid, 'ma, 'n) renv, goerr + response) go" where
  "client_Do H cl req = (\<lambda>s. case httpDo H (http s) cl req of
      (x, n') \<Rightarrow> (Ret x, s\<lparr>http := n', sent := sent s @ [(cl, req)]\<rparr>))"

definition record_metric :: "metric \<Rightarrow> (('lc, 'cid, 'ma, 'n) renv, unit) go" where
  "record_metric m = modify (\<lambda>s. s\<lparr>recorded := recorded s @ [m]\<rparr>)"

section \<open>One response\<close>

text \<open>\<open>io.ReadFull(resp.Body, buf)\<close>: the buffer afterwards, the count and the error.\<close>

definition ReadFull :: "response \<Rightarrow> byte list \<Rightarrow> byte list \<times> int \<times> goerr option" where
  "ReadFull resp buf =
     (let n = min (length buf) (length (body resp));
          buf' = take n (body resp) @ drop n buf
      in if n = length buf then (buf', int n, None)
         else case body_err resp of
             Some e \<Rightarrow> (buf', int n, Some e)
           | None \<Rightarrow> (buf', int n, Some (if n = 0 then EOF else ErrUnexpectedEOF)))"

definition fstat_response :: "response \<Rightarrow> int \<times> goerr option" where
  "fstat_response resp =
     (if StatusCode resp = 200 then (ContentLength resp, None)
      else if StatusCode resp = 206 then
        let l = ContentLength resp;
            rs = header_Get (resp_header resp) ''Content-Range''
        in if rs = [] then (l, None)
           else case LastIndexByte rs (CHR ''/'') of
               None \<Rightarrow> (l, None)
             | Some pos \<Rightarrow> (fst (ParseInt (drop (pos + 1) rs)), None)
      else (0, Some (RemoteError (UnexpectedStatus (StatusCode resp)))))"

definition fstatRemote :: "'n http_deps \<Rightarrow> request \<Rightarrow> string \<Rightarrow> (('lc, 'cid, 'ma, 'n) renv, int \<times> goerr option) go" where
  "fstatRemote H req cl = bind (client_Do H cl req) (\<lambda>x. case x of
      Inl err \<Rightarrow> ret (0, Some (RemoteError err))
    | Inr resp \<Rightarrow> ret (fstat_response resp))"

definition pread_response :: "response \<Rightarrow> byte list \<Rightarrow> byte list \<times> int \<times> goerr option" where
  "pread_response resp buf =
     (if StatusCode resp \<noteq> 200 \<and> StatusCode resp \<noteq> 206
      then (buf, 0, Some (RemoteError (UnexpectedStatus (StatusCode resp))))
      else ReadFull resp buf)"

definition preadRemote :: "'n http_deps \<Rightarrow> request \<Rightarrow> string \<Rightarrow> byte list \<Rightarrow>
    (('lc, 'cid, 'ma, 'n) renv, byte list \<times> int \<times> goerr option) go" where
  "preadRemote H req cl buf = bind (client_Do H cl req) (\<lambda>x. case x of
      Inl err \<Rightarrow> ret (buf, 0, Some (RemoteError err))
    | Inr resp \<Rightarrow> ret (pread_response resp buf))"

section \<open>Peers\<close>

definition with_net :: "(('lc, 'cid, 'ma) rnet, 'a) go \<Rightarrow> (('lc, 'cid, 'ma, 'n) renv, 'a) go" where
  "with_net m = (\<lambda>s. case m (net s) of (x, n') \<Rightarrow> (x, s\<lparr>net := n'\<rparr>))"

text \<open>The switch over the operation, on one peer.\<close>

definition peer_operation :: "'n http_deps \<Rightarrow> operation \<Rightarrow> request \<Rightarrow> string \<Rightarrow> byte list \<Rightarrow>
    (('lc, 'cid, 'ma, 'n) renv, byte list \<times> int \<times> goerr option) go" where
  "peer_operation H opn req cl buf = (case opn of
      operationFstatRemote \<Rightarrow> bind (fstatRemote H req cl) (\<lambda>(count, err). ret (buf, count, err))
    | operationPreadRemote \<Rightarrow> preadRemote H req cl buf
    | other_operation i \<Rightarrow> ret (buf, 0, Some UnknownOperation))"

text \<open>The loop over the peers, along what the select sees; with nothing left to see it blocks.\<close>

fun peerLoop :: "('lc, 'cid, 'ma) net_deps \<Rightarrow> 'n http_deps \<Rightarrow> reader \<Rightarrow> string \<Rightarrow> int \<Rightarrow> int \<Rightarrow> operation \<Rightarrow>
    select list \<Rightarrow> nat \<Rightarrow> byte list \<Rightarrow> (('lc, 'cid, 'ma, 'n) renv, byte list \<times> int \<times> goerr option) go" where
  "peerLoop D H r key start stop opn [] peerCount buf = hang"
| "peerLoop D H r key start stop opn (Deadline # evs) peerCount buf =
     bind (with_net (negCacheCallback D key)) (\<lambda>_. ret (buf, -1, Some PeerNotFound))"
| "peerLoop D H r key start stop opn (ChanClosed # evs) peerCount buf =
     bind (with_net (negCacheCallback D key)) (\<lambda>_. ret (buf, -1, Some PeerNotFound))"
| "peerLoop D H r key start stop opn (Peer peer # evs) peerCount buf =
     bind (if peerCount = 0 then record_metric (PeerDiscovery (HttpHost peer)) else ret ()) (\<lambda>_.
       let peerCount = (if peerCount = 0 then Suc peerCount else peerCount) in
       case peerRequest H r (HttpHost peer) start stop of
         Inl err \<Rightarrow> peerLoop D H r key start stop opn evs peerCount buf
       | Inr req \<Rightarrow>
           bind (peer_operation H opn req (ID peer) buf) (\<lambda>(buf', count, err).
             if err \<noteq> None then peerLoop D H r key start stop opn evs peerCount buf'
             else bind (record_metric (PeerResponse (HttpHost peer) key
                     (if opn = operationPreadRemote then ''pread'' else ''fstat'') count))
                   (\<lambda>_. ret (buf', count, None))))"

text \<open>\<open>infos\<close> and \<open>i\<close> are those of \<open>Resolve\<close>.\<close>

definition doP2p :: "('lc, 'cid, 'ma) net_deps \<Rightarrow> 'n http_deps \<Rightarrow> ('cid \<Rightarrow> int \<Rightarrow> 'ma addr_info list) \<Rightarrow> nat \<Rightarrow> select list \<Rightarrow>
    reader \<Rightarrow> string \<Rightarrow> int \<Rightarrow> int \<Rightarrow> operation \<Rightarrow> byte list \<Rightarrow>
    (('lc, 'cid, 'ma, 'n) renv, byte list \<times> int \<times> goerr option) go" where
  "doP2p D H infos i evs r fileChunkKey start stop opn buf =
     (if IsRequestFromAPeer (rcontext r) then ret (buf, -1, Some PeerNotFound)
      else bind (with_net (ResolveWithNegativeCacheCallback D infos i fileChunkKey False (resolveRetries r))) (\<lambda>x.
        case x of
          Inl err \<Rightarrow> ret (buf, -1, Some err)
        | Inr ch \<Rightarrow> peerLoop D H r fileChunkKey start stop opn evs 0 buf))"

section \<open>The reader's operations\<close>

text \<open>\<open>PreadRemote\<close> returns the buffer beside its results, because it is filled in place.\<close>

definition PreadRemote :: "('lc, 'cid, 'ma) net_deps \<Rightarrow> 'n http_deps \<Rightarrow> ('cid \<Rightarrow> int \<Rightarrow> 'ma addr_info list) \<Rightarrow> nat \<Rightarrow> select list \<Rightarrow>
    reader \<Rightarrow> byte list \<Rightarrow> int \<Rightarrow> (('lc, 'cid, 'ma, 'n) renv, byte list \<times> int \<times> goerr option) go" where
  "PreadRemote D H infos i evs r buf offset =
     (let key = GetString (rcontext r) FileChunkCtxKey;
          start = offset;
          stop = i64 (int (length buf) + offset - 1)
      in bind (doP2p D H infos i evs r key start stop operationPreadRemote buf) (\<lambda>(buf1, count, err).
           if err = None then ret (buf1, count, None)
           else case originRequest H r start stop of
               Inl e \<Rightarrow> ret (buf1, -1, Some e)
             | Inr originReq \<Rightarrow>
                 bind (preadRemote H originReq [] buf1) (\<lambda>(buf2, count32, err2).
                 bind (record_metric (UpstreamResponse (urlHostname H (req_url originReq)) key ''pread'' count32))
                   (\<lambda>_. ret (buf2, count32, err2)))))"

definition FstatRemote :: "'n http_deps \<Rightarrow> reader \<Rightarrow> (('lc, 'cid, 'ma, 'n) renv, int \<times> goerr option) go" where
  "FstatRemote H r =
     (let key = GetString (rcontext r) FileChunkCtxKey
      in case originRequest H r 0 0 of
          Inl e \<Rightarrow> ret (-1, Some e)
        | Inr originReq \<Rightarrow>
            bind (fstatRemote H originReq []) (\<lambda>(count, err).
            bind (record_metric (UpstreamResponse (urlHostname H (req_url originReq)) key ''fstat'' count))
              (\<lambda>_. ret (count, err))))"

definition NewReader :: "string \<Rightarrow> Context \<Rightarrow> int \<Rightarrow> reader" where
  "NewReader nodeName c retries = \<lparr>rcontext = c, resolveRetries = retries, node = nodeName\<rparr>"

section \<open>Outbound requests\<close>

lemma remoteRequest_Inr:
  assumes "remoteRequest H r u start stop = Inr req"
  shows "req_method req = ''GET''" "req_url req = u"
    "header_Get (req_header req) P2PHeaderKey = ''true''"
    "header_Get (req_header req) ''Range'' = range_value start stop"
    "header_Get (req_header req) CorrelationHeaderKey = GetString (rcontext r) CorrelationIdCtxKey"
    "header_Get (req_header req) NodeHeaderKey = node r"
  using assms
  by (auto simp: remoteRequest_def Let_def outbound_headers split: option.splits)
    (simp_all add: SetOutboundHeaders_def)

text \<open>What every request of this reader to \<open>cl\<close> looks like, given the peers the lookup delivered.\<close>

definition outbound_ok :: "reader \<Rightarrow> int \<Rightarrow> int \<Rightarrow> select list \<Rightarrow> string \<times> request \<Rightarrow> bool" where
  "outbound_ok r start stop evs = (\<lambda>(cl, req).
     req_method req = ''GET'' \<and> header_Get (req_header req) P2PHeaderKey = ''true''
     \<and> header_Get (req_header req) ''Range'' = range_value start stop
     \<and> header_Get (req_header req) CorrelationHeaderKey = GetString (rcontext r) CorrelationIdCtxKey
     \<and> (cl = [] \<and> req_url req = GetString (rcontext r) BlobUrlCtxKey
        \<or> (\<not> IsRequestFromAPeer (rcontext r) \<and>
           (\<exists>p. Peer p \<in> set evs \<and> cl = ID p \<and> req_url req = HttpHost p @ ''/blobs/'' @ GetString (rcontext r) BlobUrlCtxKey))))"

lemma originRequest_ok: "originRequest H r a b = Inr req \<Longrightarrow> outbound_ok r a b evs ([], req)"
  unfolding originRequest_def by (frule remoteRequest_Inr) (simp add: outbound_ok_def remoteRequest_Inr)

lemma peerRequest_ok:
  "peerRequest H r (HttpHost p) a b = Inr req \<Longrightarrow> Peer p \<in> set evs \<Longrightarrow> \<not> IsRequestFromAPeer (rcontext r) \<Longrightarrow>
     outbound_ok r a b evs (ID p, req)"
  unfolding peerRequest_def by (frule remoteRequest_Inr) (auto simp: outbound_ok_def remoteRequest_Inr)

section \<open>Running the operations\<close>

text \<open>Both operations on a peer send the one request and leave everything else alone but the buffer.\<close>

lemma client_Do_run:
  "client_Do H cl req s = (Ret (fst (httpDo H (http s) cl req)),
     s\<lparr>http := snd (httpDo H (http s) cl req), sent := sent s @ [(cl, req)]\<rparr>)"
  by (simp add: client_Do_def split: prod.splits)

definition answered :: "'n http_deps \<Rightarrow> string \<Rightarrow> request \<Rightarrow> ('lc, 'cid, 'ma, 'n) renv \<Rightarrow> ('lc, 'cid, 'ma, 'n) renv" where
  "answered H cl req s = s\<lparr>http := snd (httpDo H (http s) cl req), sent := sent s @ [(cl, req)]\<rparr>"

definition pread_answer :: "goerr + response \<Rightarrow> byte list \<Rightarrow> byte list \<times> int \<times> goerr option" where
  "pread_answer x buf = (case x of Inl err \<Rightarrow> (buf, 0, Some (RemoteError err)) | Inr resp \<Rightarrow> pread_response resp buf)"

lemma preadRemote_run:
  "preadRemote H req cl buf s = (Ret (pread_answer (fst (httpDo H (http s) cl req)) buf), answered H cl req s)"
  by (simp add: preadRemote_def bind_apply client_Do_run ret_apply answered_def pread_answer_def split: sum.splits)

lemma fstatRemote_run:
  "fstatRemote H req cl s =
     (Ret (case fst (httpDo H (http s) cl req) of Inl err \<Rightarrow> (0, Some (RemoteError err)) | Inr resp \<Rightarrow> fstat_response resp),
      answered H cl req s)"
  by (simp add: fstatRemote_def bind_apply client_Do_run ret_apply answered_def split: sum.splits)

lemma with_net_negCache: "with_net (negCacheCallback D key) s = (Ret (), s\<lparr>net := snd (negCacheCallback D key (net s))\<rparr>)"
  by (simp add: with_net_def negCacheCallback_def modify_apply)

lemma answered_simps [simp]:
  "sent (answered H cl req s) = sent s @ [(cl, req)]" "net (answered H cl req s) = net s"
  "recorded (answered H cl req s) = recorded s" "http (answered H cl req s) = snd (httpDo H (http s) cl req)"
  by (simp_all add: answered_def)

lemma ReadFull_length: "ReadFull resp buf = (buf', n, err) \<Longrightarrow> length buf' = length buf"
  by (auto simp: ReadFull_def Let_def split: if_splits option.splits)

lemma ReadFull_ok:
  "ReadFull resp buf = (buf', n, None) \<longleftrightarrow>
     length buf \<le> length (body resp) \<and> buf' = take (length buf) (body resp) \<and> n = int (length buf)"
  by (auto simp: ReadFull_def Let_def min_def split: if_splits option.splits)

lemma pread_answer_length: "pread_answer x buf = (buf', n, err) \<Longrightarrow> length buf' = length buf"
  by (auto simp: pread_answer_def pread_response_def dest: ReadFull_length split: sum.splits if_splits)

text \<open>An answer that serves a read of the whole buffer.\<close>

definition serves :: "goerr + response \<Rightarrow> nat \<Rightarrow> byte list \<Rightarrow> bool" where
  "serves x k b \<longleftrightarrow> (\<exists>resp. x = Inr resp \<and> StatusCode resp \<in> {200, 206} \<and> k \<le> length (body resp)
     \<and> b = take k (body resp))"

lemma pread_answer_ok:
  "pread_answer x buf = (buf', n, None) \<longleftrightarrow> serves x (length buf) buf' \<and> n = int (length buf)"
  by (auto simp: pread_answer_def pread_response_def serves_def ReadFull_ok split: sum.splits)

lemma record_metric_run: "record_metric m s = (Ret (), s\<lparr>recorded := recorded s @ [m]\<rparr>)"
  by (simp add: record_metric_def modify_apply)

lemmas reader_run = bind_apply ret_apply record_metric_run preadRemote_run fstatRemote_run with_net_negCache
  hang_apply

definition discovered :: "nat \<Rightarrow> PeerInfo \<Rightarrow> ('lc, 'cid, 'ma, 'n) renv \<Rightarrow> ('lc, 'cid, 'ma, 'n) renv" where
  "discovered peerCount p s =
     (if peerCount = 0 then s\<lparr>recorded := recorded s @ [PeerDiscovery (HttpHost p)]\<rparr> else s)"

lemma discovered_simps [simp]:
  "sent (discovered k p s) = sent s" "net (discovered k p s) = net s" "http (discovered k p s) = http s"
  by (simp_all add: discovered_def)

text \<open>The three ways a peer can go.\<close>

lemma peerLoop_Peer:
  "peerRequest H r (HttpHost p) a b = Inl e \<Longrightarrow>
     peerLoop D H r key a b operationPreadRemote (Peer p # evs) k buf s
       = peerLoop D H r key a b operationPreadRemote evs (max 1 k) buf (discovered k p s)"
  "peerRequest H r (HttpHost p) a b = Inr req \<Longrightarrow>
     pread_answer (fst (httpDo H (http s) (ID p) req)) buf = (buf', n, Some e) \<Longrightarrow>
     peerLoop D H r key a b operationPreadRemote (Peer p # evs) k buf s
       = peerLoop D H r key a b operationPreadRemote evs (max 1 k) buf' (answered H (ID p) req (discovered k p s))"
  "peerRequest H r (HttpHost p) a b = Inr req \<Longrightarrow>
     pread_answer (fst (httpDo H (http s) (ID p) req)) buf = (buf', n, None) \<Longrightarrow>
     peerLoop D H r key a b operationPreadRemote (Peer p # evs) k buf s
       = (Ret (buf', n, None), (answered H (ID p) req (discovered k p s))\<lparr>recorded :=
            recorded (discovered k p s) @ [PeerResponse (HttpHost p) key ''pread'' n]\<rparr>)"
  by (simp_all add: reader_run peer_operation_def discovered_def answered_def max_def Suc_le_eq)

lemma peerLoop_cases:
  obtains (bad_url) e where "peerRequest H r (HttpHost p) a b = Inl e"
  | (failed) req buf' n e where "peerRequest H r (HttpHost p) a b = Inr req"
      "pread_answer (fst (httpDo H nw (ID p) req)) buf = (buf', n, Some e)" "length buf' = length buf"
  | (served) req buf' n where "peerRequest H r (HttpHost p) a b = Inr req"
      "pread_answer (fst (httpDo H nw (ID p) req)) buf = (buf', n, None)"
proof (cases "peerRequest H r (HttpHost p) a b")
  case (Inr req)
  obtain buf' n err where a: "pread_answer (fst (httpDo H nw (ID p) req)) buf = (buf', n, err)"
    by (metis prod.collapse)
  with Inr that(2,3) pread_answer_length [OF a] show ?thesis by (cases err) auto
qed (use that(1) in blast)

text \<open>What a run of the loop sends and returns.\<close>

definition loop_post :: "'n http_deps \<Rightarrow> reader \<Rightarrow> int \<Rightarrow> int \<Rightarrow> select list \<Rightarrow> byte list \<Rightarrow> ('lc, 'cid, 'ma, 'n) renv \<Rightarrow>
    (byte list \<times> int \<times> goerr option) outcome \<Rightarrow> ('lc, 'cid, 'ma, 'n) renv \<Rightarrow> bool" where
  "loop_post H r a b all buf s x s' \<longleftrightarrow>
     (\<exists>new. sent s' = sent s @ new \<and> list_all (outbound_ok r a b all) new
        \<and> (\<forall>buf' n err. x = Ret (buf', n, err) \<longrightarrow> length buf' = length buf
             \<and> (err = None \<longrightarrow> n = int (length buf) \<and> (\<exists>pre cl req nw. new = pre @ [(cl, req)]
                  \<and> serves (fst (httpDo H nw cl req)) (length buf) buf' \<and> http s' = snd (httpDo H nw cl req)))))"

lemma loop_post_step:
  assumes "loop_post H r a b all buf1 s1 x s'" "sent s1 = sent s @ new" "list_all (outbound_ok r a b all) new"
    and "length buf1 = length buf"
  shows "loop_post H r a b all buf s x s'"
  using assms unfolding loop_post_def by (fastforce simp: list_all_append)

lemma loop_post_quit: "sent s' = sent s \<Longrightarrow> loop_post H r a b all buf s (Ret (buf, n, Some e)) s'"
  by (simp add: loop_post_def)

declare peerLoop.simps(4) [simp del]

lemma peerLoop_post:
  assumes "set evs \<subseteq> set all" "\<not> IsRequestFromAPeer (rcontext r)"
    and "peerLoop D H r key a b operationPreadRemote evs k buf s = (x, s')"
  shows "loop_post H r a b all buf s x s'"
  using assms(1,3)
proof (induction evs arbitrary: k buf s)
  case Nil
  then show ?case by (auto simp: reader_run loop_post_def)
next
  case (Cons ev evs)
  have evs: "set evs \<subseteq> set all" using Cons.prems(1) by simp
  show ?case
  proof (cases ev)
    case (Peer p)
    have all: "Peer p \<in> set all" using Cons.prems(1) Peer by simp
    note run = Cons.prems(2) [unfolded Peer]
    show ?thesis
    proof (cases rule: peerLoop_cases [where H = H and r = r and p = p and a = a and b = b and nw = "http s" and buf = buf])
      case (bad_url e)
      from Cons.IH [OF evs run [unfolded peerLoop_Peer(1) [OF bad_url]]] show ?thesis
        by (rule loop_post_step [where new = "[]"]) simp_all
    next
      case (failed req buf' n e)
      from Cons.IH [OF evs run [unfolded peerLoop_Peer(2) [OF failed(1,2)]]] show ?thesis
        by (rule loop_post_step [where new = "[(ID p, req)]"])
          (use failed(3) peerRequest_ok [OF failed(1) all assms(2)] in simp_all)
    next
      case (served req buf' n)
      with run peerRequest_ok [OF served(1) all assms(2)] pread_answer_length [OF served(2)] show ?thesis
        by (auto simp: peerLoop_Peer(3) [OF served] pread_answer_ok loop_post_def)
    qed
  qed (use Cons.prems(2) in \<open>auto simp: reader_run intro: loop_post_quit\<close>)
qed

lemma with_net_Resolve:
  "with_net m s = (x, s') \<Longrightarrow> sent s' = sent s \<and> http s' = http s \<and> recorded s' = recorded s"
  by (auto simp: with_net_def split: prod.splits)

lemma doP2p_post:
  assumes "doP2p D H infos i evs r key a b operationPreadRemote buf s = (x, s')"
  shows "loop_post H r a b evs buf s x s'"
proof (cases "IsRequestFromAPeer (rcontext r)")
  case True
  with assms show ?thesis
    by (auto simp: doP2p_def ret_apply intro: loop_post_quit)
next
  case False
  let ?m = "with_net (ResolveWithNegativeCacheCallback D infos i key False (resolveRetries r))"
  obtain y s1 where 1: "?m s = (y, s1)" by fastforce
  note s1 = with_net_Resolve [OF 1]
  show ?thesis
  proof (cases y)
    case (Ret v)
    show ?thesis
    proof (cases v)
      case (Inl e)
      with assms 1 Ret False s1 show ?thesis
        by (auto simp: doP2p_def bind_apply ret_apply intro: loop_post_quit)
    next
      case (Inr ch)
      with assms 1 Ret False have "peerLoop D H r key a b operationPreadRemote evs 0 buf s1 = (x, s')"
        by (simp add: doP2p_def bind_apply)
      from peerLoop_post [OF subset_refl False this] show ?thesis
        by (rule loop_post_step [where new = "[]"]) (use s1 in simp_all)
    qed
  qed (use assms 1 False s1 in \<open>auto simp: doP2p_def bind_apply loop_post_def\<close>)
qed

lemma PreadRemote_post:
  assumes "PreadRemote D H infos i evs r buf offset s = (x, s')"
  shows "loop_post H r offset (i64 (int (length buf) + offset - 1)) evs buf s x s'"
proof -
  let ?b = "i64 (int (length buf) + offset - 1)"
  let ?m = "doP2p D H infos i evs r (GetString (rcontext r) FileChunkCtxKey) offset ?b operationPreadRemote buf"
  obtain y s1 where 1: "?m s = (y, s1)" by fastforce
  note post = doP2p_post [OF 1]
  show ?thesis
  proof (cases "\<exists>buf1 n e. y = Ret (buf1, n, Some e)")
    case False
    then have "x = y \<and> s' = s1"
      using assms 1 by (cases y) (auto simp: PreadRemote_def Let_def bind_apply ret_apply)
    with post show ?thesis by simp
  next
    case True
    then obtain buf1 n e where y: "y = Ret (buf1, n, Some e)" by blast
    obtain new where new: "sent s1 = sent s @ new" "list_all (outbound_ok r offset ?b evs) new"
      "length buf1 = length buf"
      using post y by (auto simp: loop_post_def)
    show ?thesis
    proof (cases "originRequest H r offset ?b")
      case (Inl e')
      with assms 1 y new show ?thesis
        by (auto simp: PreadRemote_def Let_def bind_apply ret_apply loop_post_def)
    next
      case (Inr req)
      obtain buf2 m err where a: "pread_answer (fst (httpDo H (http s1) [] req)) buf1 = (buf2, m, err)"
        by (metis prod.collapse)
      have x: "x = Ret (buf2, m, err)" "sent s' = sent s1 @ [([], req)]" "http s' = snd (httpDo H (http s1) [] req)"
        using assms 1 y Inr a by (auto simp: PreadRemote_def Let_def reader_run)
      have "loop_post H r offset ?b evs buf1 s1 x s'"
        unfolding loop_post_def using x originRequest_ok [OF Inr, of evs] pread_answer_length [OF a] a
        by (cases err) (auto simp: pread_answer_ok)
      then show ?thesis
        by (rule loop_post_step) (use new in auto)
    qed
  qed
qed

section \<open>Properties\<close>

text \<open>C15: a read that reports no error filled the whole buffer, with the first bytes of the body of the
  last answer it got, whose status was 200 or 206; whichever peers were tried before.\<close>

theorem PreadRemote_served:
  assumes "PreadRemote D H infos i evs r buf offset s = (Ret (buf', n, None), s')"
  shows "n = int (length buf) \<and> (\<exists>pre cl req nw resp. sent s' = sent s @ pre @ [(cl, req)]
    \<and> httpDo H nw cl req = (Inr resp, http s') \<and> StatusCode resp \<in> {200, 206}
    \<and> length buf \<le> length (body resp) \<and> buf' = take (length buf) (body resp))"
proof -
  from PreadRemote_post [OF assms] obtain pre cl req nw where
    p: "n = int (length buf)" "sent s' = sent s @ pre @ [(cl, req)]"
       "serves (fst (httpDo H nw cl req)) (length buf) buf'" "http s' = snd (httpDo H nw cl req)"
    by (auto simp: loop_post_def)
  from p(3) obtain resp where "fst (httpDo H nw cl req) = Inr resp" "StatusCode resp \<in> {200, 206}"
    "length buf \<le> length (body resp)" "buf' = take (length buf) (body resp)"
    by (auto simp: serves_def)
  with p show ?thesis
    by (intro conjI exI [of _ pre] exI [of _ cl] exI [of _ req] exI [of _ nw] exI [of _ resp])
      (auto simp: prod_eq_iff)
qed

text \<open>Every request a read sends, whatever the outcome, is a GET for the requested range, is marked
  as coming from a peer and carries the correlation id; it goes to the origin under the blob's own URL,
  or, only if the request being served does not itself come from a peer, to a peer that the lookup
  delivered.\<close>

theorem PreadRemote_outbound:
  assumes "PreadRemote D H infos i evs r buf offset s = (x, s')"
  shows "\<exists>new. sent s' = sent s @ new \<and> (\<forall>(cl, req) \<in> set new.
     req_method req = ''GET'' \<and> header_Get (req_header req) P2PHeaderKey = ''true''
     \<and> header_Get (req_header req) ''Range''
         = ''bytes='' @ FormatInt offset @ ''-'' @ FormatInt (i64 (int (length buf) + offset - 1))
     \<and> header_Get (req_header req) CorrelationHeaderKey = GetString (rcontext r) CorrelationIdCtxKey
     \<and> (cl = [] \<and> req_url req = GetString (rcontext r) BlobUrlCtxKey
        \<or> \<not> IsRequestFromAPeer (rcontext r) \<and> (\<exists>p. Peer p \<in> set evs \<and> cl = ID p
            \<and> req_url req = HttpHost p @ ''/blobs/'' @ GetString (rcontext r) BlobUrlCtxKey)))"
  using PreadRemote_post [OF assms]
  by (auto simp: loop_post_def outbound_ok_def list_all_iff range_value_def)

lemma doP2p_from_peer:
  "IsRequestFromAPeer (rcontext r) \<Longrightarrow>
     doP2p D H infos i evs r key a b opn buf s = (Ret (buf, -1, Some PeerNotFound), s)"
  by (simp add: doP2p_def ret_apply)

lemma PreadRemote_from_peer:
  assumes "IsRequestFromAPeer (rcontext r)" "PreadRemote D H infos i evs r buf offset s = (x, s')"
  shows "is_ret x \<and> net s' = net s \<and>
    (sent s' = sent s \<or> (\<exists>req. sent s' = sent s @ [([], req)] \<and> req_url req = GetString (rcontext r) BlobUrlCtxKey))"
  using assms(2)
  by (auto simp: PreadRemote_def Let_def doP2p_from_peer [OF assms(1)] reader_run originRequest_def
      remoteRequest_Inr split: sum.splits prod.splits)

text \<open>C12: requests do not loop through the network. Whatever a reader sends to a peer, the peer's own
  reader, working for that request, asks no further peer: it looks nothing up and sends at most one
  request, to the origin, for the same blob it was given.\<close>

theorem request_chain_ends:
  assumes "PreadRemote D H infos i evs r buf offset s = (x, s')" "(cl, req) \<in> set (drop (length (sent s)) (sent s'))"
    and "req_header (Request (rcontext r2)) = req_header req"
    and "PreadRemote D2 H2 infos2 i2 evs2 r2 buf2 offset2 s2 = (x2, s2')"
  shows "is_ret x2 \<and> net s2' = net s2 \<and> (sent s2' = sent s2
     \<or> (\<exists>req2. sent s2' = sent s2 @ [([], req2)] \<and> req_url req2 = GetString (rcontext r2) BlobUrlCtxKey))"
proof (rule PreadRemote_from_peer [OF _ assms(4)])
  from PreadRemote_post [OF assms(1)] assms(2) have "header_Get (req_header req) P2PHeaderKey = ''true''"
    by (auto simp: loop_post_def outbound_ok_def list_all_iff)
  with assms(3) show "IsRequestFromAPeer (rcontext r2)"
    by (simp add: IsRequestFromAPeer_def)
qed

section \<open>The order in which peers and origin are asked\<close>

text \<open>A network whose answers depend on the request alone.\<close>

definition stateless :: "'n http_deps \<Rightarrow> (string \<Rightarrow> request \<Rightarrow> goerr + response) \<Rightarrow> bool" where
  "stateless H f \<longleftrightarrow> (\<forall>n cl req. httpDo H n cl req = (f cl req, n))"

definition peer_requests :: "'n http_deps \<Rightarrow> reader \<Rightarrow> int \<Rightarrow> int \<Rightarrow> PeerInfo list \<Rightarrow> (string \<times> request) list" where
  "peer_requests H r a b ps = concat (map (\<lambda>p. case peerRequest H r (HttpHost p) a b of
      Inl e \<Rightarrow> [] | Inr req \<Rightarrow> [(ID p, req)]) ps)"

definition peer_serves :: "'n http_deps \<Rightarrow> (string \<Rightarrow> request \<Rightarrow> goerr + response) \<Rightarrow> reader \<Rightarrow> int \<Rightarrow> int \<Rightarrow> nat \<Rightarrow> PeerInfo \<Rightarrow> bool" where
  "peer_serves H f r a b k p \<longleftrightarrow> (\<exists>req data. peerRequest H r (HttpHost p) a b = Inr req \<and> serves (f (ID p) req) k data)"

lemma peerLoop_failing:
  assumes "stateless H f" "\<forall>p \<in> set ps. \<not> peer_serves H f r a b (length buf) p"
  shows "\<exists>buf' k' s'. peerLoop D H r key a b operationPreadRemote (map Peer ps @ evs) k buf s
      = peerLoop D H r key a b operationPreadRemote evs k' buf' s'
    \<and> length buf' = length buf \<and> sent s' = sent s @ peer_requests H r a b ps \<and> net s' = net s"
  using assms(2)
proof (induction ps arbitrary: k buf s)
  case Nil
  then show ?case by (auto simp: peer_requests_def)
next
  case (Cons p ps)
  have ps: "\<forall>q \<in> set ps. \<not> peer_serves H f r a b (length buf) q" using Cons.prems by simp
  show ?case
  proof (cases rule: peerLoop_cases [where H = H and r = r and p = p and a = a and b = b and nw = "http s" and buf = buf])
    case (bad_url e)
    from Cons.IH [OF ps, of "max 1 k" "discovered k p s"] bad_url show ?thesis
      by (auto simp: peerLoop_Peer(1) [OF bad_url] peer_requests_def)
  next
    case (failed req buf1 n e)
    have "\<forall>q \<in> set ps. \<not> peer_serves H f r a b (length buf1) q" using ps failed(3) by simp
    from Cons.IH [OF this, of "max 1 k" "answered H (ID p) req (discovered k p s)"] failed show ?thesis
      by (auto simp: peerLoop_Peer(2) [OF failed(1,2)] peer_requests_def)
  next
    case (served req buf1 n)
    with assms(1) have "peer_serves H f r a b (length buf) p"
      by (auto simp: peer_serves_def stateless_def pread_answer_ok)
    with Cons.prems show ?thesis by simp
  qed
qed

text \<open>A reader whose own request is not from a peer and whose lookup is started.\<close>

definition lookup_starts :: "('lc, 'cid, 'ma) net_deps \<Rightarrow> reader \<Rightarrow> ('lc, 'cid, 'ma, 'n) renv \<Rightarrow> bool" where
  "lookup_starts D r s \<longleftrightarrow> \<not> IsRequestFromAPeer (rcontext r) \<and> 0 \<le> resolveRetries r
     \<and> fst (lcGet D (lookupCache (rtr (net s))) (GetString (rcontext r) FileChunkCtxKey)) \<noteq> Some strPeerNotFound
     \<and> \<not> isl (cidSum D (GetString (rcontext r) FileChunkCtxKey))"

lemma doP2p_starts:
  assumes "lookup_starts D r s"
  shows "\<exists>s1. doP2p D H infos i evs r (GetString (rcontext r) FileChunkCtxKey) a b opn buf s
      = peerLoop D H r (GetString (rcontext r) FileChunkCtxKey) a b opn evs 0 buf s1
    \<and> sent s1 = sent s \<and> recorded s1 = recorded s \<and> http s1 = http s"
  using assms
  by (auto simp: lookup_starts_def doP2p_def with_net_def ResolveWithNegativeCacheCallback_def Resolve_def
      bind_apply ret_apply modify_apply isl_def split: prod.splits sum.splits)

text \<open>Peers are asked in the order of discovery, and the first one that serves the range ends the
  read: its bytes are returned and neither a later peer nor the origin is asked.\<close>

theorem PreadRemote_first_peer_wins:
  assumes "stateless H f" "lookup_starts D r s"
    and "stop = i64 (int (length buf) + offset - 1)"
    and "\<forall>q \<in> set ps. \<not> peer_serves H f r offset stop (length buf) q"
    and "peerRequest H r (HttpHost p) offset stop = Inr req" "serves (f (ID p) req) (length buf) data"
  shows "\<exists>s'. PreadRemote D H infos i (map Peer ps @ Peer p # evs) r buf offset s = (Ret (data, int (length buf), None), s')
    \<and> sent s' = sent s @ peer_requests H r offset stop ps @ [(ID p, req)]"
proof -
  let ?key = "GetString (rcontext r) FileChunkCtxKey"
  obtain s1 where s1: "doP2p D H infos i (map Peer ps @ Peer p # evs) r ?key offset stop operationPreadRemote buf s
      = peerLoop D H r ?key offset stop operationPreadRemote (map Peer ps @ Peer p # evs) 0 buf s1" "sent s1 = sent s"
    using doP2p_starts [OF assms(2)] by blast
  obtain buf2 k s2 where s2: "peerLoop D H r ?key offset stop operationPreadRemote (map Peer ps @ Peer p # evs) 0 buf s1
      = peerLoop D H r ?key offset stop operationPreadRemote (Peer p # evs) k buf2 s2"
    "length buf2 = length buf" "sent s2 = sent s1 @ peer_requests H r offset stop ps"
    using peerLoop_failing [OF assms(1,4)] by blast
  have "pread_answer (fst (httpDo H (http s2) (ID p) req)) buf2 = (data, int (length buf), None)"
    using assms(1,6) s2(2) by (simp add: pread_answer_ok stateless_def)
  note run = peerLoop_Peer(3) [OF assms(5) this]
  show ?thesis
    using s1 s2 by (simp add: PreadRemote_def Let_def bind_apply ret_apply run flip: assms(3))
qed

text \<open>C19: when no discovered peer serves the range and the lookup then times out or is exhausted, the
  key is put into the negative cache, and the origin is asked once, last, for the same range; if it
  serves it, its bytes are the result.\<close>

theorem PreadRemote_origin_fallback:
  assumes "stateless H f" "lookup_starts D r s"
    and "stop = i64 (int (length buf) + offset - 1)"
    and "\<forall>q \<in> set ps. \<not> peer_serves H f r offset stop (length buf) q"
    and "ev \<in> {Deadline, ChanClosed}"
    and "originRequest H r offset stop = Inr req"
  shows "\<exists>s' lc x. PreadRemote D H infos i (map Peer ps @ ev # evs) r buf offset s = (Ret x, s')
    \<and> sent s' = sent s @ peer_requests H r offset stop ps @ [([], req)]
    \<and> lookupCache (rtr (net s')) = lcSet D lc (GetString (rcontext r) FileChunkCtxKey) strPeerNotFound
    \<and> (\<forall>data. serves (f [] req) (length buf) data \<longrightarrow> x = (data, int (length buf), None))"
proof -
  let ?key = "GetString (rcontext r) FileChunkCtxKey"
  obtain s1 where s1: "doP2p D H infos i (map Peer ps @ ev # evs) r ?key offset stop operationPreadRemote buf s
      = peerLoop D H r ?key offset stop operationPreadRemote (map Peer ps @ ev # evs) 0 buf s1" "sent s1 = sent s"
    using doP2p_starts [OF assms(2)] by blast
  obtain buf2 k s2 where s2: "peerLoop D H r ?key offset stop operationPreadRemote (map Peer ps @ ev # evs) 0 buf s1
      = peerLoop D H r ?key offset stop operationPreadRemote (ev # evs) k buf2 s2"
    "length buf2 = length buf" "sent s2 = sent s1 @ peer_requests H r offset stop ps"
    using peerLoop_failing [OF assms(1,4)] by blast
  let ?s3 = "s2\<lparr>net := snd (negCacheCallback D ?key (net s2))\<rparr>"
  have run: "peerLoop D H r ?key offset stop operationPreadRemote (ev # evs) k buf2 s2
      = (Ret (buf2, -1, Some PeerNotFound), ?s3)"
    using assms(5) by (auto simp: reader_run)
  obtain x where x: "pread_answer (f [] req) buf2 = x" by simp
  have "PreadRemote D H infos i (map Peer ps @ ev # evs) r buf offset s
    = (Ret x, (answered H [] req ?s3)\<lparr>recorded := recorded s2 @
        [UpstreamResponse (urlHostname H (req_url req)) ?key ''pread'' (fst (snd x))]\<rparr>)"
    using s1(1) s2(1) assms(1,6) x
    by (cases x) (simp add: PreadRemote_def Let_def reader_run run stateless_def flip: assms(3))
  moreover have "\<forall>data. serves (f [] req) (length buf) data \<longrightarrow> x = (data, int (length buf), None)"
    using x s2(2) by (auto simp: pread_answer_ok)
  moreover have "lookupCache (rtr (net ?s3)) = lcSet D (lookupCache (rtr (net s2))) ?key strPeerNotFound"
    by (simp add: negCacheCallback_def modify_apply)
  ultimately show ?thesis
    using s1(2) s2(3) by (intro exI conjI) (assumption | simp)+
qed

text \<open>The router never closes the channel of peers, so a lookup whose peers all fail is not noticed
  to be exhausted: the read waits for the deadline.\<close>

theorem exhausted_lookup_waits:
  assumes "stateless H f" "lookup_starts D r s"
    and "\<forall>q \<in> set ps. \<not> peer_serves H f r offset (i64 (int (length buf) + offset - 1)) (length buf) q"
  shows "fst (PreadRemote D H infos i (map Peer ps) r buf offset s) = Hang"
proof -
  let ?key = "GetString (rcontext r) FileChunkCtxKey" and ?stop = "i64 (int (length buf) + offset - 1)"
  obtain s1 where s1: "doP2p D H infos i (map Peer ps) r ?key offset ?stop operationPreadRemote buf s
      = peerLoop D H r ?key offset ?stop operationPreadRemote (map Peer ps) 0 buf s1"
    using doP2p_starts [OF assms(2)] by blast
  obtain buf2 k s2 where "peerLoop D H r ?key offset ?stop operationPreadRemote (map Peer ps @ []) 0 buf s1
      = peerLoop D H r ?key offset ?stop operationPreadRemote [] k buf2 s2"
    using peerLoop_failing [OF assms(1,3), of D ?key "[]" 0 s1] by blast
  with s1 show ?thesis
    by (simp add: PreadRemote_def Let_def bind_apply hang_apply)
qed

text \<open>The size of a file is asked from the origin only, and a partial answer gives the total of its
  content range, whatever its own length.\<close>

theorem FstatRemote_total_size:
  assumes "originRequest H r 0 0 = Inr req" "httpDo H (http s) [] req = (Inr resp, n')"
    and "StatusCode resp = 206" "header_Get (resp_header resp) ''Content-Range'' = ''bytes '' @ w @ ''/'' @ FormatInt len"
    and "0 \<le> len" "in_i64 len"
  shows "\<exists>s'. FstatRemote H r s = (Ret (len, None), s') \<and> sent s' = sent s @ [([], req)] \<and> net s' = net s"
proof -
  have "fst (ParseInt (FormatInt len)) = len"
    using assms(5,6) by simp
  moreover have "LastIndexByte (''bytes '' @ w @ ''/'' @ FormatInt len) (CHR ''/'') = Some (length (''bytes '' @ w))"
    using LastIndexByte_append [of "CHR ''/''" "FormatInt len" "''bytes '' @ w"] by (simp add: FormatInt_no_sep)
  ultimately have "fstat_response resp = (len, None)"
    using assms(3,4) by (simp add: fstat_response_def Let_def)
  with assms(1,2) show ?thesis
    by (simp add: FstatRemote_def Let_def reader_run)
qed

section \<open>A small network\<close>

text \<open>One peer answers with part of the range's bytes, one with an error, one in full; the origin answers
  with the whole blob.\<close>

definition demo_answer :: "string \<Rightarrow> goerr + response" where
  "demo_answer cl =
     (if cl = ''peer'' then Inr \<lparr>StatusCode = 206, ContentLength = 2, resp_header = Map.empty, body = [7, 8], body_err = None\<rparr>
      else if cl = ''short'' then Inr \<lparr>StatusCode = 206, ContentLength = 2, resp_header = Map.empty, body = [5], body_err = None\<rparr>
      else if cl = [] then Inr \<lparr>StatusCode = 206, ContentLength = 1,
        resp_header = [''Content-Range'' \<mapsto> [''bytes 0-0/'' @ FormatInt 3]], body = [7, 8, 9], body_err = None\<rparr>
      else Inl (LibError ''connection refused''))"

definition demo_http :: "unit http_deps" where
  "demo_http = \<lparr>urlParse = (\<lambda>_. None), urlHostname = (\<lambda>u. u), httpDo = (\<lambda>n cl req. (demo_answer cl, n))\<rparr>"

definition demo_reader :: reader where
  "demo_reader = \<lparr>rcontext = \<lparr>Request = \<lparr>req_method = ''GET'', req_url = ''/blobs/u'', req_rawQuery = [],
       req_header = Map.empty\<rparr>, param_url = ''u'', keys = [FileChunkCtxKey \<mapsto> ''d_0'', BlobUrlCtxKey \<mapsto> ''https://origin/u'']\<rparr>,
     resolveRetries = 3, node = ''n1''\<rparr>"

definition demo_env :: "((string \<times> string) option, string, string, unit) renv" where
  "demo_env = \<lparr>net = demo_net, http = (), sent = [], recorded = []\<rparr>"

definition demo_read :: "select list \<Rightarrow> (byte list \<times> int \<times> goerr option) outcome \<times> ((string \<times> string) option, string, string, unit) renv" where
  "demo_read evs = PreadRemote demo_deps demo_http (\<lambda>_ _. demo_providers) 0 evs demo_reader [0, 0] 0 demo_env"

definition demo_short :: PeerInfo where
  "demo_short = \<lparr>ID = ''short'', HttpHost = ''https://10.0.0.9:5001''\<rparr>"

lemma demo_not_from_peer: "\<not> IsRequestFromAPeer (rcontext demo_reader)"
  by (simp add: IsRequestFromAPeer_def demo_reader_def header_Get_def)

lemma demo_starts: "lookup_starts demo_deps demo_reader demo_env"
  using demo_not_from_peer
  by (simp add: lookup_starts_def) (simp add: demo_reader_def demo_deps_def demo_env_def demo_net_def new_rnet_def)

lemma demo_stateless: "stateless demo_http (\<lambda>cl req. demo_answer cl)"
  by (simp add: stateless_def demo_http_def)

lemma demo_request: "\<exists>req. remoteRequest demo_http demo_reader u a b = Inr req"
  by (simp add: remoteRequest_def demo_http_def)

lemma demo_serves:
  "serves (demo_answer ''peer'') (Suc (Suc 0)) [7, 8]" "serves (demo_answer []) (Suc (Suc 0)) [7, 8]"
  "\<not> serves (demo_answer ''short'') (Suc (Suc 0)) b"
  by (simp_all add: serves_def demo_answer_def)

lemma demo_short_fails: "\<not> peer_serves demo_http (\<lambda>cl req. demo_answer cl) demo_reader a b (Suc (Suc 0)) demo_short"
  using demo_serves(3) by (simp add: peer_serves_def demo_short_def)

lemma demo_peer_request:
  obtains req where "peerRequest demo_http demo_reader (HttpHost demo_peer) 0 1 = Inr req"
  using demo_request unfolding peerRequest_def by blast

lemma demo_origin_request:
  obtains req where "originRequest demo_http demo_reader 0 b = Inr req"
  using demo_request unfolding originRequest_def by blast

lemma demo_read_served: "\<exists>s'. demo_read [Peer demo_peer] = (Ret ([7, 8], 2, None), s')"
proof -
  let ?key = "GetString (rcontext demo_reader) FileChunkCtxKey"
  obtain s1 where 1: "doP2p demo_deps demo_http (\<lambda>_ _. demo_providers) 0 [Peer demo_peer] demo_reader ?key 0 1 operationPreadRemote [0, 0] demo_env
      = peerLoop demo_deps demo_http demo_reader ?key 0 1 operationPreadRemote [Peer demo_peer] 0 [0, 0] s1"
    using doP2p_starts [OF demo_starts] by blast
  obtain req where req: "peerRequest demo_http demo_reader (HttpHost demo_peer) 0 1 = Inr req"
    by (rule demo_peer_request)
  have "pread_answer (fst (httpDo demo_http (http s1) (ID demo_peer) req)) [0, 0] = ([7, 8], 2, None)"
    using demo_serves(1) by (simp add: pread_answer_ok demo_http_def demo_peer_def)
  with 1 show ?thesis
    by (simp add: demo_read_def PreadRemote_def Let_def bind_apply ret_apply peerLoop_Peer(3) [OF req])
qed

theorem PreadRemote_served_witness:
  "\<exists>s' pre cl req nw resp. demo_read [Peer demo_peer] = (Ret ([7, 8], 2, None), s') \<and> sent s' = pre @ [(cl, req)]
     \<and> httpDo demo_http nw cl req = (Inr resp, http s') \<and> StatusCode resp \<in> {200, 206} \<and> [7, 8] = take (length [0::byte, 0]) (body resp)"
proof -
  obtain s' where s': "demo_read [Peer demo_peer] = (Ret ([7, 8], 2, None), s')"
    using demo_read_served by blast
  have "sent demo_env = []" by (simp add: demo_env_def)
  note e = this
  from PreadRemote_served [OF s' [unfolded demo_read_def], unfolded e append_Nil]
  obtain pre cl req nw resp where "sent s' = pre @ [(cl, req)]" "httpDo demo_http nw cl req = (Inr resp, http s')"
    "StatusCode resp \<in> {200, 206}" "[7, 8] = take (length [0::byte, 0]) (body resp)"
    by blast
  with s' show ?thesis by blast
qed

theorem PreadRemote_outbound_witness:
  "\<exists>s' cl req. demo_read [Peer demo_peer] = (Ret ([7, 8], 2, None), s') \<and> (cl, req) \<in> set (sent s')
     \<and> header_Get (req_header req) P2PHeaderKey = ''true''"
proof -
  obtain s' where s': "demo_read [Peer demo_peer] = (Ret ([7, 8], 2, None), s')"
    using demo_read_served by blast
  have "sent s' \<noteq> []"
    using PreadRemote_post [OF s' [unfolded demo_read_def]] by (auto simp: loop_post_def)
  then obtain q where q: "q \<in> set (sent s')" by (cases "sent s'") auto
  with PreadRemote_outbound [OF s' [unfolded demo_read_def]]
  have "header_Get (req_header (snd q)) P2PHeaderKey = ''true''"
    by (auto simp: demo_env_def)
  with s' q show ?thesis by (metis prod.collapse)
qed

theorem request_chain_ends_witness:
  "\<exists>s' req x2 s2'. demo_read [Peer demo_peer] = (Ret ([7, 8], 2, None), s')
     \<and> PreadRemote demo_deps demo_http (\<lambda>_ _. demo_providers) 1 [Peer demo_short]
         (demo_reader\<lparr>rcontext := (rcontext demo_reader)\<lparr>Request := req\<rparr>\<rparr>) [0, 0] 0 demo_env = (x2, s2')
     \<and> net s2' = net demo_env"
proof -
  obtain s' where s': "demo_read [Peer demo_peer] = (Ret ([7, 8], 2, None), s')"
    using demo_read_served by blast
  have "sent s' \<noteq> []"
    using PreadRemote_post [OF s' [unfolded demo_read_def]] by (auto simp: loop_post_def)
  then obtain cl req where q: "(cl, req) \<in> set (drop (length (sent demo_env)) (sent s'))"
    by (cases "sent s'") (auto simp: demo_env_def)
  let ?r2 = "demo_reader\<lparr>rcontext := (rcontext demo_reader)\<lparr>Request := req\<rparr>\<rparr>"
  obtain x2 s2' where 2: "PreadRemote demo_deps demo_http (\<lambda>_ _. demo_providers) 1 [Peer demo_short] ?r2 [0, 0] 0 demo_env = (x2, s2')"
    by fastforce
  have "net s2' = net demo_env"
    using request_chain_ends [OF s' [unfolded demo_read_def] q _ 2] by simp
  with s' 2 show ?thesis by blast
qed

theorem PreadRemote_first_peer_wins_witness:
  "\<exists>s'. demo_read [Peer demo_short, Peer demo_peer] = (Ret ([7, 8], 2, None), s') \<and> length (sent s') = 2"
proof -
  obtain req where req: "peerRequest demo_http demo_reader (HttpHost demo_peer) 0 1 = Inr req"
    by (rule demo_peer_request)
  obtain req2 where req2: "peerRequest demo_http demo_reader (HttpHost demo_short) 0 1 = Inr req2"
    using demo_request unfolding peerRequest_def by blast
  have "\<exists>s'. PreadRemote demo_deps demo_http (\<lambda>_ _. demo_providers) 0 (map Peer [demo_short] @ Peer demo_peer # []) demo_reader [0, 0] 0 demo_env
      = (Ret ([7, 8], int (length [0::byte, 0]), None), s')
    \<and> sent s' = sent demo_env @ peer_requests demo_http demo_reader 0 1 [demo_short] @ [(ID demo_peer, req)]"
    by (rule PreadRemote_first_peer_wins [OF demo_stateless demo_starts _ _ req])
      (use demo_short_fails demo_serves(1) in \<open>simp_all add: demo_peer_def\<close>)
  with req2 show ?thesis
    by (auto simp: demo_read_def demo_env_def peer_requests_def)
qed

theorem PreadRemote_origin_fallback_witness:
  "\<exists>s'. demo_read [Peer demo_short, Deadline] = (Ret ([7, 8], 2, None), s') \<and> fst (last (sent s')) = []
     \<and> lookupCache (rtr (net s')) = Some (''d_0'', strPeerNotFound)"
proof -
  obtain req where req: "originRequest demo_http demo_reader 0 1 = Inr req"
    by (rule demo_origin_request)
  have "\<exists>s' lc x. PreadRemote demo_deps demo_http (\<lambda>_ _. demo_providers) 0 (map Peer [demo_short] @ Deadline # []) demo_reader [0, 0] 0 demo_env = (Ret x, s')
    \<and> sent s' = sent demo_env @ peer_requests demo_http demo_reader 0 1 [demo_short] @ [([], req)]
    \<and> lookupCache (rtr (net s')) = lcSet demo_deps lc (GetString (rcontext demo_reader) FileChunkCtxKey) strPeerNotFound
    \<and> (\<forall>data. serves (demo_answer []) (length [0::byte, 0]) data \<longrightarrow> x = (data, int (length [0::byte, 0]), None))"
    by (rule PreadRemote_origin_fallback [OF demo_stateless demo_starts _ _ _ req])
      (use demo_short_fails in simp_all)
  moreover have "GetString (rcontext demo_reader) FileChunkCtxKey = ''d_0''"
    by (simp add: demo_reader_def GetString_def FileChunkCtxKey_def BlobUrlCtxKey_def)
  ultimately show ?thesis
    using demo_serves(2) by (auto simp: demo_read_def demo_deps_def)
qed

theorem exhausted_lookup_waits_witness: "fst (demo_read [Peer demo_short]) = Hang"
  using exhausted_lookup_waits [OF demo_stateless demo_starts, of "[demo_short]" 0 "[0, 0]"] demo_short_fails
  by (simp add: demo_read_def)

theorem FstatRemote_total_size_witness:
  "\<exists>s'. FstatRemote demo_http demo_reader demo_env = (Ret (3, None), s')"
proof -
  obtain req where req: "originRequest demo_http demo_reader 0 0 = Inr req"
    by (rule demo_origin_request)
  obtain resp where r: "demo_answer [] = Inr resp" "StatusCode resp = 206"
    "header_Get (resp_header resp) ''Content-Range'' = ''bytes '' @ ''0-0'' @ ''/'' @ FormatInt 3"
  proof (rule that)
    have "CanonicalHeaderKey ''Content-Range'' = ''Content-Range''" by code_simp
    then show "header_Get (resp_header (projr (demo_answer []))) ''Content-Range'' = ''bytes '' @ ''0-0'' @ ''/'' @ FormatInt 3"
      by (simp add: demo_answer_def header_Get_def)
  qed (simp_all add: demo_answer_def)
  show ?thesis
    using FstatRemote_total_size [OF req, of demo_env resp "()" "''0-0''" 3] r
    by (auto simp: demo_http_def in_i64_iff)
qed

end
