(* ===== verification/UrlParser.thy ===== *)
theory UrlParser
  imports GoLib
begin

text \<open>
  \<open>pkg/urlparser\<close>: the digest of a blob is cut out of its URL by three regular expressions. The
  model has a matcher for the constructs those expressions use, with the semantics of Go's
  \<open>regexp\<close> (leftmost match, greedy repetition, first alternative that leads to a match), and the
  expressions as data.
\<close>

section \<open>Regular expressions\<close>

text \<open>A symbol is a class of ASCII ranges or the dot; an atom is a symbol with its repetition.
  \<open>Group n x\<close> is a submatch \<open>(x{n})\<close>.\<close>

datatype symbol = Cls "(char \<times> char) list" | Any

datatype atom = One symbol | Opt symbol | Star symbol | Plus symbol | Rep nat symbol | Group nat symbol

definition code_of :: "char \<Rightarrow> nat" where
  "code_of c = of_char c"

definition in_range :: "nat \<Rightarrow> nat \<Rightarrow> nat \<Rightarrow> bool" where
  "in_range lo hi n \<longleftrightarrow> lo \<le> n \<and> n \<le> hi"

definition in_class :: "(char \<times> char) list \<Rightarrow> char \<Rightarrow> bool" where
  "in_class rs c \<longleftrightarrow> list_ex (\<lambda>(a, b). in_range (code_of a) (code_of b) (code_of c)) rs"

text \<open>\<open>utf8.DecodeRuneInString\<close>: how many bytes the first rune of a non-empty string takes; an
  invalid encoding is a rune of one byte.\<close>

definition second_byte_ok :: "nat \<Rightarrow> nat \<Rightarrow> bool" where
  "second_byte_ok b0 b1 =
     in_range (if b0 = 0xE0 then 0xA0 else if b0 = 0xF0 then 0x90 else 0x80)
              (if b0 = 0xED then 0x9F else if b0 = 0xF4 then 0x8F else 0xBF) b1"

definition rune_width :: "string \<Rightarrow> nat" where
  "rune_width s = (case map code_of (take 4 s) of
      b0 # b1 # bs \<Rightarrow>
        if in_range 0xC2 0xDF b0 \<and> second_byte_ok b0 b1 then 2
        else (case bs of
            b2 # bs' \<Rightarrow>
              if in_range 0xE0 0xEF b0 \<and> second_byte_ok b0 b1 \<and> in_range 0x80 0xBF b2 then 3
              else (case bs' of
                  [b3] \<Rightarrow> if in_range 0xF0 0xF4 b0 \<and> second_byte_ok b0 b1
                              \<and> in_range 0x80 0xBF b2 \<and> in_range 0x80 0xBF b3 then 4 else 1
                | _ \<Rightarrow> 1)
          | _ \<Rightarrow> 1)
    | _ \<Rightarrow> 1)"

text \<open>The dot matches any rune but a line feed.\<close>

definition sym_step :: "symbol \<Rightarrow> string \<Rightarrow> string option" where
  "sym_step x s = (case s of
      [] \<Rightarrow> None
    | c # s' \<Rightarrow> (case x of
          Cls rs \<Rightarrow> if in_class rs c then Some s' else None
        | Any \<Rightarrow> if code_of c = 10 then None else Some (drop (rune_width s) s)))"

fun sym_steps :: "nat \<Rightarrow> symbol \<Rightarrow> string \<Rightarrow> string option" where
  "sym_steps 0 x s = Some s"
| "sym_steps (Suc n) x s = (case sym_step x s of None \<Rightarrow> None | Some s' \<Rightarrow> sym_steps n x s')"

lemma rune_width_pos: "0 < rune_width s"
  by (auto simp: rune_width_def split: list.splits if_splits)

lemma sym_step_length: "sym_step x s = Some s' \<Longrightarrow> length s' < length s"
  using rune_width_pos [of s]
  by (auto simp: sym_step_def split: list.splits symbol.splits if_splits)

lemma sym_steps_length: "sym_steps n x s = Some s' \<Longrightarrow> length s' \<le> length s"
  by (induction n arbitrary: s) (fastforce split: option.splits dest!: sym_step_length)+

text \<open>The match at one position: the result is the last submatch, \<open>cap\<close> if there was none.\<close>

function match_here :: "atom list \<Rightarrow> string \<Rightarrow> string \<Rightarrow> string option" where
  "match_here [] s cap = Some cap"
| "match_here (One x # r) s cap = (case sym_step x s of None \<Rightarrow> None | Some s' \<Rightarrow> match_here r s' cap)"
| "match_here (Opt x # r) s cap = (case sym_step x s of
      None \<Rightarrow> match_here r s cap
    | Some s' \<Rightarrow> (case match_here r s' cap of None \<Rightarrow> match_here r s cap | Some c \<Rightarrow> Some c))"
| "match_here (Star x # r) s cap = (case sym_step x s of
      None \<Rightarrow> match_here r s cap
    | Some s' \<Rightarrow> (case match_here (Star x # r) s' cap of None \<Rightarrow> match_here r s cap | Some c \<Rightarrow> Some c))"
| "match_here (Plus x # r) s cap = (case sym_step x s of None \<Rightarrow> None | Some s' \<Rightarrow> match_here (Star x # r) s' cap)"
| "match_here (Rep n x # r) s cap = (case sym_steps n x s of None \<Rightarrow> None | Some s' \<Rightarrow> match_here r s' cap)"
| "match_here (Group n x # r) s cap = (case sym_steps n x s of
      None \<Rightarrow> None | Some s' \<Rightarrow> match_here r s' (take (length s - length s') s))"
  by pat_completeness auto
termination
  by (relation "measures [\<lambda>(r, s, cap). length s, \<lambda>(r, s, cap). length r]")
    (auto dest!: sym_step_length sym_steps_length)

fun FindStringSubmatch :: "atom list \<Rightarrow> string \<Rightarrow> string option" where
  "FindStringSubmatch r [] = match_here r [] []"
| "FindStringSubmatch r (c # s) = (case match_here r (c # s) [] of
      Some cap \<Rightarrow> Some cap
    | None \<Rightarrow> FindStringSubmatch r s)"

section \<open>The expressions of azure.go\<close>

definition lit :: "string \<Rightarrow> atom list" where
  "lit s = map (\<lambda>c. One (Cls [(c, c)])) s"

definition alnum :: "(char \<times> char) list" where
  "alnum = [(CHR ''a'', CHR ''z''), (CHR ''A'', CHR ''Z''), (CHR ''0'', CHR ''9'')]"

definition chars :: "string \<Rightarrow> (char \<times> char) list" where
  "chars s = map (\<lambda>c. (c, c)) s"

definition acr_regex :: "atom list" where
  "acr_regex = lit ''https://'' @ [Plus (Cls (alnum @ chars ''.''))] @ lit ''.azurecr.''
     @ [Plus (Cls ((CHR ''a'', CHR ''z'') # chars ''.'')), Opt (Cls (chars ''/''))] @ lit ''?''
     @ [Plus (Cls (alnum @ chars ''.&=-''))] @ lit ''&d=sha256:''
     @ [Group 64 (Cls alnum), Star (Cls (chars ''.''))]"

definition blob_path_regex :: "atom list" where
  "blob_path_regex = lit ''/'' @ [Plus (Cls (alnum @ chars ''-''))]
     @ lit ''//docker/registry/v2/blobs/sha256/''
     @ [Rep 2 (Cls [(CHR ''a'', CHR ''z''), (CHR ''0'', CHR ''9'')])] @ lit ''/''
     @ [Group 64 (Cls alnum)] @ lit ''/data'' @ [Star Any]"

definition mcr_regex :: "atom list" where
  "mcr_regex = lit ''https://'' @ [Plus (Cls alnum)] @ lit ''.data'' @ [One Any] @ lit ''mcr''
     @ [One Any] @ lit ''microsoft'' @ [One Any] @ lit ''com'' @ blob_path_regex"

definition blob_regex :: "atom list" where
  "blob_regex = lit ''https://'' @ [Plus (Cls alnum)] @ lit ''.blob.''
     @ [Plus (Cls ((CHR ''a'', CHR ''z'') # chars ''.''))] @ blob_path_regex"

definition regexes :: "atom list list" where
  "regexes = [acr_regex, mcr_regex, blob_regex]"

text \<open>The loop over \<open>regexes\<close>. Every expression has one submatch, so \<open>len(matches) == 2\<close> says that
  it matched.\<close>

fun first_match :: "atom list list \<Rightarrow> string \<Rightarrow> string option" where
  "first_match [] url = None"
| "first_match (r # rs) url = (case FindStringSubmatch r url of
      Some h \<Rightarrow> Some h
    | None \<Rightarrow> first_match rs url)"

definition parseDigestFromAzureUrl :: "string \<Rightarrow> string \<times> goerr option" where
  "parseDigestFromAzureUrl url =
     (if url = [] then ([], Some EmptyUrl)
      else case first_match regexes url of
          Some h \<Rightarrow> (''sha256:'' @ h, None)
        | None \<Rightarrow> ([], Some UnknownUrl))"

definition ParseDigest :: "string \<Rightarrow> string \<times> goerr option" where
  "ParseDigest url = parseDigestFromAzureUrl url"

section \<open>What a match consumes\<close>

declare match_here.simps(4) [simp del]

lemma sym_step_suffix: "sym_step x s = Some s' \<Longrightarrow> \<exists>p. s = p @ s'"
  unfolding sym_step_def
  by (auto split: list.splits symbol.splits if_splits) (metis append_take_drop_id)

lemma sym_steps_suffix: "sym_steps n x s = Some s' \<Longrightarrow> \<exists>p. s = p @ s'"
proof (induction n arbitrary: s)
  case (Suc n)
  then obtain s1 where s1: "sym_step x s = Some s1" "sym_steps n x s1 = Some s'"
    by (auto split: option.splits)
  from Suc.IH [OF s1(2)] sym_step_suffix [OF s1(1)] show ?case
    by (metis append.assoc)
qed simp

text \<open>A match of a concatenation goes through a match of its second part on a suffix.\<close>

definition later_match :: "atom list \<Rightarrow> string \<Rightarrow> string \<Rightarrow> bool" where
  "later_match r s c \<longleftrightarrow> (\<exists>p s' cap'. s = p @ s' \<and> match_here r s' cap' = Some c)"

lemma later_match_step:
  "sym_step x s = Some s1 \<Longrightarrow> later_match r s1 c \<Longrightarrow> later_match r s c"
  "sym_steps n x s = Some s1 \<Longrightarrow> later_match r s1 c \<Longrightarrow> later_match r s c"
  unfolding later_match_def by (metis append.assoc sym_step_suffix sym_steps_suffix)+

lemma later_match_refl: "match_here r s cap = Some c \<Longrightarrow> later_match r s c"
  unfolding later_match_def by (metis append_Nil)

lemma match_here_Star_suffix:
  "match_here (Star x # r) s cap = Some c \<Longrightarrow> \<exists>p s'. s = p @ s' \<and> match_here r s' cap = Some c"
proof (induction s rule: length_induct)
  case (1 s)
  show ?case
  proof (cases "sym_step x s")
    case None
    with "1.prems" show ?thesis by (auto simp: match_here.simps(4) [of x r s])
  next
    case (Some s1)
    then consider "match_here (Star x # r) s1 cap = Some c" | "match_here r s cap = Some c"
      using "1.prems" by (auto simp: match_here.simps(4) [of x r s] split: option.splits)
    then show ?thesis
    proof cases
      case 1
      with "1.IH" sym_step_length [OF Some] obtain p s' where "s1 = p @ s'" "match_here r s' cap = Some c"
        by blast
      with sym_step_suffix [OF Some] show ?thesis by (metis append.assoc)
    qed (metis append_Nil)
  qed
qed

lemma later_match_append: "later_match r (p @ s) c" if "later_match r s c"
  using that unfolding later_match_def by (metis append.assoc)

lemma match_here_append:
  "match_here (r1 @ r2) s cap = Some c \<Longrightarrow> later_match r2 s c"
proof (induction r1 arbitrary: s cap)
  case (Cons a r)
  have star: "later_match r2 s' c" if "match_here (Star x # r @ r2) s' cap = Some c" for x s'
    using match_here_Star_suffix [OF that] Cons.IH later_match_append by blast
  show ?case
    using Cons.prems
    by (cases a) (auto split: option.splits dest: star Cons.IH intro: later_match_step)
qed (simp add: later_match_refl)

lemma in_class_single [simp]: "in_class [(a, a)] c \<longleftrightarrow> c = a"
  by (auto simp: in_class_def in_range_def code_of_def)

lemma match_here_lit:
  "match_here (lit w @ r) s cap = (if has_prefix s w then match_here r (drop (length w) s) cap else None)"
proof (induction w arbitrary: s)
  case (Cons a w)
  then show ?case
    by (cases s) (auto simp: lit_def sym_step_def)
qed (simp add: lit_def)

lemma match_here_lit_Cons: "lit (a # w) = One (Cls [(a, a)]) # lit w"
  by (simp add: lit_def)

lemma sym_steps_class:
  "sym_steps n (Cls k) s = (if n \<le> length s \<and> list_all (in_class k) (take n s) then Some (drop n s) else None)"
proof (induction n arbitrary: s)
  case (Suc n)
  then show ?case by (cases s) (auto simp: sym_step_def)
qed simp

lemma match_here_Group:
  "match_here (Group n (Cls k) # r) s cap =
     (if n \<le> length s \<and> list_all (in_class k) (take n s) then match_here r (drop n s) (take n s) else None)"
  by (auto simp: sym_steps_class)

text \<open>A repetition of a class is deterministic when the character that has to follow is outside it.\<close>

lemma match_here_Star_class:
  "\<not> in_class k a \<Longrightarrow> match_here (Star (Cls k) # lit (a # w) @ r) s cap =
     match_here (lit (a # w) @ r) (dropWhile (in_class k) s) cap"
proof (induction s)
  case Nil
  then show ?case by (simp add: match_here.simps(4) sym_step_def)
next
  case (Cons c s)
  show ?case
  proof (cases "in_class k c")
    case True
    then have "match_here (lit (a # w) @ r) (c # s) cap = None"
      using Cons.prems by (auto simp: match_here_lit_Cons sym_step_def)
    with True Cons show ?thesis
      by (simp add: match_here.simps(4) [of _ _ "c # s"] sym_step_def split: option.splits)
  next
    case False
    then show ?thesis by (simp add: match_here.simps(4) sym_step_def)
  qed
qed

lemma match_here_Plus_class:
  assumes "\<not> in_class k a" "p \<noteq> []" "list_all (in_class k) p" "\<not> in_class k b"
  shows "match_here (Plus (Cls k) # lit (a # w) @ r) (p @ b # t) cap = match_here (lit (a # w) @ r) (b # t) cap"
proof -
  obtain c p' where p: "p = c # p'" using assms(2) by (cases p) auto
  have "dropWhile (in_class k) (p' @ b # t) = b # t"
    using assms p by (simp add: dropWhile_append3 list_all_iff)
  then have "match_here (Star (Cls k) # lit (a # w) @ r) (p' @ b # t) cap = match_here (lit (a # w) @ r) (b # t) cap"
    using match_here_Star_class [OF assms(1)] by simp
  moreover have "sym_step (Cls k) (p @ b # t) = Some (p' @ b # t)"
    using p assms(3) by (simp add: sym_step_def)
  ultimately show ?thesis by simp
qed

section \<open>The digest is a part of the URL\<close>

lemma has_prefix_append: "has_prefix s w \<longleftrightarrow> (\<exists>t. s = w @ t)"
  by (induction s w rule: has_prefix.induct) auto

lemma match_here_Star_end: "match_here [Star x] s cap = Some c \<Longrightarrow> c = cap"
  using match_here_Star_suffix [of x "[]" s cap c] by auto

lemma later_match_digest:
  assumes "later_match (lit w @ Group n (Cls k) # lit w' @ [Star x]) s h"
  shows "\<exists>u v. s = u @ w @ h @ w' @ v \<and> length h = n \<and> list_all (in_class k) h"
proof -
  obtain u t cap where t: "s = u @ t"
    "match_here (lit w @ Group n (Cls k) # lit w' @ [Star x]) t cap = Some h"
    using assms by (auto simp: later_match_def)
  from t(2) obtain t1 where t1: "t = w @ t1" "n \<le> length t1" "list_all (in_class k) (take n t1)"
    "match_here (lit w' @ [Star x]) (drop n t1) (take n t1) = Some h"
    by (auto simp: match_here_lit has_prefix_append match_here_Group simp del: match_here.simps(7)
        split: if_splits)
  from t1(4) obtain v where v: "drop n t1 = w' @ v" "h = take n t1"
    by (auto simp: match_here_lit has_prefix_append dest: match_here_Star_end split: if_splits)
  then have "t1 = h @ w' @ v" by (metis append_take_drop_id)
  with t(1) t1(1) have "s = u @ w @ h @ w' @ v" by simp
  moreover have "length h = n" "list_all (in_class k) h"
    using t1(2,3) by (simp_all add: v(2))
  ultimately show ?thesis by blast
qed

lemma FindStringSubmatch_Some:
  "FindStringSubmatch r s = Some h \<Longrightarrow> \<exists>p t. s = p @ t \<and> match_here r t [] = Some h"
proof (induction s)
  case (Cons c s)
  show ?case
  proof (cases "match_here r (c # s) []")
    case None
    with Cons obtain p t where "s = p @ t" "match_here r t [] = Some h" by auto
    then show ?thesis by (intro exI [of _ "c # p"] exI [of _ t]) simp
  next
    case (Some h')
    with Cons.prems show ?thesis by (intro exI [of _ "[]"] exI [of _ "c # s"]) simp
  qed
qed auto

lemma FindStringSubmatch_None:
  "FindStringSubmatch r s = None \<longleftrightarrow> (\<forall>p t. s = p @ t \<longrightarrow> match_here r t [] = None)"
  by (induction s) (auto simp: Cons_eq_append_conv split: option.splits)

text \<open>Each expression ends in its submatch between two literals and a repetition.\<close>

definition digest_tail :: "string \<times> string \<times> symbol \<Rightarrow> atom list" where
  "digest_tail = (\<lambda>(w, w', x). lit w @ Group 64 (Cls alnum) # lit w' @ [Star x])"

lemma acr_regex_tail:
  "acr_regex = lit ''https://'' @ ([Plus (Cls (alnum @ chars ''.''))] @ lit ''.azurecr.''
     @ [Plus (Cls ((CHR ''a'', CHR ''z'') # chars ''.'')), Opt (Cls (chars ''/''))] @ lit ''?''
     @ [Plus (Cls (alnum @ chars ''.&=-''))]) @ digest_tail (''&d=sha256:'', [], Cls (chars ''.''))"
  by (simp add: acr_regex_def digest_tail_def lit_def [of "[]"])

lemma blob_path_regex_tail:
  "blob_path_regex = (lit ''/'' @ [Plus (Cls (alnum @ chars ''-''))]
     @ lit ''//docker/registry/v2/blobs/sha256/''
     @ [Rep 2 (Cls [(CHR ''a'', CHR ''z''), (CHR ''0'', CHR ''9'')])])
     @ digest_tail (''/'', ''/data'', Any)"
  by (simp add: blob_path_regex_def digest_tail_def)

lemma path_regexes:
  "mcr_regex = (lit ''https://'' @ [Plus (Cls alnum)] @ lit ''.data'' @ [One Any] @ lit ''mcr''
     @ [One Any] @ lit ''microsoft'' @ [One Any] @ lit ''com'') @ blob_path_regex"
  "blob_regex = (lit ''https://'' @ [Plus (Cls alnum)] @ lit ''.blob.''
     @ [Plus (Cls ((CHR ''a'', CHR ''z'') # chars ''.''))]) @ blob_path_regex"
  by (simp_all only: mcr_regex_def blob_regex_def append.assoc)

lemma regexes_tail:
  assumes "r \<in> set regexes"
  obtains r' w w' x where "r = r' @ digest_tail (w, w', x)"
    "(w, w') \<in> {(''&d=sha256:'', []), (''/'', ''/data'')}"
proof -
  from assms consider "r = acr_regex" | "r = mcr_regex" | "r = blob_regex"
    by (auto simp: regexes_def)
  then show ?thesis
  proof cases
    case 1
    show ?thesis
      by (rule that [OF 1 [unfolded acr_regex_tail append.assoc [symmetric]]]) simp
  next
    case 2
    show ?thesis
      by (rule that [OF 2 [unfolded path_regexes(1) blob_path_regex_tail append.assoc [symmetric]]]) simp
  next
    case 3
    show ?thesis
      by (rule that [OF 3 [unfolded path_regexes(2) blob_path_regex_tail append.assoc [symmetric]]]) simp
  qed
qed

lemma first_match_digest:
  assumes "first_match regexes url = Some h"
  shows "\<exists>u v w w'. url = u @ w @ h @ w' @ v \<and> length h = 64 \<and> list_all (in_class alnum) h
    \<and> (w, w') \<in> {(''&d=sha256:'', []), (''/'', ''/data'')}"
proof -
  from assms obtain r p t where r: "r \<in> set regexes" and t: "url = p @ t" "match_here r t [] = Some h"
    unfolding regexes_def by (auto split: option.splits dest!: FindStringSubmatch_Some)
  from r obtain r' w w' x where w: "r = r' @ digest_tail (w, w', x)"
      "(w, w') \<in> {(''&d=sha256:'', []), (''/'', ''/data'')}"
    by (rule regexes_tail)
  from t(2) have "later_match (digest_tail (w, w', x)) t h"
    unfolding w(1) by (rule match_here_append)
  from later_match_digest [OF this [unfolded digest_tail_def prod.case]] w(2) t(1) show ?thesis
    by (metis append.assoc)
qed

lemma ParseDigest_digest:
  assumes "ParseDigest url = (d, None)"
  shows "\<exists>h. d = ''sha256:'' @ h \<and> first_match regexes url = Some h"
  using assms by (auto simp: ParseDigest_def parseDigestFromAzureUrl_def split: if_splits option.splits)

lemma alnum_no_sep: "list_all (in_class alnum) h \<Longrightarrow> CHR ''_'' \<notin> set h \<and> CHR ''/'' \<notin> set h"
proof -
  assume h: "list_all (in_class alnum) h"
  have "\<not> in_class alnum (CHR ''_'')" "\<not> in_class alnum (CHR ''/'')"
    by code_simp+
  with h show ?thesis by (auto simp: list_all_iff)
qed

lemma ParseDigest_no_sep: "ParseDigest url = (d, None) \<Longrightarrow> CHR ''_'' \<notin> set d"
  using ParseDigest_digest [of url d] first_match_digest [of url] alnum_no_sep by fastforce

text \<open>C29: a digest that is reported is \<open>sha256:\<close> with 64 letters or digits, which stand in the URL
  either after \<open>&d=sha256:\<close> or as the path element before \<open>/data\<close>; in particular it contains
  neither the separator of chunk keys nor a path separator. With an error the digest is empty.\<close>

theorem ParseDigest_sound:
  "(ParseDigest url = (d, None) \<longrightarrow>
     (\<exists>h u v. d = ''sha256:'' @ h \<and> length h = 64 \<and> list_all (in_class alnum) h
        \<and> CHR ''_'' \<notin> set d \<and> CHR ''/'' \<notin> set d
        \<and> (url = u @ ''&d=sha256:'' @ h @ v \<or> url = u @ ''/'' @ h @ ''/data'' @ v)))
   \<and> (ParseDigest url = (d, Some e) \<longrightarrow> d = [] \<and> e = (if url = [] then EmptyUrl else UnknownUrl))"
proof (intro conjI impI)
  assume "ParseDigest url = (d, None)"
  then obtain h where h: "first_match regexes url = Some h" "d = ''sha256:'' @ h"
    by (auto simp: ParseDigest_def parseDigestFromAzureUrl_def split: if_splits option.splits)
  obtain u v w w' where u: "url = u @ w @ h @ w' @ v" "length h = 64" "list_all (in_class alnum) h"
    "(w, w') \<in> {(''&d=sha256:'', []), (''/'', ''/data'')}"
    using first_match_digest [OF h(1)] by blast
  have "CHR ''_'' \<notin> set h" "CHR ''/'' \<notin> set h"
    using alnum_no_sep [OF u(3)] by auto
  moreover from u(1,4) have "url = u @ ''&d=sha256:'' @ h @ v \<or> url = u @ ''/'' @ h @ ''/data'' @ v"
    by auto
  ultimately show "\<exists>h u v. d = ''sha256:'' @ h \<and> length h = 64 \<and> list_all (in_class alnum) h
        \<and> CHR ''_'' \<notin> set d \<and> CHR ''/'' \<notin> set d
        \<and> (url = u @ ''&d=sha256:'' @ h @ v \<or> url = u @ ''/'' @ h @ ''/data'' @ v)"
    using u(2,3) h(2) by (intro exI [of _ h] exI [of _ u] exI [of _ v]) simp
qed (auto simp: ParseDigest_def parseDigestFromAzureUrl_def split: if_splits option.splits)

section \<open>Blob storage URLs are recognised\<close>

text \<open>The shape of the URLs that Azure Blob Storage hands out.\<close>

definition blob_url :: "string \<Rightarrow> string \<Rightarrow> string \<Rightarrow> string \<Rightarrow> string \<Rightarrow> string \<Rightarrow> string" where
  "blob_url acct zone cont ab h rest =
     ''https://'' @ acct @ ''.blob.'' @ zone @ ''/'' @ cont @ ''//docker/registry/v2/blobs/sha256/''
       @ ab @ ''/'' @ h @ ''/data'' @ rest"

definition blob_url_ok :: "string \<Rightarrow> string \<Rightarrow> string \<Rightarrow> string \<Rightarrow> string \<Rightarrow> bool" where
  "blob_url_ok acct zone cont ab h \<longleftrightarrow>
     acct \<noteq> [] \<and> list_all (in_class alnum) acct
     \<and> zone \<noteq> [] \<and> list_all (in_class ((CHR ''a'', CHR ''z'') # chars ''.'')) zone
     \<and> cont \<noteq> [] \<and> list_all (in_class (alnum @ chars ''-'')) cont
     \<and> length ab = 2 \<and> list_all (in_class [(CHR ''a'', CHR ''z''), (CHR ''0'', CHR ''9'')]) ab
     \<and> length h = 64 \<and> list_all (in_class alnum) h"

lemma class_separators:
  "\<not> in_class alnum (CHR ''.'')" "\<not> in_class ((CHR ''a'', CHR ''z'') # chars ''.'') (CHR ''/'')"
  "\<not> in_class (alnum @ chars ''-'') (CHR ''/'')"
  "\<not> in_class alnum (CHR '':'')" "\<not> in_class ((CHR ''a'', CHR ''z'') # chars ''.'') (CHR '':'')"
  "\<not> in_class (alnum @ chars ''-'') (CHR '':'')"
  "\<not> in_class [(CHR ''a'', CHR ''z''), (CHR ''0'', CHR ''9'')] (CHR '':'')"
  by code_simp+

lemma match_here_lit_append: "match_here (lit w @ r) (w @ s) cap = match_here r s cap"
  by (simp add: match_here_lit has_prefix_append)

lemma match_here_lit_end: "match_here (lit w) (w @ s) cap = Some cap"
  using match_here_lit_append [of w "[]" s cap] by simp

lemma match_here_Star_total: "match_here [Star x] s cap = Some cap"
proof (induction s rule: length_induct)
  case (1 s)
  then show ?case
    using sym_step_length [of x s]
    by (auto simp: match_here.simps(4) [of x _ s] split: option.splits)
qed

lemma match_here_Plus_lit:
  assumes "\<not> in_class k a" "p \<noteq> []" "list_all (in_class k) p"
  shows "match_here ([Plus (Cls k)] @ lit (a # w) @ r) (p @ (a # w) @ t) cap = match_here r t cap"
  using match_here_Plus_class [OF assms(1,2,3,1), of w r "w @ t" cap] match_here_lit_append [of "a # w" r t cap]
  by simp

lemma match_here_Rep_append:
  "length p = n \<Longrightarrow> list_all (in_class k) p \<Longrightarrow>
     match_here ([Rep n (Cls k)] @ r) (p @ t) cap = match_here r t cap"
  by (simp add: sym_steps_class)

lemma match_here_Group_append:
  "length p = n \<Longrightarrow> list_all (in_class k) p \<Longrightarrow>
     match_here ([Group n (Cls k)] @ r) (p @ t) cap = match_here r t p"
  by (simp add: sym_steps_class)

lemma blob_regex_matches:
  assumes "blob_url_ok acct zone cont ab h"
  shows "match_here blob_regex (blob_url acct zone cont ab h rest) [] = Some h"
  using assms unfolding blob_url_ok_def blob_regex_def blob_path_regex_def blob_url_def
  by (simp only: append.assoc match_here_lit_append match_here_Plus_lit class_separators
      match_here_Rep_append match_here_Group_append match_here_Star_total simp_thms)

text \<open>Every expression starts with \<open>https://\<close>, so a URL with a single colon can only match
  at its start; the registry expression needs a second colon.\<close>

lemma single_colon_match:
  assumes "''https://'' @ u = p @ t" "CHR '':'' \<notin> set u" "match_here (lit ''https://'' @ r) t [] \<noteq> None"
  shows "p = []" "match_here r u [] \<noteq> None"
proof -
  obtain t' where t': "t = ''https://'' @ t'" "match_here r t' [] \<noteq> None"
    using assms(3) by (auto simp: match_here_lit has_prefix_append split: if_splits)
  have "''https'' @ CHR '':'' # (''//'' @ u) = (p @ ''https'') @ CHR '':'' # (''//'' @ t')"
    using assms(1) t'(1) by simp
  then have "''https'' = p @ ''https'' \<and> ''//'' @ u = ''//'' @ t'"
    by (subst (asm) append_Cons_eq_iff) (use assms(2) in auto)
  then show "p = []" "match_here r u [] \<noteq> None"
    using t'(2) by simp_all
qed

lemma FindStringSubmatch_single_colon:
  assumes "CHR '':'' \<notin> set u" "match_here r u [] = None"
  shows "FindStringSubmatch (lit ''https://'' @ r) (''https://'' @ u) = None"
  unfolding FindStringSubmatch_None using single_colon_match(2) [OF _ assms(1)] assms(2) by blast

lemma acr_rejects:
  assumes "CHR '':'' \<notin> set u"
  shows "FindStringSubmatch acr_regex (''https://'' @ u) = None"
  unfolding acr_regex_tail
proof (rule FindStringSubmatch_single_colon [OF assms])
  show "match_here (r @ digest_tail (''&d=sha256:'', [], x)) u [] = None" for r x
  proof (rule ccontr)
    assume "match_here (r @ digest_tail (''&d=sha256:'', [], x)) u [] \<noteq> None"
    then obtain h where "later_match (digest_tail (''&d=sha256:'', [], x)) u h"
      using match_here_append by blast
    from later_match_digest [OF this [unfolded digest_tail_def prod.case]] assms show False
      by auto
  qed
qed

lemma mcr_rejects:
  assumes "acct \<noteq> []" "list_all (in_class alnum) acct" "CHR '':'' \<notin> set u"
  shows "FindStringSubmatch mcr_regex (''https://'' @ acct @ ''.blob.'' @ u) = None"
  unfolding mcr_regex_def
proof (rule FindStringSubmatch_single_colon)
  show "CHR '':'' \<notin> set (acct @ ''.blob.'' @ u)"
    using assms class_separators(4) by (auto simp: list_all_iff)
  show "match_here ([Plus (Cls alnum)] @ lit ''.data'' @ r) (acct @ ''.blob.'' @ u) [] = None" for r
    using match_here_Plus_class [OF class_separators(1) assms(1,2) class_separators(1),
        of "''data''" r "''blob.'' @ u" "[]"]
    by (simp add: match_here_lit)
qed

text \<open>For every blob storage URL of the documented shape whose query has no further colon, the
  digest is found, and it is the one of the path.\<close>

theorem ParseDigest_blob_url:
  assumes "blob_url_ok acct zone cont ab h" "CHR '':'' \<notin> set rest"
  shows "ParseDigest (blob_url acct zone cont ab h rest) = (''sha256:'' @ h, None)"
proof -
  let ?u = "zone @ ''/'' @ cont @ ''//docker/registry/v2/blobs/sha256/'' @ ab @ ''/'' @ h @ ''/data'' @ rest"
  have url: "blob_url acct zone cont ab h rest = ''https://'' @ acct @ ''.blob.'' @ ?u"
    by (simp only: blob_url_def)
  have u: "CHR '':'' \<notin> set ?u" "CHR '':'' \<notin> set (acct @ ''.blob.'' @ ?u)"
    using assms class_separators(4-7) by (auto simp: blob_url_ok_def list_all_iff)
  have "FindStringSubmatch acr_regex (blob_url acct zone cont ab h rest) = None"
    unfolding url by (rule acr_rejects [OF u(2)])
  moreover have "FindStringSubmatch mcr_regex (blob_url acct zone cont ab h rest) = None"
    unfolding url by (rule mcr_rejects) (use assms(1) u(1) in \<open>auto simp: blob_url_ok_def\<close>)
  moreover have "FindStringSubmatch blob_regex (blob_url acct zone cont ab h rest) = Some h"
    using blob_regex_matches [OF assms(1), of rest] by (simp add: blob_url_def)
  ultimately show ?thesis
    by (simp add: ParseDigest_def parseDigestFromAzureUrl_def regexes_def) (simp add: blob_url_def)
qed

definition test_hash :: string where
  "test_hash = ''d18c7a64c5158179bdee531a663c5b487de57ff17cff3af29a51c7e70b491d9d''"

theorem ParseDigest_blob_url_witness:
  "ParseDigest (blob_url ''avtakkartest'' ''core.windows.net'' ''d18c7a64c5158179-ff8cb2f639ff44879c12c94361a746d0-782b855128''
     ''d1'' test_hash ''?se=2023-09-20T01%3A14%3A49Z&sig=m4Cr%2BYTZ&sp=r&spr=https'') = (''sha256:'' @ test_hash, None)"
proof (rule ParseDigest_blob_url)
  show "blob_url_ok ''avtakkartest'' ''core.windows.net'' ''d18c7a64c5158179-ff8cb2f639ff44879c12c94361a746d0-782b855128''
     ''d1'' test_hash"
    by code_simp
qed simp

text \<open>A host without the separators has no digest.\<close>

theorem ParseDigest_sound_witness:
  "ParseDigest (blob_url ''acct'' ''core.windows.net'' ''c'' ''d1'' test_hash ''?x'') = (''sha256:'' @ test_hash, None)
   \<and> CHR ''_'' \<notin> set (''sha256:'' @ test_hash) \<and> ParseDigest ''https://example.com'' = ([], Some UnknownUrl)"
proof -
  let ?url = "blob_url ''acct'' ''core.windows.net'' ''c'' ''d1'' test_hash ''?x''"
  have p: "ParseDigest ?url = (''sha256:'' @ test_hash, None)"
    by code_simp
  have "ParseDigest ''https://example.com'' = ([], Some UnknownUrl)"
    by code_simp
  moreover have "CHR ''_'' \<notin> set (''sha256:'' @ test_hash)"
    using ParseDigest_sound [of ?url "''sha256:'' @ test_hash"] p by blast
  ultimately show ?thesis using p by blast
qed

end
