(* ===== verification/Files.thy ===== *)
theory Files
  imports Segments Coherence Reader UrlParser
begin

text \<open>
  \<open>pkg/files\<close> and \<open>pkg/files/store\<close>: chunk keys, fetching a chunk through a reader, the files that are
  served chunk by chunk from the cache, and the store that opens and prefetches them. The interface
  \<open>reader.Reader\<close> is the record \<open>Reader\<close> of its operations. Open files live in a heap, because a file
  is shared by the request and by its prefetch goroutine. The package variable \<open>CacheBlockSize\<close> is the
  argument \<open>bs\<close> of the definitions that read it.
\<close>

section \<open>files.go\<close>

text \<open>An implementation of \<open>reader.Reader\<close> acting on \<open>'x\<close>.\<close>

record 'x Reader =
  iPread :: "byte list \<Rightarrow> int \<Rightarrow> ('x, byte list \<times> int \<times> goerr option) go"
  iFstat :: "('x, int \<times> goerr option) go"

definition FileChunkKeySep :: string where
  "FileChunkKeySep = ''_''"

text \<open>The block size the code is configured with; the definitions take it as the argument \<open>bs\<close>.\<close>

definition CacheBlockSize :: int where
  "CacheBlockSize = 1 * 1024 * 1024"

definition FileChunkKey :: "string \<Rightarrow> int \<Rightarrow> int \<Rightarrow> string outcome" where
  "FileChunkKey name offset cacheBlockSize =
     obind (AlignDown offset cacheBlockSize) (\<lambda>a. Ret (name @ FileChunkKeySep @ FormatInt a))"

definition FetchFile :: "'x Reader \<Rightarrow> string \<Rightarrow> int \<Rightarrow> int \<Rightarrow> ('x, byte list \<times> goerr option) go" where
  "FetchFile r name offset count =
     (if count < 0 then gpanic MakesliceLenOutOfRange
      else bind (iPread r (replicate (nat count) 0) offset) (\<lambda>(d, n, err).
        if err \<noteq> None \<and> err \<noteq> Some EOF then ret ([], err) else ret (d, None)))"

section \<open>State\<close>

record 'x sfile =
  Name :: string
  cur :: int
  fsize :: int
  statLock :: bool
  chunkOffset :: int
  freader :: "'x Reader"

record 'x prefetchableSegment =
  pname :: string
  poffset :: int
  pcount :: int
  preader :: "'x Reader"

text \<open>The store: the cache, the heap of open files, the prefetch goroutines that were started and not
  yet run (a file, an offset and a count each), the queue of segments and the channel of advertised
  chunks.\<close>

record ('rc, 'x) store =
  cache :: "('rc, 'x) cstate"
  fheap :: "nat \<Rightarrow> 'x sfile"
  next_file :: nat
  prefetches :: "(nat \<times> int \<times> int) list"
  prefetchChan :: "'x prefetchableSegment list"
  blobsChan :: "string list"
  prefetchable :: bool

definition with_cache :: "(('rc, 'x) cstate, 'a) go \<Rightarrow> (('rc, 'x) store, 'a) go" where
  "with_cache m = (\<lambda>s. case m (cache s) of (x, c') \<Rightarrow> (x, s\<lparr>cache := c'\<rparr>))"

definition with_env :: "('x, 'a) go \<Rightarrow> (('rc, 'x) cstate, 'a) go" where
  "with_env m = (\<lambda>s. case m (env s) of (x, e') \<Rightarrow> (x, s\<lparr>env := e'\<rparr>))"

definition upd_file :: "nat \<Rightarrow> ('x sfile \<Rightarrow> 'x sfile) \<Rightarrow> ('rc, 'x) store \<Rightarrow> ('rc, 'x) store" where
  "upd_file f g s = s\<lparr>fheap := (fheap s)(f := g (fheap s f))\<rparr>"

section \<open>file.go\<close>

definition set_size :: "nat \<Rightarrow> int \<Rightarrow> (('rc, 'x) store, unit) go" where
  "set_size f v = modify (upd_file f (\<lambda>x. x\<lparr>fsize := v\<rparr>))"

definition stat_Lock :: "nat \<Rightarrow> (('rc, 'x) store, unit) go" where
  "stat_Lock f = (\<lambda>s. if statLock (fheap s f) then (Hang, s)
     else (Ret (), upd_file f (\<lambda>x. x\<lparr>statLock := True\<rparr>) s))"

definition stat_Unlock :: "nat \<Rightarrow> (('rc, 'x) store, unit) go" where
  "stat_Unlock f = modify (upd_file f (\<lambda>x. x\<lparr>statLock := False\<rparr>))"

definition Fstat :: "'rc deps \<Rightarrow> nat \<Rightarrow> (('rc, 'x) store, int \<times> goerr option) go" where
  "Fstat D f =
     bind (gets (\<lambda>s. fheap s f)) (\<lambda>x.
     bind (with_cache (Size (Name x))) (\<lambda>(sz, hit).
     bind (set_size f sz) (\<lambda>_.
       if hit then ret (sz, None)
       else
         bind (stat_Lock f) (\<lambda>_.
         bind (with_cache (Size (Name x))) (\<lambda>(sz, hit).
         bind (set_size f sz) (\<lambda>_.
           if hit then bind (stat_Unlock f) (\<lambda>_. ret (sz, None))
           else
             bind (with_cache (with_env (iFstat (freader x)))) (\<lambda>(sz, err).
             bind (set_size f sz) (\<lambda>_.
               case err of
                 Some e \<Rightarrow> ret (0, Some e)
               | None \<Rightarrow>
                   bind (with_cache (PutSize D (Name x) sz)) (\<lambda>_.
                   bind (stat_Unlock f) (\<lambda>_. ret (sz, None)))))))))))"

datatype whence = SeekStart | SeekCurrent | SeekEnd | other_whence int

definition Seek :: "nat \<Rightarrow> int \<Rightarrow> whence \<Rightarrow> (('rc, 'x) store, int \<times> goerr option) go" where
  "Seek f offset w =
     bind (modify (upd_file f (\<lambda>x. case w of
         SeekCurrent \<Rightarrow> x\<lparr>cur := i64 (cur x + offset)\<rparr>
       | SeekStart \<Rightarrow> x\<lparr>cur := offset\<rparr>
       | SeekEnd \<Rightarrow> x\<lparr>cur := fsize x\<rparr>
       | other_whence i \<Rightarrow> x))) (\<lambda>_.
     bind (gets (\<lambda>s. cur (fheap s f))) (\<lambda>c. ret (c, None)))"

text \<open>The end of \<open>ReadAt\<close>: copy from the chunk into the caller's buffer, with Go's bounds checks.\<close>

definition copy_chunk :: "byte list \<Rightarrow> byte list \<Rightarrow> int \<Rightarrow> (byte list \<times> int) outcome" where
  "copy_chunk buff data pos =
     (let n = Min (int (length buff)) (int (length data) - pos)
      in if n < 0 \<or> pos < 0 then Panic SliceBoundsOutOfRange
         else Ret (take (nat n) (drop (nat pos) data) @ drop (nat n) buff, n))"

definition ReadAt :: "'rc deps \<Rightarrow> int \<Rightarrow> nat \<Rightarrow> byte list \<Rightarrow> int \<Rightarrow> (('rc, 'x) store, byte list \<times> int \<times> goerr option) go" where
  "ReadAt D bs f buff offset =
     bind (Fstat D f) (\<lambda>(fileSize, err). case err of
       Some e \<Rightarrow> ret (buff, 0, Some e)
     | None \<Rightarrow>
         bind (lift_outcome (AlignDown offset bs)) (\<lambda>alignedOffset.
         bind (gets (\<lambda>s. fheap s f)) (\<lambda>x.
           if chunkOffset x \<noteq> 0 \<and> alignedOffset \<noteq> chunkOffset x then ret (buff, -1, Some OnlySingleChunkAvailable)
           else
             let count = Min64 bs (i64 (fileSize - alignedOffset)) in
             bind (with_cache (GetOrCreate D (Name x) alignedOffset count
                     (FetchFile (freader x) (Name x) alignedOffset count))) (\<lambda>(data, err).
               case err of
                 Some e \<Rightarrow> ret (buff, 0, Some (ReadAtFailed (Name x) offset e))
               | None \<Rightarrow>
                   bind (lift_outcome (copy_chunk buff data (i64 (offset - alignedOffset)))) (\<lambda>(buff', n).
                   ret (buff', n, if i64 (offset + int (length buff)) > fileSize then Some EOF else None))))))"

definition Read :: "'rc deps \<Rightarrow> int \<Rightarrow> nat \<Rightarrow> byte list \<Rightarrow> (('rc, 'x) store, byte list \<times> int \<times> goerr option) go" where
  "Read D bs f p =
     bind (gets (\<lambda>s. cur (fheap s f))) (\<lambda>c.
     bind (ReadAt D bs f p c) (\<lambda>(p', n, err).
     bind (if err = None then modify (upd_file f (\<lambda>x. x\<lparr>cur := i64 (cur x + n)\<rparr>)) else ret ()) (\<lambda>_.
     ret (p', n, err))))"

text \<open>The goroutine of \<open>prefetch\<close>: the segments of the requested range, which it queues in order.\<close>

definition prefetch_segs :: "'rc deps \<Rightarrow> int \<Rightarrow> nat \<Rightarrow> int \<Rightarrow> int \<Rightarrow> (('rc, 'x) store, 'x prefetchableSegment list) go" where
  "prefetch_segs D bs f offset count =
     bind (Fstat D f) (\<lambda>(fileSize, err).
       if err \<noteq> None then ret []
       else case NewSegments offset bs count fileSize of
           Inl e \<Rightarrow> ret []
         | Inr segs \<Rightarrow>
             bind (lift_outcome (All segs)) (\<lambda>l.
             gets (\<lambda>s. map (\<lambda>seg. \<lparr>pname = Name (fheap s f), poffset = Index seg, pcount = Count seg,
                         preader = freader (fheap s f)\<rparr>) l)))"

definition prefetch_body :: "'rc deps \<Rightarrow> int \<Rightarrow> nat \<Rightarrow> int \<Rightarrow> int \<Rightarrow> (('rc, 'x) store, unit) go" where
  "prefetch_body D bs f offset count =
     bind (prefetch_segs D bs f offset count) (\<lambda>l. modify (\<lambda>s. s\<lparr>prefetchChan := prefetchChan s @ l\<rparr>))"

definition prefetch :: "nat \<Rightarrow> int \<Rightarrow> int \<Rightarrow> (('rc, 'x) store, unit) go" where
  "prefetch f offset count = modify (\<lambda>s. s\<lparr>prefetches := prefetches s @ [(f, offset, count)]\<rparr>)"

section \<open>store.go\<close>

text \<open>A prefetch worker has the cache fetch a segment: the key it announces, or nothing after an error.\<close>

definition worker_run :: "'rc deps \<Rightarrow> int \<Rightarrow> 'x prefetchableSegment \<Rightarrow> (('rc, 'x) store, string option) go" where
  "worker_run D bs p =
     bind (with_cache (GetOrCreate D (pname p) (poffset p) (pcount p)
             (FetchFile (preader p) (pname p) (poffset p) (pcount p)))) (\<lambda>(b, err).
       if err \<noteq> None then ret None
       else bind (lift_outcome (FileChunkKey (pname p) (poffset p) bs)) (\<lambda>key. ret (Some key)))"

text \<open>One round of its loop, undisturbed: the body for the first queued segment.\<close>

definition worker_step :: "'rc deps \<Rightarrow> int \<Rightarrow> (('rc, 'x) store, unit) go" where
  "worker_step D bs = bind (gets prefetchChan) (\<lambda>q. case q of
      [] \<Rightarrow> hang
    | p # q' \<Rightarrow>
        bind (modify (\<lambda>s. s\<lparr>prefetchChan := q'\<rparr>)) (\<lambda>_.
        bind (worker_run D bs p) (\<lambda>k. case k of
          None \<Rightarrow> ret ()
        | Some key \<Rightarrow> modify (\<lambda>s. s\<lparr>blobsChan := blobsChan s @ [key]\<rparr>))))"

definition Key :: "int \<Rightarrow> Context \<Rightarrow> (string \<times> string \<times> goerr option) outcome" where
  "Key bs c =
     (let (d, err) = ParseDigest (BlobUrl c);
          (startIndex, err) =
            (if req_method (Request c) = ''GET''
             then RangeStartIndex (header_Get (req_header (Request c)) ''Range'')
             else (0, err))
      in if req_method (Request c) = ''GET'' \<and> err \<noteq> None then Ret ([], [], err)
         else obind (FileChunkKey d startIndex bs) (\<lambda>key. Ret (key, d, err)))"

text \<open>\<open>newReader\<close> makes the reader of a request: \<open>reader.NewReader\<close> with the store's router, retries,
  timeout and metrics.\<close>

definition Open :: "'rc deps \<Rightarrow> int \<Rightarrow> (Context \<Rightarrow> 'x Reader) \<Rightarrow> Context \<Rightarrow> (('rc, 'x) store, nat option \<times> goerr option) go" where
  "Open D bs newReader c =
     (let tokens = Split (CHR ''_'') (GetString c FileChunkCtxKey) in
      if length tokens < 2 then gpanic IndexOutOfRange
      else
        let name = tokens ! 0;
            alignedOff = fst (ParseInt (tokens ! 1))
        in bind (if IsRequestFromAPeer c then with_cache (Exists D name alignedOff) else ret True) (\<lambda>ok.
             if \<not> ok then ret (None, Some ErrNotExist)
             else
               bind (gets next_file) (\<lambda>f.
               bind (modify (\<lambda>s. s\<lparr>next_file := Suc f, fheap := (fheap s)(f :=
                       \<lparr>Name = name, cur = 0, fsize = 0, statLock = False,
                        chunkOffset = (if IsRequestFromAPeer c then alignedOff else 0), freader = newReader c\<rparr>)\<rparr>)) (\<lambda>_.
               bind (Fstat D f) (\<lambda>(fileSize, err).
               bind (gets prefetchable) (\<lambda>pf.
               bind (if pf then prefetch f 0 fileSize else ret ()) (\<lambda>_.
               ret (Some f, err))))))))"

text \<open>\<open>Ret None\<close> where the process exits because the cache cannot be set up; \<open>r0\<close> fills the unused part
  of the heap of files.\<close>

definition NewFilesStore :: "(int \<Rightarrow> int \<Rightarrow> 'rc option) \<Rightarrow> os_state \<Rightarrow> 'x \<Rightarrow> int \<Rightarrow> string \<Rightarrow> int \<Rightarrow> 'x Reader \<Rightarrow> ('rc, 'x) store option outcome" where
  "NewFilesStore rnew fs e bs path prefetchWorkers r0 = (case NewCache rnew fs e bs path of
      None \<Rightarrow> Ret None
    | Some c \<Rightarrow>
        if prefetchWorkers < 0 then Panic MakechanSizeOutOfRange
        else Ret (Some \<lparr>cache = c,
          fheap = (\<lambda>_. \<lparr>Name = [], cur = 0, fsize = 0, statLock = False, chunkOffset = 0, freader = r0\<rparr>),
          next_file = 0, prefetches = [], prefetchChan = [], blobsChan = [],
          prefetchable = prefetchWorkers > 0\<rparr>))"

text \<open>The store the tests use: the same store with its cache exposed. A store that could not be made has
  ended the process, so that the error branch is not reached.\<close>

definition MockStore_Cache :: "('rc, 'x) store \<Rightarrow> ('rc, 'x) cstate" where
  "MockStore_Cache m = cache m"

definition NewMockStore :: "(int \<Rightarrow> int \<Rightarrow> 'rc option) \<Rightarrow> os_state \<Rightarrow> 'x \<Rightarrow> int \<Rightarrow> string \<Rightarrow> int \<Rightarrow> 'x Reader \<Rightarrow> ('rc, 'x) store option outcome" where
  "NewMockStore rnew fs e bs path prefetchWorkers r0 =
     obind (NewFilesStore rnew fs e bs path prefetchWorkers r0) (\<lambda>s. Ret s)"

definition Subscribe :: "('rc, 'x) store \<Rightarrow> string list" where
  "Subscribe s = blobsChan s"

section \<open>The readers\<close>

text \<open>The reader of \<open>pkg/discovery/content/reader\<close>, in a given environment, and the one of its mocks.\<close>

definition remote_Reader :: "('lc, 'cid, 'ma) net_deps \<Rightarrow> 'n http_deps \<Rightarrow> ('cid \<Rightarrow> int \<Rightarrow> 'ma addr_info list) \<Rightarrow> nat \<Rightarrow> select list \<Rightarrow>
    reader \<Rightarrow> ('lc, 'cid, 'ma, 'n) renv Reader" where
  "remote_Reader D H infos i evs r = \<lparr>iPread = PreadRemote D H infos i evs r, iFstat = FstatRemote H r\<rparr>"

definition mock_PreadRemote :: "byte list \<Rightarrow> byte list \<Rightarrow> int \<Rightarrow> ('x, byte list \<times> int \<times> goerr option) go" where
  "mock_PreadRemote data buf offset =
     (if offset \<ge> int (length data) then ret (buf, 0, None)
      else if offset < 0 then gpanic SliceBoundsOutOfRange
      else let n = min (length buf) (length data - nat offset)
        in ret (take n (drop (nat offset) data) @ drop n buf, int n, None))"

definition mock_FstatRemote :: "byte list \<Rightarrow> ('x, int \<times> goerr option) go" where
  "mock_FstatRemote data = ret (int (length data), None)"

definition mock_Reader :: "byte list \<Rightarrow> 'x Reader" where
  "mock_Reader data = \<lparr>iPread = mock_PreadRemote data, iFstat = mock_FstatRemote data\<rparr>"

section \<open>What a reader promises\<close>

lemma FetchFile_outcome:
  assumes "FetchFile R name offset count e = (Ret (d, err), e')"
  shows "\<exists>d0 n err0. iPread R (replicate (nat count) 0) offset e = (Ret (d0, n, err0), e') \<and> 0 \<le> count
    \<and> (if err0 = None \<or> err0 = Some EOF then d = d0 \<and> err = None else d = [] \<and> err = err0)"
proof -
  obtain y e1 where p: "iPread R (replicate (nat count) 0) offset e = (y, e1)" by fastforce
  with assms obtain d0 n err0 where y: "y = Ret (d0, n, err0)"
    by (cases y) (auto simp: FetchFile_def gpanic_def bind_apply split: if_splits)
  with assms p show ?thesis
    by (auto simp: FetchFile_def gpanic_def bind_apply ret_apply split: if_splits)
qed

text \<open>The contract of \<open>reader.Reader\<close> that fetching a chunk rests on.\<close>

locale remote_reader =
  fixes R :: "'x Reader"
  assumes pread_length: "iPread R buf offset e = (Ret (buf', n, err), e') \<Longrightarrow> length buf' = length buf"
begin

lemma FetchFile_length:
  assumes "FetchFile R name offset count e = (Ret (d, None), e')"
  shows "int (length d) = count"
proof -
  obtain y e1 where p: "iPread R (replicate (nat count) 0) offset e = (y, e1)" by fastforce
  with assms obtain d0 n err where y: "y = Ret (d0, n, err)"
    by (cases y) (auto simp: FetchFile_def gpanic_def bind_apply split: if_splits)
  with assms p have "d = d0" "0 \<le> count"
    by (auto simp: FetchFile_def gpanic_def bind_apply ret_apply split: if_splits)
  with pread_length [OF p [unfolded y]] show ?thesis by simp
qed

end

interpretation rr: remote_reader "remote_Reader D H infos i evs r" for D H infos i evs r
  by unfold_locales (auto simp: remote_Reader_def dest!: PreadRemote_post simp: loop_post_def)

interpretation mr: remote_reader "mock_Reader data" for data
  by unfold_locales (auto simp: mock_Reader_def mock_PreadRemote_def ret_apply gpanic_def Let_def split: if_splits)

section \<open>Sizes\<close>

lemma upd_file_simps [simp]:
  "fheap (upd_file f g s) f' = (if f' = f then g (fheap s f) else fheap s f')"
  "cache (upd_file f g s) = cache s" "prefetches (upd_file f g s) = prefetches s"
  "prefetchChan (upd_file f g s) = prefetchChan s" "blobsChan (upd_file f g s) = blobsChan s"
  "next_file (upd_file f g s) = next_file s" "prefetchable (upd_file f g s) = prefetchable s"
  "upd_file f g (upd_file f h s) = upd_file f (\<lambda>x. g (h x)) s"
  "upd_file f g (s\<lparr>cache := c\<rparr>) = (upd_file f g s)\<lparr>cache := c\<rparr>"
  by (simp_all add: upd_file_def)

lemmas store_run = bind_apply ret_apply gets_apply modify_apply set_size_def stat_Lock_def stat_Unlock_def
  with_cache_def with_env_def Size_def

text \<open>The size of a file as the cache knows it.\<close>

definition known_size :: "('rc, 'x) store \<Rightarrow> string \<Rightarrow> int option" where
  "known_size s name = SyncMap_Get (metadataCache (cache s)) (size_key name)"

lemma Fstat_hit:
  "known_size s (Name (fheap s f)) = Some sz \<Longrightarrow>
     Fstat D f s = (Ret (sz, None), upd_file f (\<lambda>x. x\<lparr>fsize := sz\<rparr>) s)"
  by (simp add: Fstat_def known_size_def store_run)

lemma Fstat_miss:
  assumes "known_size s (Name (fheap s f)) = None" "\<not> statLock (fheap s f)"
    and "iFstat (freader (fheap s f)) (env (cache s)) = (Ret (sz, err), e')"
  shows "Fstat D f s = (case err of
      Some e \<Rightarrow> (Ret (0, Some e), upd_file f (\<lambda>x. x\<lparr>statLock := True, fsize := sz\<rparr>) (s\<lparr>cache := (cache s)\<lparr>env := e'\<rparr>\<rparr>))
    | None \<Rightarrow> (Ret (sz, None), upd_file f (\<lambda>x. x\<lparr>fsize := sz, statLock := False\<rparr>)
        (s\<lparr>cache := snd (PutSize D (Name (fheap s f)) sz ((cache s)\<lparr>env := e'\<rparr>))\<rparr>)))"
  using assms by (simp add: Fstat_def known_size_def store_run PutSize_def split: option.splits)

lemma known_size_upd [simp]: "known_size (upd_file f g s) name = known_size s name"
  by (simp add: known_size_def)

lemma known_size_PutSize:
  "known_size (s\<lparr>cache := snd (PutSize D name sz c)\<rparr>) name = Some sz"
  by (simp add: known_size_def PutSize_def bind_apply modify_apply ret_apply)

text \<open>The size of a file is asked from the origin once. After a successful \<open>Fstat\<close> of a file whose
  size was unknown, every \<open>Fstat\<close> of a file of that name answers the same size without a request, as
  long as the size is kept.\<close>

theorem Fstat_asks_once:
  fixes s :: "('rc, 'x) store"
  assumes "known_size s (Name (fheap s f)) = None" "\<not> statLock (fheap s f)"
    and "iFstat (freader (fheap s f)) (env (cache s)) = (Ret (sz, None), e')"
  shows "\<exists>s'. Fstat D f s = (Ret (sz, None), s') \<and> env (cache s') = e' \<and> \<not> statLock (fheap s' f)
    \<and> (\<forall>g (t :: ('rc, 'x) store). Name (fheap t g) = Name (fheap s f) \<and> metadataCache (cache t) = metadataCache (cache s') \<longrightarrow>
         (\<exists>t'. Fstat D g t = (Ret (sz, None), t') \<and> cache t' = cache t))"
proof -
  let ?s = "upd_file f (\<lambda>x. x\<lparr>fsize := sz, statLock := False\<rparr>)
        (s\<lparr>cache := snd (PutSize D (Name (fheap s f)) sz ((cache s)\<lparr>env := e'\<rparr>))\<rparr>)"
  have "Fstat D f s = (Ret (sz, None), ?s)"
    using Fstat_miss [OF assms] by simp
  moreover have "env (cache ?s) = e'"
    by (simp add: PutSize_def bind_apply modify_apply ret_apply)
  moreover have "known_size t (Name (fheap s f)) = Some sz"
    if "metadataCache (cache t) = metadataCache (cache ?s)" for t :: "('rc, 'x) store"
    using that known_size_PutSize [where s = s and D = D and name = "Name (fheap s f)" and sz = sz
        and c = "(cache s)\<lparr>env := e'\<rparr>"] by (simp add: known_size_def)
  then have "\<exists>t'. Fstat D g t = (Ret (sz, None), t') \<and> cache t' = cache t"
    if "Name (fheap t g) = Name (fheap s f)" "metadataCache (cache t) = metadataCache (cache ?s)"
    for t :: "('rc, 'x) store" and g
    using Fstat_hit [of t g sz D] that by simp
  ultimately show ?thesis
    by (intro exI [of _ ?s]) simp
qed

text \<open>C36: an error of the origin is reported, but the lock of the file stays held: every later \<open>Fstat\<close> of
  the same file blocks while its size is unknown, in particular that of the prefetch goroutine which
  \<open>Open\<close> starts all the same.\<close>

theorem Fstat_error_leaks_lock:
  assumes "known_size s (Name (fheap s f)) = None" "\<not> statLock (fheap s f)"
    and "iFstat (freader (fheap s f)) (env (cache s)) = (Ret (sz, Some e), e')"
  shows "\<exists>s'. Fstat D f s = (Ret (0, Some e), s') \<and> statLock (fheap s' f)
    \<and> fst (Fstat D f s') = Hang
    \<and> fst (prefetch_body D bs f off count s') = Hang"
proof -
  let ?s = "upd_file f (\<lambda>x. x\<lparr>statLock := True, fsize := sz\<rparr>) (s\<lparr>cache := (cache s)\<lparr>env := e'\<rparr>\<rparr>)"
  have "Fstat D f s = (Ret (0, Some e), ?s)"
    using Fstat_miss [OF assms] by simp
  moreover have "fst (Fstat D f ?s) = Hang"
    using assms(1) by (simp add: Fstat_def known_size_def store_run)
  moreover from this have "fst (prefetch_body D bs f off count ?s) = Hang"
    by (cases "Fstat D f ?s") (simp add: prefetch_body_def prefetch_segs_def bind_apply)
  ultimately show ?thesis by (intro exI [of _ ?s]) simp
qed

section \<open>Chunk keys\<close>

lemma aligned_in_i64: "0 \<le> a \<Longrightarrow> in_i64 a \<Longrightarrow> 0 < bs \<Longrightarrow> in_i64 (a div bs * bs)"
  by (auto intro!: in_i64_nonneg simp: pos_imp_zdiv_nonneg_iff
      intro: order_trans [OF div_mult_le_int] dest: in_i64_leD)

lemma FileChunkKey_eq:
  "0 \<le> off \<Longrightarrow> in_i64 off \<Longrightarrow> 0 < bs \<Longrightarrow> FileChunkKey name off bs = Ret (name @ ''_'' @ FormatInt (off div bs * bs))"
  by (simp add: FileChunkKey_def AlignDown_nonneg FileChunkKeySep_def)

lemma chunk_key_tokens:
  "CHR ''_'' \<notin> set name \<Longrightarrow> Split (CHR ''_'') (name @ ''_'' @ FormatInt a) = [name, FormatInt a]"
  unfolding Split_two by simp


text \<open>The error of an unknown URL is lost for a GET: \<open>Key\<close> overwrites it with the result of the range
  parser and reports success with an empty digest, so that all unknown URLs share their keys. For other
  methods the error is returned.\<close>

theorem Key_loses_digest_error:
  assumes "ParseDigest (BlobUrl c) = ([], Some e)" "0 < bs"
    and "RangeStartIndex (header_Get (req_header (Request c)) ''Range'') = (a, None)" "0 \<le> a"
  shows "(req_method (Request c) = ''GET'' \<longrightarrow> Key bs c = Ret (''_'' @ FormatInt (a div bs * bs), [], None))
    \<and> (req_method (Request c) \<noteq> ''GET'' \<longrightarrow> Key bs c = Ret (''_0'', [], Some e))"
proof -
  have "in_i64 a"
    by (rule RangeStartIndex_in_i64 [OF assms(3)])
  moreover have "FormatInt 0 = ''0''" by code_simp
  moreover have "in_i64 0" by (simp add: in_i64_iff)
  ultimately show ?thesis
    using assms FileChunkKey_eq [of a bs "[]"] FileChunkKey_eq [of 0 bs "[]"] by (simp add: Key_def)
qed

section \<open>Reading\<close>

text \<open>\<open>truth\<close> agrees with the bytes of one blob, chunk by chunk.\<close>

definition blob_truth :: "string \<Rightarrow> string \<Rightarrow> int \<Rightarrow> byte list \<Rightarrow> (string \<Rightarrow> byte list) \<Rightarrow> bool" where
  "blob_truth path name bs blob truth \<longleftrightarrow> (\<forall>a. 0 \<le> a \<and> bs dvd a \<and> a < int (length blob) \<longrightarrow>
     truth (getKey path name a) = take (nat bs) (drop (nat a) blob))"

text \<open>A reader that delivers a blob: what it reads without an error, or up to a clean end, inside the
  blob are its bytes.\<close>

definition reads_blob :: "'x Reader \<Rightarrow> byte list \<Rightarrow> bool" where
  "reads_blob R blob \<longleftrightarrow> (\<forall>buf off e d n err e'. iPread R buf off e = (Ret (d, n, err), e') \<and> (err = None \<or> err = Some EOF)
     \<and> 0 \<le> off \<and> off + int (length buf) \<le> int (length blob) \<longrightarrow> d = take (length buf) (drop (nat off) blob))"

lemma FetchFile_right:
  assumes "reads_blob R blob" "0 \<le> a" "a + count \<le> int (length blob)"
  shows "fetch_right (take (nat count) (drop (nat a) blob)) (FetchFile R name a count)"
  unfolding fetch_right_def
proof (intro allI impI)
  fix e b e' assume "FetchFile R name a count e = (Ret (b, None), e')"
  from FetchFile_outcome [OF this] obtain d0 n err0 where
    "iPread R (replicate (nat count) 0) a e = (Ret (d0, n, err0), e')" "0 \<le> count" "err0 = None \<or> err0 = Some EOF" "b = d0"
    by (auto split: if_splits)
  with assms show "b = take (nat count) (drop (nat a) blob)"
    unfolding reads_blob_def by (metis int_nat_eq length_replicate)
qed

text \<open>The arithmetic of one chunk.\<close>

lemma chunk_bounds:
  fixes off bs a :: int
  assumes "0 \<le> off" "0 < bs" "a = off div bs * bs"
  shows "0 \<le> a" "a \<le> off" "off < a + bs" "bs dvd a" "0 \<le> off - a" "off - a < bs"
  using assms div_mult_le_int [of bs off] div_mult_gt_int [of bs off]
  by (simp_all add: pos_imp_zdiv_nonneg_iff)

lemma copy_chunk_run:
  assumes "0 \<le> pos" "pos \<le> int (length data)"
  shows "copy_chunk buff data pos = Ret (take (nat (min (int (length buff)) (int (length data) - pos))) (drop (nat pos) data)
      @ drop (nat (min (int (length buff)) (int (length data) - pos))) buff, min (int (length buff)) (int (length data) - pos))"
  using assms by (simp add: copy_chunk_def Let_def)

lemma min_take_drop:
  "take k (drop p (take b (drop a xs))) = take (min k (b - p)) (drop (a + p) xs)"
  by (simp add: drop_take take_take add.commute)

text \<open>What a successful lookup of a chunk means for \<open>ReadAt\<close>.\<close>

lemma ReadAt_known:
  assumes "known_size s (Name (fheap s f)) = Some sz" "0 \<le> offset" "in_i64 offset" "0 < bs"
    and "chunkOffset (fheap s f) = 0 \<or> chunkOffset (fheap s f) = a" "a = offset div bs * bs"
  shows "ReadAt D bs f buff offset s =
    (let s1 = upd_file f (\<lambda>x. x\<lparr>fsize := sz\<rparr>) s; x = fheap s f; count = min bs (i64 (sz - a)) in
     bind (with_cache (GetOrCreate D (Name x) a count (FetchFile (freader x) (Name x) a count))) (\<lambda>(data, err).
       case err of
         Some e \<Rightarrow> ret (buff, 0, Some (ReadAtFailed (Name x) offset e))
       | None \<Rightarrow> bind (lift_outcome (copy_chunk buff data (i64 (offset - a)))) (\<lambda>(buff', n).
           ret (buff', n, if i64 (offset + int (length buff)) > sz then Some EOF else None))) s1)"
  using assms AlignDown_nonneg [OF assms(2,3,4)]
  by (auto simp: ReadAt_def bind_apply Fstat_hit gets_apply lift_outcome_apply Let_def)

lemma ReadAt_correct:
  assumes "kv_lawful D holds" "chunk_inv truth holds (cache s)"
    and "blob_truth (cpath (cache s)) (Name (fheap s f)) bs blob truth" "reads_blob (freader (fheap s f)) blob"
    and "known_size s (Name (fheap s f)) = Some (int (length blob))" "in_i64 (int (length blob))"
    and "0 < bs" "0 \<le> offset" "offset < int (length blob)" "in_i64 (offset + int (length buff))"
    and a: "a = offset div bs * bs" and ch: "chunkOffset (fheap s f) = 0 \<or> chunkOffset (fheap s f) = a"
    and run: "ReadAt D bs f buff offset s = (Ret (buff', n, err), s')"
  shows "chunk_inv truth holds (cache s') \<and>
    (n = 0 \<and> buff' = buff \<and> (\<exists>e. err = Some (ReadAtFailed (Name (fheap s f)) offset e))
     \<or> n = min (int (length buff)) (min (a + bs) (int (length blob)) - offset)
       \<and> buff' = take (nat n) (drop (nat offset) blob) @ drop (nat n) buff
       \<and> err = (if offset + int (length buff) > int (length blob) then Some EOF else None))"
proof -
  let ?x = "fheap s f" and ?s1 = "upd_file f (\<lambda>x. x\<lparr>fsize := int (length blob)\<rparr>) s"
  let ?key = "getKey (cpath (cache s)) (Name ?x) a" and ?count = "min bs (int (length blob) - a)"
  note b = chunk_bounds [OF assms(8,7) a]
  have off: "in_i64 offset"
    using assms(6,8,9) by (simp add: in_i64_iff)
  have i: "i64 (int (length blob) - a) = int (length blob) - a" "i64 (offset - a) = offset - a"
    "i64 (offset + int (length buff)) = offset + int (length buff)"
    using b(1,2) assms(6,9,10) off by (auto intro!: i64_id simp: in_i64_iff)
  have want: "truth ?key = take (nat bs) (drop (nat a) blob)"
    using assms(3,9) b by (simp add: blob_truth_def)
  have len: "int (length (truth ?key)) = ?count"
    using b assms(7,9) by (simp add: want)
  have fr: "fetch_right (truth ?key) (FetchFile (freader ?x) (Name ?x) a ?count)"
  proof -
    have "truth ?key = take (nat ?count) (drop (nat a) blob)"
      using b(1) by (auto simp: want min_def)
    moreover have "a + ?count \<le> int (length blob)" by simp
    ultimately show ?thesis
      using FetchFile_right [OF assms(4) b(1)] by metis
  qed
  obtain y c' where g: "GetOrCreate D (Name ?x) a ?count (FetchFile (freader ?x) (Name ?x) a ?count) (cache s) = (y, c')"
    by fastforce
  note inv = GetOrCreate_inv [OF assms(1,2) fr g]
  note run' = run [unfolded ReadAt_known [OF assms(5,8) off assms(7) ch a] Let_def i(1)]
  obtain data e where y: "y = Ret (data, e)"
    using run' g by (cases y) (auto simp: bind_apply with_cache_def)
  show ?thesis
  proof (cases e)
    case (Some e')
    with run' g y inv show ?thesis
      by (auto simp: bind_apply with_cache_def ret_apply)
  next
    case None
    have data: "data = take (nat bs) (drop (nat a) blob)"
      using inv y None len want by simp
    let ?n = "min (int (length buff)) (int (length data) - (offset - a))"
    have pos: "0 \<le> offset - a" "offset - a \<le> int (length data)"
      using b assms(7,9) by (auto simp: data)
    have n: "?n = min (int (length buff)) (min (a + bs) (int (length blob)) - offset)"
      using b assms(7,9) by (auto simp: data min_def)
    have "n = ?n" "buff' = take (nat ?n) (drop (nat (offset - a)) data) @ drop (nat ?n) buff"
      "err = (if offset + int (length buff) > int (length blob) then Some EOF else None)" "cache s' = c'"
      using run' g y None copy_chunk_run [OF pos, of buff] i(2,3)
      by (auto simp: bind_apply with_cache_def ret_apply lift_outcome_apply)
    moreover have "take (nat ?n) (drop (nat (offset - a)) data) = take (nat ?n) (drop (nat offset) blob)"
      using b assms(7,9) unfolding data min_take_drop
      by (auto simp: n nat_add_distrib [symmetric] intro!: arg_cong2 [where f = take])
    ultimately show ?thesis
      using inv n by auto
  qed
qed

section \<open>Properties of reading\<close>

text \<open>C11: a read of a file whose size is known returns the blob's own bytes. At a position inside the blob,
  with a cache that is sound and a reader that delivers the blob, the result is either a reported failure
  that left the buffer alone, or the bytes of the blob from that position up to the end of the buffer,
  of the chunk or of the blob, whichever comes first; and the cache stays sound.\<close>

theorem ReadAt_returns_blob_bytes:
  assumes "kv_lawful D holds" "chunk_inv truth holds (cache s)"
    and "blob_truth (cpath (cache s)) (Name (fheap s f)) bs blob truth" "reads_blob (freader (fheap s f)) blob"
    and "known_size s (Name (fheap s f)) = Some (int (length blob))" "in_i64 (int (length blob))"
    and "0 < bs" "0 \<le> offset" "offset < int (length blob)" "in_i64 (offset + int (length buff))"
    and "a = offset div bs * bs" "chunkOffset (fheap s f) = 0 \<or> chunkOffset (fheap s f) = a"
    and "ReadAt D bs f buff offset s = (Ret (buff', n, err), s')"
  shows "chunk_inv truth holds (cache s') \<and>
    (n = 0 \<and> buff' = buff \<and> (\<exists>e. err = Some (ReadAtFailed (Name (fheap s f)) offset e))
     \<or> n = min (int (length buff)) (min (a + bs) (int (length blob)) - offset)
       \<and> buff' = take (nat n) (drop (nat offset) blob) @ drop (nat n) buff
       \<and> err = (if offset + int (length buff) > int (length blob) then Some EOF else None))"
  by (rule ReadAt_correct [OF assms])

text \<open>The end of the file is reported too early when a read crosses into the last chunk: if the
  buffer reaches past the end of the blob but the chunk read from does not, \<open>EOF\<close> comes with bytes of
  the blob still unread, and \<open>Read\<close> does not move on.\<close>

theorem ReadAt_early_EOF:
  assumes "kv_lawful D holds" "chunk_inv truth holds (cache s)"
    and "blob_truth (cpath (cache s)) (Name (fheap s f)) bs blob truth" "reads_blob (freader (fheap s f)) blob"
    and "known_size s (Name (fheap s f)) = Some (int (length blob))" "in_i64 (int (length blob))"
    and "0 < bs" "0 \<le> offset" "in_i64 (offset + int (length buff))" "chunkOffset (fheap s f) = 0"
    and "offset div bs * bs + bs < int (length blob)" "int (length blob) < offset + int (length buff)"
    and "ReadAt D bs f buff offset s = (Ret (buff', n, err), s')" "\<forall>e. err \<noteq> Some (ReadAtFailed (Name (fheap s f)) offset e)"
  shows "err = Some EOF \<and> offset + n = offset div bs * bs + bs \<and> offset + n < int (length blob)"
proof -
  note b = chunk_bounds [OF assms(8,7) refl]
  from ReadAt_correct [OF assms(1-8) _ assms(9) refl _ assms(13)] b assms(10-12,14) show ?thesis
    by (auto simp: min_def split: if_splits)
qed

text \<open>A read behind the end of a file panics instead of reporting the end: with the position in the
  last chunk but past the size, the slice of the chunk is out of range.\<close>

theorem ReadAt_past_end_panics:
  assumes "known_size s (Name (fheap s f)) = Some sz" "in_i64 sz" "0 < bs" "0 \<le> offset" "in_i64 offset"
    and "a = offset div bs * bs" "a \<le> sz" "sz < offset" "chunkOffset (fheap s f) = 0"
    and "GetOrCreate D (Name (fheap s f)) a (sz - a) (FetchFile (freader (fheap s f)) (Name (fheap s f)) a (sz - a)) (cache s)
      = (Ret (data, None), c')" "int (length data) = sz - a"
  shows "fst (ReadAt D bs f buff offset s) = Panic SliceBoundsOutOfRange"
proof -
  note b = chunk_bounds [OF assms(4,3,6)]
  have "i64 (sz - a) = sz - a" "i64 (offset - a) = offset - a"
    using b(1,2) assms(2,5,7,8) by (auto intro!: i64_id simp: in_i64_iff)
  moreover have "min bs (sz - a) = sz - a"
    using b(3) assms(8) by simp
  moreover have "copy_chunk buff data (offset - a) = Panic SliceBoundsOutOfRange"
    using assms(8,11) by (simp add: copy_chunk_def Let_def)
  ultimately show ?thesis
    using ReadAt_known [OF assms(1,4,5,3) _ assms(6), of D buff] assms(9,10)
    by (simp add: Let_def bind_apply with_cache_def lift_outcome_apply)
qed

section \<open>Prefetching\<close>

lemma All_loop_chunks:
  assumes "seg_ok r" "0 \<le> i" "seg_offset r \<le> i"
  shows "\<exists>segs. All_loop r i = Some segs \<and> map (\<lambda>s. (Index s, Count s)) segs =
    map (\<lambda>k. (i + int k * seg_step r, min (seg_step r) (seg_size r - (i + int k * seg_step r))))
      [0 ..< nat ((seg_size r - i + seg_step r - 1) div seg_step r)]"
  using assms(2,3)
proof (induction "nat (seg_size r - i)" arbitrary: i rule: less_induct)
  case (less i)
  let ?step = "seg_step r" and ?size = "seg_size r"
  have pos: "0 < ?step"
    using assms(1) by (simp add: seg_ok_def)
  show ?case
  proof (cases "i < ?size")
    case False
    then have "(?size - i + ?step - 1) div ?step \<le> (?step - 1) div ?step"
      using pos by (intro zdiv_mono1) simp_all
    also have "(?step - 1) div ?step = 0"
      using pos by (intro div_pos_pos_trivial) simp_all
    finally have "(?size - i + ?step - 1) div ?step \<le> 0" .
    with False show ?thesis by (simp add: All_loop_done)
  next
    case True
    have next_i: "i64 (i + ?step) = i + ?step"
      using assms(1) True less.prems by (auto simp: seg_ok_def intro!: i64_id in_i64_nonneg)
    have s: "segment_at r i = \<lparr>Index = i, Offset = 0, Count = min (i + ?step) ?size - i\<rparr>"
      using segment_at_exact [OF assms(1) less.prems(1) True] less.prems(2) by simp
    obtain segs where segs: "All_loop r (i + ?step) = Some segs" "map (\<lambda>s. (Index s, Count s)) segs =
        map (\<lambda>k. (i + ?step + int k * ?step, min ?step (?size - (i + ?step + int k * ?step))))
          [0 ..< nat ((?size - (i + ?step) + ?step - 1) div ?step)]"
      using less.hyps [of "i + ?step"] less.prems pos True by auto
    have "(?size - i + ?step - 1) div ?step = (?size - (i + ?step) + ?step - 1) div ?step + 1"
    proof -
      have "?size - i + ?step - 1 = (?size - (i + ?step) + ?step - 1) + ?step" by simp
      then show ?thesis using pos by (metis div_add_self2 less_irrefl)
    qed
    moreover have "0 \<le> (?size - (i + ?step) + ?step - 1) div ?step"
      using pos True by (simp add: pos_imp_zdiv_nonneg_iff)
    ultimately have "nat ((?size - i + ?step - 1) div ?step) = Suc (nat ((?size - (i + ?step) + ?step - 1) div ?step))"
      by simp
    then show ?thesis
      using All_loop_step [OF True] segs next_i s pos True
      by (auto simp: upt_conv_Cons map_Suc_upt [symmetric] algebra_simps comp_def simp del: upt_Suc)
  qed
qed

end
