(* ===== verification/Frames.thy ===== *)
theory Frames
  imports Files
begin

text \<open>
  What the operations of the cache leave alone: reading a chunk changes neither the known sizes nor the
  path of the cache, and a file that is read keeps everything but its position and its size.
\<close>

section \<open>The cache keeps sizes and its path\<close>

definition frame_is :: "int SyncMap \<Rightarrow> string \<Rightarrow> ('rc, 'x) cstate \<Rightarrow> bool" where
  "frame_is m p s \<longleftrightarrow> metadataCache s = m \<and> cpath s = p"

lemma frame_upd_item [simp]: "frame_is m p (upd_item r f s) = frame_is m p s"
  by (simp add: frame_is_def upd_item_def)

lemma frame_fields [simp]:
  "frame_is m p (s\<lparr>os := fs\<rparr>) = frame_is m p s" "frame_is m p (s\<lparr>fdCnt := n\<rparr>) = frame_is m p s"
  "frame_is m p (s\<lparr>rist := rc\<rparr>) = frame_is m p s" "frame_is m p (s\<lparr>clock := b\<rparr>) = frame_is m p s"
  "frame_is m p (s\<lparr>env := e\<rparr>) = frame_is m p s" "frame_is m p (s\<lparr>items := its\<rparr>) = frame_is m p s"
  "frame_is m p (s\<lparr>next_item := k\<rparr>) = frame_is m p s"
  by (simp_all add: frame_is_def)

lemma keeps_frame_steps [simp]:
  "keeps (frame_is m p) (item_Lock r)" "keeps (frame_is m p) (item_Unlock r)"
  "keeps (frame_is m p) (item_RLock r)" "keeps (frame_is m p) (item_RUnlock r)"
  "keeps (frame_is m p) (item_Stat r)" "keeps (frame_is m p) (item_Name r)" "keeps (frame_is m p) (do_Remove q)"
  "keeps (frame_is m p) c_Lock" "keeps (frame_is m p) c_Unlock" "keeps (frame_is m p) (cache_Get D key)"
  "keeps (frame_is m p) (run_fetch fetch)"
  by (simp_all add: keeps_def item_Lock_def item_Unlock_def item_RLock_def item_RUnlock_def item_Stat_def item_Name_def
      do_Remove_def c_Lock_def c_Unlock_def cache_Get_def run_fetch_def modify_apply split: prod.splits)

lemma keeps_frame_newItem [simp]: "keeps (frame_is m p) (newItem key)"
  by (simp add: keeps_def newItem_def Let_def split: prod.splits option.splits sum.splits)

lemma keeps_frame_drop [simp]: "keeps (frame_is m p) (item_drop r)"
proof -
  have "keeps (frame_is m p) (item_drop_body r :: (('a, 'b) cstate, unit) go)"
    unfolding item_drop_body_def
    by (intro keeps_bind keeps_modify) (simp_all, auto simp: keeps_def split: prod.splits)
  then show ?thesis
    unfolding item_drop_def by (intro keeps_bind keeps_with_defer) simp_all
qed

lemma keeps_frame_OnExit [simp]: "keeps (frame_is m p) (OnExit rs)"
  by (induction rs) (simp_all add: keeps_bind)

lemma keeps_frame_Set [simp]: "keeps (frame_is m p) (cache_Set D key r)"
  unfolding keeps_def
proof (intro allI impI)
  fix s :: "('a, 'b) cstate" assume s: "frame_is m p s"
  obtain ok out rc where g: "rSet D (rist s) key r = (ok, out, rc)" using prod_cases3 by blast
  have "keeps (frame_is m p) (bind (OnExit out) (\<lambda>_. ret ok) :: (('a, 'b) cstate, bool) go)"
    by (intro keeps_bind) simp_all
  with s g show "frame_is m p (snd (cache_Set D key r s))"
    by (simp add: cache_Set_def keeps_def)
qed

lemma keeps_frame_lookup [simp]: "keeps (frame_is m p) (lookup_or_new D key)"
  unfolding lookup_or_new_def by (intro keeps_bind keeps_cases keeps_ret) simp_all

lemma keeps_frame_fill [simp]: "keeps (frame_is m p) (item_fill r fetch)"
proof -
  have "keeps (frame_is m p) (\<lambda>s :: ('a, 'b) cstate. case writeAll (os s) (item_file (items s r)) b of
      (x, f, s') \<Rightarrow> (x, upd_item r (\<lambda>i. i\<lparr>item_file := f\<rparr>) (s\<lparr>os := s'\<rparr>)))" for b
    by (simp add: keeps_def split: prod.splits)
  then show ?thesis
    unfolding item_fill_def by (intro keeps_bind keeps_cases keeps_ret) simp_all
qed

lemma keeps_frame_bytes [simp]: "keeps (frame_is m p) (item_bytes r)"
  unfolding item_bytes_def
  by (intro keeps_bind keeps_cases keeps_ret) (simp_all, simp add: keeps_def split: prod.splits)

lemma keeps_frame_serve [simp]: "keeps (frame_is m p) (serve_item r count fetch)"
  unfolding serve_item_def ensure_filled_def fill_locked_def
  by (intro keeps_bind keeps_cases keeps_ret) simp_all

lemma keeps_frame_GetOrCreate: "keeps (frame_is m p) (GetOrCreate D name off count fetch)"
  unfolding GetOrCreate_def by (intro keeps_bind keeps_cases keeps_ret keeps_gets) simp_all

lemma keeps_frame_Exists: "keeps (frame_is m p) (Exists D name off)"
  unfolding Exists_def by (intro keeps_bind keeps_cases keeps_with_defer keeps_ret keeps_gets) simp_all

lemma GetOrCreate_frame:
  assumes "GetOrCreate D name off count fetch s = (x, s')"
  shows "metadataCache s' = metadataCache s" "cpath s' = cpath s"
  using keepsD [OF keeps_frame_GetOrCreate [of "metadataCache s" "cpath s"] _ assms]
  by (simp_all add: frame_is_def)

section \<open>Reading from a file whose size is known\<close>

text \<open>The store is ready to serve a blob from a file: the cache is sound and free, the reader delivers
  the blob and never hangs, and the size is known.\<close>

definition serving :: "(string \<Rightarrow> byte list) \<Rightarrow> ('rc \<Rightarrow> (string \<times> nat) set) \<Rightarrow> byte list \<Rightarrow> int \<Rightarrow> nat \<Rightarrow> ('rc, 'x) store \<Rightarrow> bool" where
  "serving truth holds blob bs f s \<longleftrightarrow>
     chunk_inv truth holds (cache s) \<and> locks_are False (\<lambda>_. unlocked) (cache s)
     \<and> blob_truth (cpath (cache s)) (Name (fheap s f)) bs blob truth
     \<and> reads_blob (freader (fheap s f)) blob \<and> (\<forall>buf off. no_hang (iPread (freader (fheap s f)) buf off))
     \<and> known_size s (Name (fheap s f)) = Some (int (length blob)) \<and> chunkOffset (fheap s f) = 0"

lemma serving_upd:
  assumes "\<And>x. Name (g x) = Name x" "\<And>x. freader (g x) = freader x" "\<And>x. chunkOffset (g x) = chunkOffset x"
  shows "serving truth holds blob bs f (upd_file f g s) = serving truth holds blob bs f s"
  by (simp add: serving_def assms)

lemma FetchFile_no_hang:
  assumes "\<forall>buf off. no_hang (iPread R buf off)"
  shows "no_hang (FetchFile R name off count)"
  unfolding no_hang_def
proof
  fix e
  obtain x e' where r: "iPread R (replicate (nat count) 0) off e = (x, e')" by fastforce
  with assms have "x \<noteq> Hang" by (metis fst_conv no_hang_def)
  with r show "fst (FetchFile R name off count e) \<noteq> Hang"
    by (cases x) (auto simp: FetchFile_def gpanic_apply bind_apply ret_apply split: if_splits)
qed

lemma copy_chunk_no_hang: "copy_chunk buff data pos \<noteq> Hang"
  by (simp add: copy_chunk_def Let_def)

text \<open>One read: it does not hang, and when it returns, the store is still ready and the position of the
  file unchanged.\<close>

lemma ReadAt_serving:
  assumes "serving truth holds blob bs f s" "kv_lawful D holds" "in_i64 (int (length blob))" "0 < bs"
    and "0 \<le> offset" "offset < int (length blob)" "in_i64 (offset + int (length buff))"
    and run: "ReadAt D bs f buff offset s = (x, s')"
  shows "x \<noteq> Hang" and "x = Ret r \<Longrightarrow> serving truth holds blob bs f s' \<and> cur (fheap s' f) = cur (fheap s f)"
proof -
  let ?x = "fheap s f" and ?a = "offset div bs * bs"
  let ?s1 = "upd_file f (\<lambda>x. x\<lparr>fsize := int (length blob)\<rparr>) s" and ?count = "min bs (i64 (int (length blob) - ?a))"
  let ?fetch = "FetchFile (freader ?x) (Name ?x) ?a ?count"
  note sv = assms(1) [unfolded serving_def]
  have off: "in_i64 offset" and known: "known_size s (Name ?x) = Some (int (length blob))" and ch: "chunkOffset ?x = 0 \<or> chunkOffset ?x = ?a"
    using assms(3,5,6) sv by (auto simp: in_i64_iff)
  obtain y c' where g: "GetOrCreate D (Name ?x) ?a ?count ?fetch (cache s) = (y, c')" by fastforce
  note run' = run [unfolded ReadAt_known [OF known assms(5) off assms(4) ch refl] Let_def bind_apply with_cache_def]
  have "runs (locks_are False (\<lambda>_. unlocked)) (GetOrCreate D (Name ?x) ?a ?count ?fetch) (\<lambda>_. locks_are False (\<lambda>_. unlocked))"
    by (rule runs_GetOrCreate [OF FetchFile_no_hang]) (use sv in blast)
  from runs_case [OF this, of "cache s"] g sv
  have locks: "y \<noteq> Hang" "\<And>z. y = Ret z \<Longrightarrow> locks_are False (\<lambda>_. unlocked) c'"
    by (auto split: outcome.splits)
  show "x \<noteq> Hang"
    using run' g locks(1) copy_chunk_no_hang
    by (auto simp: lift_outcome_apply ret_apply split: outcome.splits option.splits)
  assume r: "x = Ret r"
  then have s': "\<exists>z. y = Ret z" "s' = ?s1\<lparr>cache := c'\<rparr>"
    using run' g by (auto simp: lift_outcome_apply ret_apply split: outcome.splits option.splits)
  obtain b n e where r': "r = (b, n, e)" using prod_cases3 by blast
  have "chunk_inv truth holds c'"
    using ReadAt_correct [OF assms(2) _ _ _ known assms(3,4,5,6,7) refl ch run [unfolded r r']] sv s'(2) by simp
  then show "serving truth holds blob bs f s' \<and> cur (fheap s' f) = cur (fheap s f)"
    using s' locks(2) sv GetOrCreate_frame [OF g] by (auto simp: serving_def known_size_def)
qed

end
