(* ===== verification/Serving.thy ===== *)
theory Serving
  imports Files
begin

text \<open>
  Properties of the store as a whole: what is prefetched and advertised, what a request from a peer may
  read, and what becomes of answers that end early.
\<close>

section \<open>Prefetching and advertising\<close>

text \<open>The chunks of a file of a given size.\<close>

definition chunks_of :: "int \<Rightarrow> int \<Rightarrow> (int \<times> int) list" where
  "chunks_of bs sz = map (\<lambda>k. (int k * bs, min bs (sz - int k * bs))) [0 ..< nat ((sz + bs - 1) div bs)]"

lemma CacheBlockSize_power: "CacheBlockSize = 2 ^ 20"
  by (simp add: CacheBlockSize_def)

lemma NewSegments_power:
  assumes "bs = 2 ^ k" "in_i64 bs" "0 \<le> sz" "in_i64 sz"
  shows "NewSegments 0 bs sz sz = Inr \<lparr>seg_offset = 0, seg_step = bs, seg_size = sz\<rparr>"
proof -
  have pos: "0 < bs" by (simp add: assms(1))
  have "in_i64 (bs - 1)"
    using pos assms(2) unfolding in_i64_iff by linarith
  moreover have "bs AND (bs - 1) = 0"
    using and_pred_zero_iff [OF pos] assms(1) by blast
  ultimately show ?thesis
    using assms(4) by (simp add: NewSegments_def i64_id)
qed

text \<open>The prefetch of a newly opened file queues each of its chunks exactly once, in order and with its exact
  length.\<close>

lemma prefetch_covers_file:
  assumes "known_size s (Name (fheap s f)) = Some sz" "0 \<le> sz" "bs = 2 ^ k" "sz + bs \<le> MaxInt64"
  shows "\<exists>q. prefetch_segs D bs f 0 sz s = (Ret q, upd_file f (\<lambda>x. x\<lparr>fsize := sz\<rparr>) s)
    \<and> map (\<lambda>p. (poffset p, pcount p)) q = chunks_of bs sz
    \<and> (\<forall>p \<in> set q. pname p = Name (fheap s f) \<and> preader p = freader (fheap s f))"
proof -
  let ?r = "\<lparr>seg_offset = 0, seg_step = bs, seg_size = sz\<rparr>"
  have bs: "0 < bs" by (simp add: assms(3))
  have "in_i64 bs" "in_i64 sz"
    using assms(2,4) bs by (auto intro: in_i64_nonneg)
  note seg = NewSegments_power [OF assms(3) this(1) assms(2) this(2)]
  have ok: "seg_ok ?r"
    using assms(2,4) bs by (simp add: seg_ok_def in_i64_iff)
  obtain segs where segs: "All_loop ?r 0 = Some segs" "map (\<lambda>s. (Index s, Count s)) segs = chunks_of bs sz"
    using All_loop_chunks [OF ok, of 0] by (auto simp: chunks_of_def)
  have "All ?r = Ret segs"
    using segs(1) AlignDown_nonneg [of 0 bs] bs by (simp add: All_def in_i64_iff)
  then show ?thesis
    using Fstat_hit [OF assms(1), of D] seg segs(2)
    by (simp add: prefetch_segs_def bind_apply lift_outcome_apply gets_apply comp_def)
qed

text \<open>A worker advertises a chunk only after the cache returned it in full, under the chunk's own key;
  a chunk that could not be fetched is not advertised.\<close>

theorem worker_advertises_cached:
  assumes "prefetchChan s = p # q" "worker_step D bs s = (Ret (), s')"
  shows "\<exists>b err. GetOrCreate D (pname p) (poffset p) (pcount p) (FetchFile (preader p) (pname p) (poffset p) (pcount p)) (cache s)
      = (Ret (b, err), cache s')
    \<and> (if err = None then int (length b) = pcount p
         \<and> (\<exists>key. FileChunkKey (pname p) (poffset p) bs = Ret key \<and> blobsChan s' = blobsChan s @ [key])
       else blobsChan s' = blobsChan s)"
proof -
  obtain y c' where g: "GetOrCreate D (pname p) (poffset p) (pcount p)
      (FetchFile (preader p) (pname p) (poffset p) (pcount p)) (cache s) = (y, c')"
    by fastforce
  then obtain b err where y: "y = Ret (b, err)"
    using assms by (cases y) (auto simp: worker_step_def worker_run_def bind_apply gets_apply modify_apply with_cache_def)
  have "int (length b) = pcount p" if "err = None"
    by (rule GetOrCreate_length) (use g y that in simp)
  with g y assms show ?thesis
    by (cases "FileChunkKey (pname p) (poffset p) bs")
      (auto simp: worker_step_def worker_run_def bind_apply gets_apply modify_apply with_cache_def ret_apply lift_outcome_apply
        split: if_splits)
qed

section \<open>Requests from peers\<close>

text \<open>The two parts of a chunk key.\<close>

definition key_parts :: "Context \<Rightarrow> string \<Rightarrow> int \<Rightarrow> bool" where
  "key_parts c name off \<longleftrightarrow> (\<exists>w ws. Split (CHR ''_'') (GetString c FileChunkCtxKey) = name # w # ws \<and> off = fst (ParseInt w))"

text \<open>C26: a request from a peer for a chunk that is not cached is turned down before anything is fetched:
  no file is opened, nothing is asked from the network and no prefetch is started.\<close>

theorem Open_peer_needs_cached:
  assumes "IsRequestFromAPeer c" "key_parts c name off" "Exists D name off (cache s) = (Ret False, c')"
  shows "Open D bs newReader c s = (Ret (None, Some ErrNotExist), s\<lparr>cache := c'\<rparr>) \<and> env c' = env (cache s)"
proof -
  have "env c' = env (cache s)"
    by (rule Exists_env [OF assms(3)])
  with assms show ?thesis
    by (auto simp: Open_def Let_def key_parts_def bind_apply with_cache_def ret_apply)
qed

text \<open>A file opened for a peer serves the requested chunk only: reading at any other chunk is refused
  without touching the cache or the network, provided the chunk is not the first one. A file opened for
  the first chunk has the offset zero, which is also the mark of an unrestricted file: its reads at every
  other chunk go through to the cache, and on a miss to the origin.\<close>

theorem peer_file_single_chunk:
  assumes "known_size s (Name (fheap s f)) = Some sz" "0 \<le> offset" "in_i64 offset" "0 < bs"
    and "a = offset div bs * bs" "chunkOffset (fheap s f) = ch" "ch \<noteq> a"
  shows "(ch \<noteq> 0 \<longrightarrow> (\<exists>s'. ReadAt D bs f buff offset s = (Ret (buff, -1, Some OnlySingleChunkAvailable), s') \<and> cache s' = cache s))
    \<and> (ch = 0 \<and> in_i64 (sz - a) \<longrightarrow> (\<forall>x c'. GetOrCreate D (Name (fheap s f)) a (min bs (sz - a))
          (FetchFile (freader (fheap s f)) (Name (fheap s f)) a (min bs (sz - a))) (cache s) = (x, c') \<longrightarrow>
          cache (snd (ReadAt D bs f buff offset s)) = c'))"
proof (intro conjI impI allI)
  assume "ch \<noteq> 0"
  then show "\<exists>s'. ReadAt D bs f buff offset s = (Ret (buff, -1, Some OnlySingleChunkAvailable), s') \<and> cache s' = cache s"
    using assms AlignDown_nonneg [OF assms(2,3,4)]
    by (auto simp: ReadAt_def bind_apply Fstat_hit gets_apply lift_outcome_apply ret_apply)
next
  fix x c'
  assume "ch = 0 \<and> in_i64 (sz - a)" and g: "GetOrCreate D (Name (fheap s f)) a (min bs (sz - a))
          (FetchFile (freader (fheap s f)) (Name (fheap s f)) a (min bs (sz - a))) (cache s) = (x, c')"
  then have "chunkOffset (fheap s f) = 0 \<or> chunkOffset (fheap s f) = a" "i64 (sz - a) = sz - a"
    using assms(6) by (auto simp: i64_id)
  then show "cache (snd (ReadAt D bs f buff offset s)) = c'"
    using ReadAt_known [OF assms(1-4) _ assms(5), of D buff] g
    by (auto simp: Let_def bind_apply with_cache_def lift_outcome_apply ret_apply split: outcome.splits option.splits)
qed

section \<open>Answers that end early\<close>

text \<open>C37: an answer that ends before its first byte counts as success. \<open>FetchFile\<close> forgives \<open>EOF\<close>, so when
  one peer breaks off after some bytes and the origin then answers with an empty body, the chunk is
  delivered as complete, with the bytes of the failed peer at its start and zeros behind them.\<close>

theorem FetchFile_accepts_truncated:
  assumes "stateless H g" "lookup_starts D r e" and "0 < count" "stop = i64 (count + off - 1)"
    and "peerRequest H r (HttpHost p) off stop = Inr req" "g (ID p) req = Inr resp" "StatusCode resp = 206"
    and "0 < length (body resp)" "int (length (body resp)) < count"
    and "originRequest H r off stop = Inr oreq" "g [] oreq = Inr oresp" "StatusCode oresp = 206"
    and "body oresp = []" "body_err oresp = None"
  shows "\<exists>e'. FetchFile (remote_Reader D H infos i [Peer p, Deadline] r) name off count e
    = (Ret (body resp @ replicate (nat count - length (body resp)) 0, None), e')"
proof -
  let ?key = "GetString (rcontext r) FileChunkCtxKey" and ?buf = "replicate (nat count) (0 :: byte)"
  let ?buf' = "body resp @ replicate (nat count - length (body resp)) 0"
  have lb: "length (body resp) < nat count" using assms(3,9) by linarith
  obtain e1 where e1: "doP2p D H infos i [Peer p, Deadline] r ?key off stop operationPreadRemote ?buf e
      = peerLoop D H r ?key off stop operationPreadRemote [Peer p, Deadline] 0 ?buf e1"
    using doP2p_starts [OF assms(2)] by blast
  have "ReadFull resp ?buf = (?buf', int (length (body resp)), Some (case body_err resp of None \<Rightarrow> ErrUnexpectedEOF | Some x \<Rightarrow> x))"
    using lb assms(8) by (auto simp: ReadFull_def Let_def min_def split: option.splits)
  then have "pread_answer (fst (httpDo H (http e1) (ID p) req)) ?buf
      = (?buf', int (length (body resp)), Some (case body_err resp of None \<Rightarrow> ErrUnexpectedEOF | Some x \<Rightarrow> x))"
    using assms(1,6,7) by (simp add: stateless_def pread_answer_def pread_response_def)
  note loop = peerLoop_Peer(2) [OF assms(5) this, of D ?key "[Deadline]" 0]
  have o: "pread_answer (g [] oreq) ?buf' = (?buf', 0, Some EOF)"
    using assms(11-14) lb by (simp add: pread_answer_def pread_response_def ReadFull_def Let_def)
  show ?thesis
    using assms(1,3,10) e1 loop o
    by (simp add: FetchFile_def remote_Reader_def PreadRemote_def Let_def assms(4) [symmetric] reader_run stateless_def)
qed

section \<open>A store over a mock reader\<close>

text \<open>A blob of eleven bytes in chunks of four, as a store sees it that was just opened.\<close>

definition demo_blob :: "byte list" where
  "demo_blob = [104, 101, 108, 108, 111, 32, 119, 111, 114, 108, 100]"

definition demo_cache :: "((string \<times> nat) list, unit) cstate" where
  "demo_cache = (empty_cache ())\<lparr>metadataCache := NewSyncMap 20\<rparr>"

definition demo_store :: "int \<Rightarrow> ((string \<times> nat) list, unit) store" where
  "demo_store ch = \<lparr>cache = demo_cache, fheap = (\<lambda>_. \<lparr>Name = ''test'', cur = 0, fsize = 0, statLock = False,
     chunkOffset = ch, freader = mock_Reader demo_blob\<rparr>), next_file = 1, prefetches = [], prefetchChan = [],
     blobsChan = [], prefetchable = True\<rparr>"

text \<open>The same store once the size of the file is known.\<close>

definition sized_store :: "int \<Rightarrow> ((string \<times> nat) list, unit) store" where
  "sized_store ch = snd (Fstat keep_all 0 (demo_store ch))"

lemma demo_store_simps [simp]:
  "fheap (demo_store ch) f = \<lparr>Name = ''test'', cur = 0, fsize = 0, statLock = False, chunkOffset = ch, freader = mock_Reader demo_blob\<rparr>"
  "cache (demo_store ch) = demo_cache"
  by (simp_all add: demo_store_def)

lemma demo_size_unknown: "known_size (demo_store ch) ''test'' = None"
  by (simp add: known_size_def demo_cache_def NewSyncMap_def SyncMap_Get_def)

lemma mock_Fstat: "iFstat (mock_Reader data) e = (Ret (int (length data), None), e)"
  by (simp add: mock_Reader_def mock_FstatRemote_def ret_apply)

lemma sized_store_eq:
  "sized_store ch = upd_file 0 (\<lambda>x. x\<lparr>fsize := 11, statLock := False\<rparr>)
     ((demo_store ch)\<lparr>cache := snd (PutSize keep_all ''test'' 11 (demo_cache))\<rparr>)"
  using Fstat_miss [of "demo_store ch" 0 11 None "()" keep_all] demo_size_unknown [of ch]
  by (simp add: sized_store_def mock_Fstat demo_blob_def) (simp add: demo_cache_def empty_cache_def)

lemma sized_store_known: "known_size (sized_store ch) (Name (fheap (sized_store ch) 0)) = Some 11"
  using known_size_PutSize [where s = "demo_store ch" and D = keep_all and name = "''test''" and sz = 11 and c = "demo_cache"]
  by (simp add: sized_store_eq known_size_def)

lemma sized_store_simps [simp]:
  "Name (fheap (sized_store ch) 0) = ''test''" "chunkOffset (fheap (sized_store ch) 0) = ch"
  "freader (fheap (sized_store ch) 0) = mock_Reader demo_blob" "cpath (cache (sized_store ch)) = ''/cache''"
  by (simp_all add: sized_store_eq PutSize_def bind_apply modify_apply ret_apply) (simp add: demo_cache_def empty_cache_def)

lemma mock_reads_blob: "reads_blob (mock_Reader data) data"
  unfolding reads_blob_def
proof (intro allI impI, elim conjE)
  fix buf off e d n err e'
  assume r: "iPread (mock_Reader data) buf off e = (Ret (d, n, err), e')" "0 \<le> off" "off + int (length buf) \<le> int (length data)"
  have m: "min (length buf) (length data - nat off) = length buf"
    using r(2,3) by linarith
  show "d = take (length buf) (drop (nat off) data)"
  proof (cases "int (length data) \<le> off")
    case True
    then have "buf = []" using r(3) by (simp add: order_antisym flip: length_0_conv)
    with True r show ?thesis by (simp add: mock_Reader_def mock_PreadRemote_def ret_apply)
  next
    case False
    with r m show ?thesis
      by (simp add: mock_Reader_def mock_PreadRemote_def ret_apply Let_def)
  qed
qed

definition demo_truth :: "string \<Rightarrow> byte list" where
  "demo_truth key =
     (if key = ''/cache/test/0'' then [104, 101, 108, 108]
      else if key = ''/cache/test/4'' then [111, 32, 119, 111]
      else [114, 108, 100])"

lemma keep_all_lawful: "kv_lawful keep_all set"
  by (auto simp: kv_lawful_def keep_all_def map_of_SomeD)

lemma sized_store_inv: "chunk_inv truth set (cache (sized_store ch))"
proof -
  have "chunk_inv truth set (empty_cache ())"
    by (rule new_cache_inv [OF empty_cache_is_NewCache]) (simp_all add: empty_cache_def)
  then have "chunk_inv truth set demo_cache"
    by (simp add: demo_cache_def chunk_inv_def)
  then show ?thesis
    by (simp add: sized_store_eq PutSize_def bind_apply modify_apply ret_apply chunk_inv_def)
qed

lemma demo_fetch:
  assumes "0 \<le> a" "0 < count" "a + count \<le> int (length data)"
  shows "FetchFile (mock_Reader data) name a count e = (Ret (take (nat count) (drop (nat a) data), None), e)"
proof -
  have "min (nat count) (length data - nat a) = nat count" "\<not> int (length data) \<le> a"
    using assms by linarith+
  with assms show ?thesis
    by (simp add: FetchFile_def mock_Reader_def mock_PreadRemote_def bind_apply ret_apply Let_def)
qed

text \<open>Every chunk of the blob can be had from the sized store.\<close>

lemma demo_get:
  assumes "0 \<le> a" "0 < count" "a + count \<le> 11"
  shows "\<exists>c'. GetOrCreate keep_all ''test'' a count (FetchFile (mock_Reader demo_blob) ''test'' a count) (cache (sized_store ch))
    = (Ret (take (nat count) (drop (nat a) demo_blob), None), c')"
proof -
  let ?c = "cache (sized_store ch)" and ?d = "take (nat count) (drop (nat a) demo_blob)"
  have len: "length demo_blob = 11" by (simp add: demo_blob_def)
  have c: "calm ?c" "rist ?c = []" "names (os ?c) k = None" "next_item ?c = 0" for k
    by (simp_all add: sized_store_eq PutSize_def bind_apply modify_apply ret_apply demo_cache_def empty_cache_def calm_def)
  have "int (length ?d) = count" "?d \<noteq> []"
    using assms by (auto simp: len)
  then show ?thesis
    using GetOrCreate_miss [of ?c _ "''test''" a keep_all "[]" "[]" "[(getKey (cpath ?c) ''test'' a, 0)]"
        "FetchFile (mock_Reader demo_blob) ''test'' a count" ?d "env ?c" count] c
      demo_fetch [OF assms(1,2), of demo_blob "''test''" "env ?c"] assms(3)
    by (auto simp: keep_all_def len)
qed

lemma demo_blob_truth: "blob_truth ''/cache'' ''test'' 4 demo_blob demo_truth"
  unfolding blob_truth_def
proof (intro allI impI, elim conjE)
  fix a :: int assume a: "0 \<le> a" "4 dvd a" "a < int (length demo_blob)"
  then have "a \<in> {0, 4, 8}"
    by (auto simp: demo_blob_def elim!: dvdE)
  moreover have "getKey ''/cache'' ''test'' 0 = ''/cache/test/0''" "getKey ''/cache'' ''test'' 4 = ''/cache/test/4''"
    "getKey ''/cache'' ''test'' 8 = ''/cache/test/8''"
    by code_simp+
  ultimately show "demo_truth (getKey ''/cache'' ''test'' a) = take (nat 4) (drop (nat a) demo_blob)"
    by (auto simp: demo_truth_def demo_blob_def)
qed

lemma demo_ReadAt:
  assumes "0 \<le> a" "a = offset div bs * bs" "0 < bs" "0 \<le> offset" "offset < 11" "in_i64 (offset + int (length buff))"
  shows "\<exists>s'. ReadAt keep_all bs 0 buff offset (sized_store 0) = (case copy_chunk buff (take (nat (min bs (11 - a))) (drop (nat a) demo_blob)) (offset - a) of
      Ret (buff', n) \<Rightarrow> Ret (buff', n, if offset + int (length buff) > 11 then Some EOF else None)
    | Panic p \<Rightarrow> Panic p | Hang \<Rightarrow> Hang, s')"
proof -
  note b = chunk_bounds [OF assms(4,3,2)]
  have i: "in_i64 offset" "i64 (11 - a) = 11 - a" "i64 (offset - a) = offset - a" "i64 (offset + int (length buff)) = offset + int (length buff)"
    using b(1,2) assms(4-6) by (auto intro!: i64_id simp: in_i64_iff)
  obtain c' where "GetOrCreate keep_all ''test'' a (min bs (11 - a)) (FetchFile (mock_Reader demo_blob) ''test'' a (min bs (11 - a)))
      (cache (sized_store 0)) = (Ret (take (nat (min bs (11 - a))) (drop (nat a) demo_blob), None), c')"
  proof -
    have "0 < min bs (11 - a)" "a + min bs (11 - a) \<le> 11"
      using b(2) assms(3,5) by (simp_all add: min_def)
    with demo_get [OF assms(1)] that show thesis by blast
  qed
  then show ?thesis
    using ReadAt_known [OF sized_store_known [of 0] assms(4) i(1) assms(3) _ assms(2), where D = keep_all and buff = buff] i
    by (auto simp: Let_def bind_apply with_cache_def lift_outcome_apply ret_apply split: outcome.splits)
qed

lemma demo_reads:
  "fst (ReadAt keep_all 4 0 [0, 0, 0] 2 (sized_store 0)) = Ret ([108, 108, 0], 2, None)"
  "fst (ReadAt keep_all 4 0 [0, 0, 0, 0, 0, 0] 6 (sized_store 0)) = Ret ([119, 111, 0, 0, 0, 0], 2, Some EOF)"
  using demo_ReadAt [of 0 2 4 "[0, 0, 0]"] demo_ReadAt [of 4 6 4 "[0, 0, 0, 0, 0, 0]"]
  by (auto simp: in_i64_iff copy_chunk_def Let_def demo_blob_def)

theorem Fstat_asks_once_witness:
  "\<exists>s'. Fstat keep_all 0 (demo_store 0) = (Ret (11, None), s') \<and> \<not> statLock (fheap s' 0)
     \<and> (\<exists>t'. Fstat keep_all 0 s' = (Ret (11, None), t') \<and> cache t' = cache s')"
proof -
  obtain s' where s': "Fstat keep_all 0 (demo_store 0) = (Ret (11, None), s')" "\<not> statLock (fheap s' 0)"
    "\<forall>g (t :: ((string \<times> nat) list, unit) store). Name (fheap t g) = ''test'' \<and> metadataCache (cache t) = metadataCache (cache s') \<longrightarrow>
       (\<exists>t'. Fstat keep_all g t = (Ret (11, None), t') \<and> cache t' = cache t)"
    using Fstat_asks_once [of "demo_store 0" 0 11 "()" keep_all] demo_size_unknown
    by (auto simp: mock_Fstat demo_blob_def)
  moreover have "Name (fheap s' 0) = ''test''"
    using s'(1) sized_store_simps(1) [of 0] by (simp add: sized_store_def)
  ultimately show ?thesis by blast
qed

definition down_reader :: "unit Reader" where
  "down_reader = \<lparr>iPread = (\<lambda>buf off e. (Ret (buf, 0, Some (LibError ''down'')), e)),
     iFstat = (\<lambda>e. (Ret (-1, Some (LibError ''down'')), e))\<rparr>"

definition down_store :: "((string \<times> nat) list, unit) store" where
  "down_store = (demo_store 0)\<lparr>fheap := (\<lambda>_. \<lparr>Name = ''test'', cur = 0, fsize = 0, statLock = False,
     chunkOffset = 0, freader = down_reader\<rparr>)\<rparr>"

theorem Fstat_error_leaks_lock_witness:
  "\<exists>s'. Fstat keep_all 0 down_store = (Ret (0, Some (LibError ''down'')), s') \<and> fst (Fstat keep_all 0 s') = Hang"
proof -
  have "known_size down_store (Name (fheap down_store 0)) = None"
    using demo_size_unknown [of 0] by (simp add: down_store_def known_size_def)
  then show ?thesis
    using Fstat_error_leaks_lock [of down_store 0 "-1" "LibError ''down''" "()" keep_all 4 0 11]
    by (auto simp: down_store_def down_reader_def)
qed

theorem ReadAt_returns_blob_bytes_witness:
  "\<exists>s'. ReadAt keep_all 4 0 [0, 0, 0] 2 (sized_store 0) = (Ret ([108, 108, 0], 2, None), s')
     \<and> chunk_inv demo_truth set (cache s') \<and> take 2 (drop 2 demo_blob) = [108, 108]"
proof -
  obtain s' where s': "ReadAt keep_all 4 0 [0, 0, 0] 2 (sized_store 0) = (Ret ([108, 108, 0], 2, None), s')"
    using demo_reads(1) by (metis prod.collapse)
  have "chunk_inv demo_truth set (cache s')"
    using ReadAt_returns_blob_bytes [where blob = demo_blob and truth = demo_truth and bs = 4 and a = 0, OF keep_all_lawful sized_store_inv _ _ _ _ _ _ _ _ _ _ s']
      demo_blob_truth mock_reads_blob [of demo_blob] sized_store_known
    by (simp add: demo_blob_def in_i64_iff)
  with s' show ?thesis by (simp add: demo_blob_def)
qed

theorem ReadAt_early_EOF_witness:
  "\<exists>s'. ReadAt keep_all 4 0 [0, 0, 0, 0, 0, 0] 6 (sized_store 0) = (Ret ([119, 111, 0, 0, 0, 0], 2, Some EOF), s')
     \<and> 6 + 2 < int (length demo_blob)"
proof -
  obtain s' where s': "ReadAt keep_all 4 0 [0, 0, 0, 0, 0, 0] 6 (sized_store 0) = (Ret ([119, 111, 0, 0, 0, 0], 2, Some EOF), s')"
    using demo_reads(2) by (metis prod.collapse)
  have "6 + 2 < int (length demo_blob)"
    using ReadAt_early_EOF [where blob = demo_blob and truth = demo_truth and bs = 4, OF keep_all_lawful sized_store_inv _ _ _ _ _ _ _ _ _ _ s']
      demo_blob_truth mock_reads_blob [of demo_blob] sized_store_known
    by (simp add: demo_blob_def in_i64_iff)
  with s' show ?thesis by blast
qed

theorem ReadAt_past_end_panics_witness:
  "fst (ReadAt keep_all 8 0 [0, 0] 13 (sized_store 0)) = Panic SliceBoundsOutOfRange"
proof -
  obtain c' where "GetOrCreate keep_all ''test'' 8 3 (FetchFile (mock_Reader demo_blob) ''test'' 8 3) (cache (sized_store 0))
      = (Ret ([114, 108, 100], None), c')"
    using demo_get [of 8 3 0] by (auto simp: demo_blob_def)
  then show ?thesis
    using ReadAt_past_end_panics [of "sized_store 0" 0 11 8 13 8 keep_all "[114, 108, 100]" c' "[0, 0]"] sized_store_known [of 0]
    by (simp add: in_i64_iff)
qed

definition queued_store :: "((string \<times> nat) list, unit) store" where
  "queued_store = (sized_store 0)\<lparr>prefetchChan := [\<lparr>pname = ''test'', poffset = 8, pcount = 3, preader = mock_Reader demo_blob\<rparr>]\<rparr>"

theorem worker_advertises_cached_witness:
  "\<exists>s' b err. worker_step keep_all 4 queued_store = (Ret (), s')
     \<and> GetOrCreate keep_all ''test'' 8 3 (FetchFile (mock_Reader demo_blob) ''test'' 8 3) (cache queued_store) = (Ret (b, err), cache s')
     \<and> (err = None \<longrightarrow> int (length b) = 3)"
proof -
  have c: "cache queued_store = cache (sized_store 0)"
    by (simp add: queued_store_def)
  obtain c' where "GetOrCreate keep_all ''test'' 8 3 (FetchFile (mock_Reader demo_blob) ''test'' 8 3) (cache (sized_store 0))
      = (Ret ([114, 108, 100], None), c')"
    using demo_get [of 8 3 0] by (auto simp: demo_blob_def)
  then obtain s' where s': "worker_step keep_all 4 queued_store = (Ret (), s')"
    using FileChunkKey_eq [of 8 4 "''test''"] c
    by (auto simp: worker_step_def worker_run_def bind_apply gets_apply modify_apply with_cache_def queued_store_def in_i64_iff lift_outcome_apply ret_apply)
  then show ?thesis
    using worker_advertises_cached [OF _ s', of "\<lparr>pname = ''test'', poffset = 8, pcount = 3, preader = mock_Reader demo_blob\<rparr>" "[]"]
    by (auto simp: queued_store_def split: if_splits)
qed

section \<open>Requests and keys\<close>

definition demo_request :: "string \<Rightarrow> string \<Rightarrow> Context" where
  "demo_request method url = \<lparr>Request = \<lparr>req_method = method, req_url = url, req_rawQuery = ''x'',
     req_header = [''Range'' \<mapsto> [''bytes=9-10'']]\<rparr>, param_url = ''/'' @ url, keys = Map.empty\<rparr>"

definition demo_hash :: string where
  "demo_hash = ''d18c7a64c5158179bdee531a663c5b487de57ff17cff3af29a51c7e70b491d9d''"

definition demo_url :: string where
  "demo_url = ''https://a.blob.core.windows.net/c//docker/registry/v2/blobs/sha256/d1/'' @ demo_hash @ ''/data''"

lemma demo_request_range: "RangeStartIndex (header_Get (req_header (Request (demo_request m u))) ''Range'') = (9, None)"
proof -
  have "CanonicalHeaderKey ''Range'' = ''Range''" "FormatInt 9 = ''9''" "FormatInt 10 = ''10''"
    by code_simp+
  then show ?thesis
    using RangeStartIndex_FormatInt [of 9 10] by (simp add: demo_request_def header_Get_def in_i64_iff)
qed


theorem Key_loses_digest_error_witness:
  "Key 4 (demo_request ''GET'' ''http://example.com/f'') = Ret (''_'' @ FormatInt 8, [], None)"
proof -
  have "ParseDigest (BlobUrl (demo_request ''GET'' ''http://example.com/f'')) = ([], Some UnknownUrl)"
    by code_simp
  moreover have "req_method (Request (demo_request ''GET'' ''http://example.com/f'')) = ''GET''"
    by (simp add: demo_request_def)
  ultimately show ?thesis
    using Key_loses_digest_error [of "demo_request ''GET'' ''http://example.com/f''" UnknownUrl 4 9] demo_request_range
    by auto
qed

definition peer_context :: Context where
  "peer_context = \<lparr>Request = \<lparr>req_method = ''GET'', req_url = ''u'', req_rawQuery = [],
     req_header = header_Set Map.empty P2PHeaderKey ''true''\<rparr>, param_url = ''/u'', keys = [FileChunkCtxKey \<mapsto> ''test_4'']\<rparr>"

theorem Open_peer_needs_cached_witness:
  "fst (Open keep_all 4 (\<lambda>_. mock_Reader demo_blob) peer_context (demo_store 0)) = Ret (None, Some ErrNotExist)"
proof -
  have p: "IsRequestFromAPeer peer_context"
    by (simp add: IsRequestFromAPeer_def peer_context_def)
  have "Split (CHR ''_'') ''test_4'' = [''test'', ''4'']"
    by code_simp
  then have k: "key_parts peer_context ''test'' (fst (ParseInt ''4''))"
    by (auto simp: key_parts_def peer_context_def GetString_def)
  have "Exists keep_all ''test'' (fst (ParseInt ''4'')) (cache (demo_store 0)) = (Ret False, demo_cache)"
    by (simp add: Exists_def bind_apply gets_apply ret_apply cache_Get_def demo_cache_def empty_cache_def keep_all_def)
  from Open_peer_needs_cached [OF p k this] show ?thesis by simp
qed

theorem peer_file_single_chunk_witness:
  "\<exists>s'. ReadAt keep_all 4 0 [0] 1 (sized_store 4) = (Ret ([0], -1, Some OnlySingleChunkAvailable), s')
     \<and> cache s' = cache (sized_store 4)"
  using peer_file_single_chunk [OF sized_store_known, of 1 4 0 4 4 keep_all "[0]"]
  by (auto simp: in_i64_iff)

definition short_http :: "unit http_deps" where
  "short_http = \<lparr>urlParse = (\<lambda>_. None), urlHostname = (\<lambda>u. u), httpDo = (\<lambda>n cl req.
     (Inr \<lparr>StatusCode = 206, ContentLength = 3, resp_header = Map.empty, body = (if cl = [] then [] else [7]), body_err = None\<rparr>, n))\<rparr>"

theorem FetchFile_accepts_truncated_witness:
  "\<exists>e'. FetchFile (remote_Reader demo_deps short_http (\<lambda>_ _. demo_providers) 0 [Peer demo_peer, Deadline] demo_reader)
     ''test'' 0 3 demo_env = (Ret ([7, 0, 0], None), e')"
proof -
  let ?resp = "\<lambda>cl :: string. \<lparr>StatusCode = 206, ContentLength = 3, resp_header = Map.empty,
      body = (if cl = [] then [] else [7 :: byte]), body_err = None\<rparr>"
  have "stateless short_http (\<lambda>cl req. Inr (?resp cl))"
    by (simp add: stateless_def short_http_def)
  moreover obtain req oreq where "peerRequest short_http demo_reader (HttpHost demo_peer) 0 2 = Inr req"
    "originRequest short_http demo_reader 0 2 = Inr oreq"
    by (simp add: peerRequest_def originRequest_def remoteRequest_def short_http_def)
  ultimately show ?thesis
    using FetchFile_accepts_truncated [of short_http "\<lambda>cl req. Inr (?resp cl)" demo_deps demo_reader demo_env 3 2 0 demo_peer
        req "?resp (ID demo_peer)" oreq "?resp []" "\<lambda>_ _. demo_providers" 0 "''test''"] demo_starts
    by (simp add: demo_peer_def numeral_2_eq_2)
qed

end
