(* ===== verification/Handler.thy ===== *)
theory Handler
  imports Frames Serving
begin

text \<open>
  \<open>pkg/handlers\<close>: the HTTP handler. A request gets a correlation id, its chunk key and a file, and is
  answered by \<open>http.ServeContent\<close>. Of \<open>net/http\<close> the model has what such a request meets: the range
  parser, the choice of the status and the copy loop; conditional headers are taken to be absent. The
  response writer belongs to the web framework: the state keeps the sequence of calls made on it, and
  a script says which writes fail.
\<close>

section \<open>State\<close>

text \<open>The calls on the response writer.\<close>

datatype wcall =
    HSet string string
  | HDel string
  | HAbortWithError int goerr
  | HAbortWithStatus int
  | HWriteHeader int
  | HError int
  | HWrite "byte list"

record ('rc, 'x) hstate =
  hstore :: "('rc, 'x) store"
  wlog :: "wcall list"
  werrs :: "goerr option list"
  hmetrics :: "(string \<times> string) list"

definition with_store :: "(('rc, 'x) store, 'a) go \<Rightarrow> (('rc, 'x) hstate, 'a) go" where
  "with_store m = (\<lambda>s. case m (hstore s) of (x, t) \<Rightarrow> (x, s\<lparr>hstore := t\<rparr>))"

definition call :: "wcall \<Rightarrow> (('rc, 'x) hstate, unit) go" where
  "call w = modify (\<lambda>s. s\<lparr>wlog := wlog s @ [w]\<rparr>)"

text \<open>A write reports the next result of the script, success when the script is over.\<close>

definition do_Write :: "byte list \<Rightarrow> (('rc, 'x) hstate, goerr option) go" where
  "do_Write b = bind (call (HWrite b)) (\<lambda>_.
     (\<lambda>s. (Ret (case werrs s of [] \<Rightarrow> None | e # _ \<Rightarrow> e), s\<lparr>werrs := tl (werrs s)\<rparr>)))"

section \<open>Range requests of net/http\<close>

datatype range_error = InvalidRange | NoOverlap

record httpRange =
  r_start :: int
  r_length :: int

fun trim_left :: "string \<Rightarrow> string" where
  "trim_left [] = []"
| "trim_left (c # s) = (if c = CHR '' '' \<or> c = CHR 0x09 \<or> c = CHR 0x0A \<or> c = CHR 0x0D then trim_left s else c # s)"

definition TrimString :: "string \<Rightarrow> string" where
  "TrimString s = rev (trim_left (rev (trim_left s)))"

text \<open>\<open>strings.Cut\<close> at the first dash.\<close>

fun Cut_dash :: "string \<Rightarrow> (string \<times> string) option" where
  "Cut_dash [] = None"
| "Cut_dash (c # s) = (if c = CHR ''-'' then Some ([], s)
     else case Cut_dash s of None \<Rightarrow> None | Some (a, b) \<Rightarrow> Some (c # a, b))"

text \<open>One range specification: \<open>None\<close> where it lies behind the end of the content.\<close>

definition parse_spec :: "int \<Rightarrow> string \<Rightarrow> range_error + httpRange option" where
  "parse_spec sz ra = (case Cut_dash ra of
      None \<Rightarrow> Inl InvalidRange
    | Some (a, b) \<Rightarrow>
        let a = TrimString a; b = TrimString b in
        if a = [] then
          if b = [] \<or> b ! 0 = CHR ''-'' then Inl InvalidRange
          else let (i, err) = ParseInt b in
            if i < 0 \<or> err \<noteq> None then Inl InvalidRange
            else let i = min i sz in Inr (Some \<lparr>r_start = sz - i, r_length = i\<rparr>)
        else let (i, err) = ParseInt a in
          if err \<noteq> None \<or> i < 0 then Inl InvalidRange
          else if i \<ge> sz then Inr None
          else if b = [] then Inr (Some \<lparr>r_start = i, r_length = sz - i\<rparr>)
          else let (j, err) = ParseInt b in
            if err \<noteq> None \<or> i > j then Inl InvalidRange
            else let j = min j (sz - 1) in Inr (Some \<lparr>r_start = i, r_length = j - i + 1\<rparr>))"

fun parse_specs :: "int \<Rightarrow> string list \<Rightarrow> bool \<Rightarrow> httpRange list \<Rightarrow> range_error + httpRange list" where
  "parse_specs sz [] noOverlap rs = (if noOverlap \<and> rs = [] then Inl NoOverlap else Inr rs)"
| "parse_specs sz (ra # ras) noOverlap rs =
     (if TrimString ra = [] then parse_specs sz ras noOverlap rs
      else case parse_spec sz (TrimString ra) of
          Inl e \<Rightarrow> Inl e
        | Inr None \<Rightarrow> parse_specs sz ras True rs
        | Inr (Some r) \<Rightarrow> parse_specs sz ras noOverlap (rs @ [r]))"

definition parseRange :: "string \<Rightarrow> int \<Rightarrow> range_error + httpRange list" where
  "parseRange s sz =
     (if s = [] then Inr []
      else if \<not> has_prefix s ''bytes='' then Inl InvalidRange
      else parse_specs sz (Split (CHR '','') (drop 6 s)) False [])"

text \<open>\<open>io.CopyN\<close> from a file: read into a buffer of at most 32 KiB and at most what is left, and write
  what came; the end of the file ends the copy. Every round but the last copies something, so that
  \<open>n + 1\<close> rounds are enough (\<open>CopyN_ends\<close> below); running out of rounds would be \<open>Hang\<close>.\<close>

fun CopyN :: "nat \<Rightarrow> 'rc deps \<Rightarrow> int \<Rightarrow> nat \<Rightarrow> int \<Rightarrow> (('rc, 'x) hstate, goerr option) go" where
  "CopyN 0 D bs f n = hang"
| "CopyN (Suc k) D bs f n =
     (if n \<le> 0 then ret None
      else bind (with_store (Read D bs f (replicate (nat (min 32768 n)) 0))) (\<lambda>(p, nr, er).
           bind (if nr > 0 then do_Write (take (nat nr) p) else ret None) (\<lambda>ew.
             if ew \<noteq> None then ret ew
             else if er = None then CopyN k D bs f (n - nr)
             else if er = Some EOF \<and> nr = n then ret None
             else ret er)))"

text \<open>How serving ended: with the error of the copy loop, by a rejection, or with several ranges, whose
  multipart answer is not modelled (\<open>GET_single_range\<close>: a GET never gets there).\<close>

datatype serve_result = Served "goerr option" | Rejected | Multipart "httpRange list"

definition contentRange :: "httpRange \<Rightarrow> int \<Rightarrow> string" where
  "contentRange ra sz = ''bytes '' @ FormatInt (r_start ra) @ ''-''
     @ FormatInt (r_start ra + r_length ra - 1) @ ''/'' @ FormatInt sz"

text \<open>The end of \<open>http.ServeContent\<close>: headers, status and the content.\<close>

definition send :: "nat \<Rightarrow> 'rc deps \<Rightarrow> int \<Rightarrow> request \<Rightarrow> nat \<Rightarrow> int \<Rightarrow> int \<Rightarrow> (('rc, 'x) hstate, serve_result) go" where
  "send fuel D bs req f sendSize code =
     bind (call (HSet ''Accept-Ranges'' ''bytes'')) (\<lambda>_.
     bind (call (HSet ''Content-Length'' (FormatInt sendSize))) (\<lambda>_.
     bind (call (HWriteHeader code)) (\<lambda>_.
       if req_method req = ''HEAD'' then ret (Served None)
       else bind (CopyN fuel D bs f sendSize) (\<lambda>e. ret (Served e)))))"

text \<open>What follows once the size of the content is known.\<close>

definition serve_sized :: "nat \<Rightarrow> 'rc deps \<Rightarrow> int \<Rightarrow> request \<Rightarrow> nat \<Rightarrow> int \<Rightarrow> (('rc, 'x) hstate, serve_result) go" where
  "serve_sized fuel D bs req f sz =
     (if sz < 0 then bind (call (HError 500)) (\<lambda>_. ret Rejected)
      else case parseRange (header_Get (req_header req) ''Range'') sz of
          Inl e \<Rightarrow>
            if e = NoOverlap \<and> sz = 0 then send fuel D bs req f sz 200
            else
              bind (if e = NoOverlap then call (HSet ''Content-Range'' (''bytes */'' @ FormatInt sz)) else ret ()) (\<lambda>_.
              bind (call (HError 416)) (\<lambda>_. ret Rejected))
        | Inr ranges \<Rightarrow>
            if sum_list (map r_length ranges) > sz \<or> ranges = [] then send fuel D bs req f sz 200
            else case ranges of
              [ra] \<Rightarrow>
                bind (with_store (Seek f (r_start ra) SeekStart)) (\<lambda>_.
                bind (call (HSet ''Content-Range'' (contentRange ra sz))) (\<lambda>_.
                send fuel D bs req f (r_length ra) 206))
            | _ \<Rightarrow> ret (Multipart ranges))"

text \<open>\<open>http.ServeContent\<close>: the size is where \<open>SeekEnd\<close> leads.\<close>

definition ServeContent :: "nat \<Rightarrow> 'rc deps \<Rightarrow> int \<Rightarrow> request \<Rightarrow> nat \<Rightarrow> (('rc, 'x) hstate, serve_result) go" where
  "ServeContent fuel D bs req f =
     bind (with_store (Seek f 0 SeekEnd)) (\<lambda>(sz, _).
     bind (with_store (Seek f 0 SeekStart)) (\<lambda>_. serve_sized fuel D bs req f sz))"

section \<open>The files handler\<close>

definition fill :: "int \<Rightarrow> Context \<Rightarrow> (Context \<times> goerr option) outcome" where
  "fill bs c =
     (let c = ctx_Set c ''handler'' ''files'' in
      obind (Key bs c) (\<lambda>(key, d, err). case err of
          Some e \<Rightarrow> Ret (c, Some e)
        | None \<Rightarrow>
            let c = ctx_Set c DigestCtxKey d;
                c = ctx_Set c FileChunkCtxKey key;
                c = ctx_Set c BlobUrlCtxKey (BlobUrl c);
                c = ctx_Set c BlobRangeCtxKey (header_Get (req_header (Request c)) ''Range'')
            in Ret (c, None)))"

definition handle_body :: "nat \<Rightarrow> 'rc deps \<Rightarrow> int \<Rightarrow> (Context \<Rightarrow> 'x Reader) \<Rightarrow> string \<Rightarrow> Context \<Rightarrow> (('rc, 'x) hstate, unit) go" where
  "handle_body fuel D bs newReader nodeName c =
     bind (lift_outcome (fill bs c)) (\<lambda>(c, err). case err of
       Some e \<Rightarrow> call (HAbortWithError 400 e)
     | None \<Rightarrow>
         bind (with_store (Open D bs newReader c)) (\<lambda>(fo, err).
           if err = Some ErrNotExist then call (HAbortWithStatus 404)
           else case err of
             Some e \<Rightarrow> call (HAbortWithError 500 e)
           | None \<Rightarrow> (case fo of
               None \<Rightarrow> gpanic NilDereference
             | Some f \<Rightarrow>
                 bind (call (HSet ''Content-Type'' ''application/octet-stream'')) (\<lambda>_.
                 bind (call (HDel ''Content-Length'')) (\<lambda>_.
                 bind (call (HSet NodeHeaderKey nodeName)) (\<lambda>_.
                 bind (call (HSet CorrelationHeaderKey (GetString c CorrelationIdCtxKey))) (\<lambda>_.
                 bind (ServeContent fuel D bs (Request c) f) (\<lambda>_. ret ()))))))))"

text \<open>The deferred recording of the request happens on every way out.\<close>

definition Handle :: "nat \<Rightarrow> 'rc deps \<Rightarrow> int \<Rightarrow> (Context \<Rightarrow> 'x Reader) \<Rightarrow> string \<Rightarrow> Context \<Rightarrow> (('rc, 'x) hstate, unit) go" where
  "Handle fuel D bs newReader nodeName c =
     with_defer (modify (\<lambda>s. s\<lparr>hmetrics := hmetrics s @ [(req_method (Request c), ''files'')]\<rparr>))
       (handle_body fuel D bs newReader nodeName c)"

section \<open>Copying a range\<close>

lemmas handler_run = bind_apply ret_apply call_def modify_apply do_Write_def with_store_def

text \<open>One read of the copy loop inside the blob.\<close>

lemma Read_serving:
  assumes "serving truth holds blob bs f s" "kv_lawful D holds" "in_i64 (int (length blob))" "0 < bs"
    and "cur (fheap s f) = off" "0 \<le> off" "buff \<noteq> []" "off + int (length buff) \<le> int (length blob)"
    and run: "Read D bs f buff s = (x, s')"
  shows "x \<noteq> Hang"
    and "x = Ret (p, n, err) \<Longrightarrow> serving truth holds blob bs f s' \<and>
      (n = 0 \<and> (\<exists>e. err = Some (ReadAtFailed (Name (fheap s f)) off e)) \<or>
       0 < n \<and> n \<le> int (length buff) \<and> take (nat n) p = take (nat n) (drop (nat off) blob) \<and> err = None
       \<and> cur (fheap s' f) = off + n)"
proof -
  have pos: "0 < length buff" using assms(7) by simp
  then have lt: "off < int (length blob)" using assms(8) by linarith
  have i: "in_i64 (off + int (length buff))" "in_i64 off"
    using assms(3,6,8) lt by (auto simp: in_i64_iff)
  obtain y s1 where r: "ReadAt D bs f buff off s = (y, s1)" by fastforce
  note sv = ReadAt_serving [OF assms(1-4) assms(6) lt i(1) r]
  note run' = run [unfolded Read_def bind_apply gets_apply assms(5) prod.case outcome.case r]
  show "x \<noteq> Hang"
    using run' sv(1) by (auto simp: modify_apply ret_apply split: outcome.splits if_splits)
  assume x: "x = Ret (p, n, err)"
  have y: "y = Ret (p, n, err)" and s': "s' = (if err = None then upd_file f (\<lambda>x. x\<lparr>cur := i64 (cur x + n)\<rparr>) s1 else s1)"
    using run' x by (auto simp: modify_apply ret_apply split: outcome.splits if_splits)
  note ok = sv(2) [OF y]
  then have sv': "serving truth holds blob bs f s'"
    by (simp add: s' serving_upd)
  have "known_size s (Name (fheap s f)) = Some (int (length blob))" "chunk_inv truth holds (cache s)"
    "blob_truth (cpath (cache s)) (Name (fheap s f)) bs blob truth" "reads_blob (freader (fheap s f)) blob"
    "chunkOffset (fheap s f) = 0 \<or> chunkOffset (fheap s f) = off div bs * bs"
    using assms(1) by (auto simp: serving_def)
  note rd = ReadAt_correct [OF assms(2) this(2,3,4,1) assms(3,4,6) lt i(1) refl this(5) r [unfolded y]]
  show "serving truth holds blob bs f s' \<and>
      (n = 0 \<and> (\<exists>e. err = Some (ReadAtFailed (Name (fheap s f)) off e)) \<or>
       0 < n \<and> n \<le> int (length buff) \<and> take (nat n) p = take (nat n) (drop (nat off) blob) \<and> err = None
       \<and> cur (fheap s' f) = off + n)"
  proof (cases "n = 0 \<and> (\<exists>e. err = Some (ReadAtFailed (Name (fheap s f)) off e))")
    case False
    let ?n = "min (int (length buff)) (min (off div bs * bs + bs) (int (length blob)) - off)"
    have n: "n = ?n" "p = take (nat n) (drop (nat off) blob) @ drop (nat n) buff" "err = None"
      using rd False assms(8) by auto
    have "0 < ?n" "?n \<le> int (length buff)"
      using chunk_bounds [OF assms(6,4) refl] lt pos by simp_all
    then have b: "0 < n" "n \<le> int (length buff)"
      unfolding n(1) .
    moreover have "length (take (nat n) (drop (nat off) blob)) = nat n"
      using b assms(6,8) by (simp add: min_def) linarith
    then have "take (nat n) p = take (nat n) (drop (nat off) blob)"
      using n(2) by simp
    moreover have "i64 (off + n) = off + n"
      using b i by (intro i64_id) (auto simp: in_i64_iff)
    ultimately show ?thesis
      using sv' ok assms(5) n(3) by (simp add: s')
  qed (use sv' in blast)
qed

text \<open>The result of the next write.\<close>

definition next_write :: "('rc, 'x) hstate \<Rightarrow> goerr option" where
  "next_write s = (case werrs s of [] \<Rightarrow> None | e # _ \<Rightarrow> e)"

lemma CopyN_done: "n \<le> 0 \<Longrightarrow> CopyN (Suc k) D bs f n s = (Ret None, s)"
  by (simp add: ret_apply)

lemma CopyN_step:
  assumes "0 < n" "Read D bs f (replicate (nat (min 32768 n)) 0) (hstore s) = (Ret (p, nr, er), t)"
  shows "0 < nr \<Longrightarrow> CopyN (Suc k) D bs f n s =
      (let s1 = s\<lparr>hstore := t, wlog := wlog s @ [HWrite (take (nat nr) p)], werrs := tl (werrs s)\<rparr> in
       if next_write s \<noteq> None then (Ret (next_write s), s1)
       else if er = None then CopyN k D bs f (n - nr) s1
       else if er = Some EOF \<and> nr = n then (Ret None, s1) else (Ret er, s1))"
    and "nr \<le> 0 \<Longrightarrow> CopyN (Suc k) D bs f n s =
      (if er = None then CopyN k D bs f (n - nr) (s\<lparr>hstore := t\<rparr>) else (Ret er, s\<lparr>hstore := t\<rparr>))"
  using assms by (simp_all add: handler_run next_write_def Let_def)

text \<open>The whole copy: it ends within \<open>n + 1\<close> rounds, and what it hands to the writer is the requested
  range, or, when it reports an error, a part from its start.\<close>

lemma CopyN_serving:
  assumes "kv_lawful D holds" "in_i64 (int (length blob))" "0 < bs"
  shows "serving truth holds blob bs f (hstore s) \<Longrightarrow> cur (fheap (hstore s) f) = off \<Longrightarrow> 0 \<le> off \<Longrightarrow> 0 \<le> n \<Longrightarrow>
    off + n \<le> int (length blob) \<Longrightarrow> nat n < k \<Longrightarrow> CopyN k D bs f n s = (x, s') \<Longrightarrow>
    x \<noteq> Hang \<and> (\<forall>e. x = Ret e \<longrightarrow> (\<exists>m ws. wlog s' = wlog s @ map HWrite ws
      \<and> concat ws = take m (drop (nat off) blob) \<and> m \<le> nat n \<and> (e = None \<longrightarrow> m = nat n)))"
proof (induction k arbitrary: s off n)
  case (Suc k)
  show ?case
  proof (cases "n = 0")
    case True
    with Suc.prems(7) show ?thesis
      by (auto simp: ret_apply intro!: exI [of _ "[]"])
  next
    case False
    let ?buff = "replicate (nat (min 32768 n)) (0 :: byte)"
    have b: "?buff \<noteq> []" "off + int (length ?buff) \<le> int (length blob)" "\<not> n \<le> 0" "int (length ?buff) \<le> n"
      using False Suc.prems(4,5) by auto
    obtain y t where r: "Read D bs f ?buff (hstore s) = (y, t)" by fastforce
    note rd = Read_serving [OF Suc.prems(1) assms Suc.prems(2,3) b(1,2) r]
    have n: "0 < n" using b(3) by simp
    show ?thesis
    proof (cases y)
      case (Ret z)
      obtain p nr er where z: "z = (p, nr, er)" using prod_cases3 by blast
      note ok = rd(2) [OF Ret [unfolded z]]
      show ?thesis
      proof (cases "er = None")
        case False
        then have "nr = 0" using ok by blast
        then have "x = Ret er" "s' = s\<lparr>hstore := t\<rparr>"
          using Suc.prems(7) CopyN_step(2) [OF n r [unfolded Ret z], of k] False by auto
        with False show ?thesis
          by (auto intro!: exI [of _ "[]"])
      next
        case True
        then have nr: "0 < nr" "nr \<le> n" "take (nat nr) p = take (nat nr) (drop (nat off) blob)" "cur (fheap t f) = off + nr"
          "serving truth holds blob bs f t"
          using ok b(4) by auto
        note step = CopyN_step(1) [OF n r [unfolded Ret z] nr(1), of k, unfolded Let_def]
        let ?s1 = "s\<lparr>hstore := t, wlog := wlog s @ [HWrite (take (nat nr) p)], werrs := tl (werrs s)\<rparr>"
        show ?thesis
        proof (cases "next_write s")
          case (Some e)
          then have "x = Ret (Some e)" "s' = ?s1"
            using Suc.prems(7) step by auto
          with nr(1-3) show ?thesis
            by (auto intro!: exI [of _ "nat nr"] exI [of _ "[take (nat nr) p]"])
        next
          case None
          then have "CopyN k D bs f (n - nr) ?s1 = (x, s')"
            using Suc.prems(7) step True by simp
          from Suc.IH [OF _ _ _ _ _ _ this, of "off + nr"] Suc.prems(3-6) nr
          have ih: "x \<noteq> Hang" "\<And>e. x = Ret e \<Longrightarrow> \<exists>m ws. wlog s' = wlog ?s1 @ map HWrite ws
              \<and> concat ws = take m (drop (nat (off + nr)) blob) \<and> m \<le> nat (n - nr) \<and> (e = None \<longrightarrow> m = nat (n - nr))"
            by auto
          have "\<exists>m ws. wlog s' = wlog s @ map HWrite ws \<and> concat ws = take m (drop (nat off) blob) \<and> m \<le> nat n \<and> (e = None \<longrightarrow> m = nat n)"
            if "x = Ret e" for e
          proof -
            from ih(2) [OF that] obtain m ws where "wlog s' = wlog ?s1 @ map HWrite ws"
              "concat ws = take m (drop (nat (off + nr)) blob)" "m \<le> nat (n - nr)" "e = None \<longrightarrow> m = nat (n - nr)" by blast
            moreover have "take (nat nr) (drop (nat off) blob) @ take m (drop (nat (off + nr)) blob) = take (nat nr + m) (drop (nat off) blob)"
              using nr(1) Suc.prems(3) take_add [of "nat nr" m "drop (nat off) blob"] by (simp add: nat_add_distrib add.commute)
            ultimately show ?thesis
              using nr(1-3) by (intro exI [of _ "nat nr + m"] exI [of _ "take (nat nr) p # ws"]) auto
          qed
          with ih(1) show ?thesis by blast
        qed
      qed
    qed (use Suc.prems(7) n r rd(1) in \<open>auto simp: handler_run\<close>)
  qed
qed simp

text \<open>C25: a range that is read to its end is finished. Copying \<open>n\<close> bytes from a position inside a blob of known
  size needs at most \<open>n + 1\<close> reads, because every read that does not fail delivers at least one byte; with
  that many rounds the copy does not hang, it hands the writer a part of the blob from that position on,
  and all \<open>n\<close> bytes when it reports no error.\<close>

theorem copy_loop_ends:
  assumes "kv_lawful D holds" "in_i64 (int (length blob))" "0 < bs" "serving truth holds blob bs f (hstore s)"
    and "cur (fheap (hstore s) f) = off" "0 \<le> off" "0 \<le> n" "off + n \<le> int (length blob)"
    and "CopyN (Suc (nat n)) D bs f n s = (x, s')"
  shows "x \<noteq> Hang \<and> (\<forall>e. x = Ret e \<longrightarrow> (\<exists>m ws. wlog s' = wlog s @ map HWrite ws
      \<and> concat ws = take m (drop (nat off) blob) \<and> m \<le> nat n \<and> (e = None \<longrightarrow> m = nat n)))"
  by (rule CopyN_serving [OF assms(1-8) lessI assms(9)])

section \<open>Parsing a range\<close>

definition is_space :: "char \<Rightarrow> bool" where
  "is_space c \<longleftrightarrow> c = CHR '' '' \<or> c = CHR 0x09 \<or> c = CHR 0x0A \<or> c = CHR 0x0D"

lemma trim_left_id: "list_all (\<lambda>c. \<not> is_space c) s \<Longrightarrow> trim_left s = s"
  by (cases s) (auto simp: is_space_def)

lemma TrimString_id: "list_all (\<lambda>c. \<not> is_space c) s \<Longrightarrow> TrimString s = s"
  by (simp add: TrimString_def trim_left_id)

lemma set_TrimString: "set (TrimString s) \<subseteq> set s"
proof -
  have "set (trim_left t) \<subseteq> set t" for t
    by (induction t) auto
  then show ?thesis unfolding TrimString_def by (metis set_rev subset_trans)
qed

lemma Cut_dash_append: "CHR ''-'' \<notin> set x \<Longrightarrow> Cut_dash (x @ CHR ''-'' # y) = Some (x, y)"
  by (induction x) auto

lemma Cut_dash_None: "CHR ''-'' \<notin> set x \<Longrightarrow> Cut_dash x = None"
  by (induction x) auto

lemma FormatInt_no_space: "list_all (\<lambda>c. \<not> is_space c) (FormatInt i)" "CHR '','' \<notin> set (FormatInt i)"
  using FormatInt_chars [of _ i] by (fastforce simp: list_all_iff is_space_def is_digit_def)+

text \<open>The header of a range of positions, as clients and peers send it.\<close>

definition range_header :: "int \<Rightarrow> int \<Rightarrow> string" where
  "range_header a b = ''bytes='' @ FormatInt a @ ''-'' @ FormatInt b"

lemma parseRange_range:
  assumes "0 \<le> a" "a \<le> b" "in_i64 b"
  shows "parseRange (range_header a b) sz =
    (if a < sz then Inr [\<lparr>r_start = a, r_length = min b (sz - 1) - a + 1\<rparr>] else Inl NoOverlap)"
proof -
  let ?ra = "FormatInt a @ ''-'' @ FormatInt b"
  have "in_i64 a" using assms by (simp add: in_i64_iff)
  have "list_all (\<lambda>c. \<not> is_space c) ?ra"
    using FormatInt_no_space(1) [of a] FormatInt_no_space(1) [of b] by (simp add: is_space_def)
  then have trim: "TrimString ?ra = ?ra" by (rule TrimString_id)
  have "parse_spec sz ?ra = (if a < sz then Inr (Some \<lparr>r_start = a, r_length = min b (sz - 1) - a + 1\<rparr>) else Inr None)"
    using assms Cut_dash_append [of "FormatInt a" "FormatInt b"] \<open>in_i64 a\<close>
    by (simp add: parse_spec_def TrimString_id FormatInt_no_space Let_def)
  moreover have "Split (CHR '','') ?ra = [?ra]"
    by (rule Split_no_sep) (simp add: FormatInt_no_space)
  ultimately show ?thesis
    using trim by (simp add: parseRange_def range_header_def)
qed

text \<open>A header with a single dash denotes at most one range.\<close>

lemma parse_specs_dashes:
  "parse_specs sz ras no rs = Inr out \<Longrightarrow> length out \<le> length rs + length (filter (\<lambda>w. CHR ''-'' \<in> set w) ras)"
proof (induction sz ras no rs rule: parse_specs.induct)
  case (2 sz ra ras no rs)
  have "CHR ''-'' \<in> set ra" if "parse_spec sz (TrimString ra) = Inr r" for r
    using that set_TrimString [of ra] by (cases "CHR ''-'' \<in> set (TrimString ra)") (auto simp: parse_spec_def Cut_dash_None)
  with 2 show ?case
    by (fastforce split: if_splits sum.splits option.splits)
qed (auto split: if_splits)

lemma Split_dashes:
  "length (filter (\<lambda>w. CHR ''-'' \<in> set w) (Split sep s)) \<le> count_list s (CHR ''-'')"
proof (induction s)
  case (Cons c s)
  then show ?case by (cases "Split sep s") auto
qed simp

lemma GET_single_range:
  assumes "RangeStartIndex v = (i, None)" "parseRange v sz = Inr ranges"
  shows "length ranges \<le> 1"
proof -
  from assms(1) obtain x y where v: "v = ''bytes='' @ x @ ''-'' @ y" "CHR ''-'' \<notin> set x" "CHR ''-'' \<notin> set y"
    by (auto simp: RangeStartIndex_iff)
  then have "count_list (drop 6 v) (CHR ''-'') = 1"
    by (simp add: count_list_append count_notin)
  moreover have "length ranges \<le> length (filter (\<lambda>w. CHR ''-'' \<in> set w) (Split (CHR '','') (drop 6 v)))"
    using assms(2) parse_specs_dashes v(1) by (fastforce simp: parseRange_def)
  ultimately show ?thesis
    using Split_dashes [of "CHR '',''" "drop 6 v"] by linarith
qed

section \<open>Serving a request\<close>

lemma IsRequestFromAPeer_Set [simp]: "IsRequestFromAPeer (ctx_Set c k v) = IsRequestFromAPeer c"
  by (simp add: IsRequestFromAPeer_def)

lemma BlobUrl_Set [simp]: "BlobUrl (ctx_Set c k v) = BlobUrl c"
  by (simp add: BlobUrl_def)

lemma Key_Set [simp]: "Key bs (ctx_Set c k v) = Key bs c"
  unfolding Key_def BlobUrl_Set Request_Set by (rule refl)

lemma ctx_keys_differ [simp]:
  "FileChunkCtxKey \<noteq> BlobUrlCtxKey" "FileChunkCtxKey \<noteq> BlobRangeCtxKey" "CorrelationIdCtxKey \<noteq> BlobUrlCtxKey"
  "CorrelationIdCtxKey \<noteq> BlobRangeCtxKey" "CorrelationIdCtxKey \<noteq> FileChunkCtxKey" "CorrelationIdCtxKey \<noteq> DigestCtxKey"
  "CorrelationIdCtxKey \<noteq> ''handler''"
  by (simp_all add: FileChunkCtxKey_def BlobUrlCtxKey_def BlobRangeCtxKey_def CorrelationIdCtxKey_def DigestCtxKey_def)

lemma fill_ok:
  assumes "Key bs c = Ret (key, d, None)"
  shows "\<exists>c'. fill bs c = Ret (c', None) \<and> GetString c' FileChunkCtxKey = key \<and> Request c' = Request c
    \<and> GetString c' CorrelationIdCtxKey = GetString c CorrelationIdCtxKey \<and> IsRequestFromAPeer c' = IsRequestFromAPeer c"
  using assms by (simp add: fill_def Let_def)

text \<open>Opening a file whose size is known, for a request that is not from a peer.\<close>

lemma Open_known:
  assumes "Split (CHR ''_'') (GetString c FileChunkCtxKey) = [d, w]" "\<not> IsRequestFromAPeer c"
    and "known_size s d = Some sz"
  shows "\<exists>t. Open D bs newReader c s = (Ret (Some (next_file s), None), t) \<and> cache t = cache s
    \<and> fheap t (next_file s) = \<lparr>Name = d, cur = 0, fsize = sz, statLock = False, chunkOffset = 0, freader = newReader c\<rparr>"
proof -
  let ?f = "next_file s"
  let ?s1 = "s\<lparr>next_file := Suc ?f, fheap := (fheap s)(?f := \<lparr>Name = d, cur = 0, fsize = 0, statLock = False,
    chunkOffset = 0, freader = newReader c\<rparr>)\<rparr>"
  have "Fstat D ?f ?s1 = (Ret (sz, None), upd_file ?f (\<lambda>x. x\<lparr>fsize := sz\<rparr>) ?s1)"
    by (rule Fstat_hit) (use assms(3) in \<open>simp add: known_size_def\<close>)
  with assms(1,2) show ?thesis
    by (simp add: Open_def Let_def bind_apply ret_apply gets_apply modify_apply prefetch_def)
qed

text \<open>The headers every file is sent with.\<close>

definition file_headers :: "string \<Rightarrow> Context \<Rightarrow> wcall list" where
  "file_headers nodeName c = [HSet ''Content-Type'' ''application/octet-stream'', HDel ''Content-Length'',
     HSet NodeHeaderKey nodeName, HSet CorrelationHeaderKey (GetString c CorrelationIdCtxKey)]"

definition range_headers :: "int \<Rightarrow> int \<Rightarrow> int \<Rightarrow> wcall list" where
  "range_headers a n sz = [HSet ''Content-Range'' (''bytes '' @ FormatInt a @ ''-'' @ FormatInt (a + n - 1) @ ''/'' @ FormatInt sz),
     HSet ''Accept-Ranges'' ''bytes'', HSet ''Content-Length'' (FormatInt n), HWriteHeader 206]"

lemma ServeContent_range:
  assumes "kv_lawful D holds" "in_i64 (int (length blob))" "0 < bs" "serving truth holds blob bs f (hstore s)"
    and "fsize (fheap (hstore s) f) = int (length blob)" "length blob < fuel"
    and "req_method req = ''GET''" "header_Get (req_header req) ''Range'' = range_header a b" "0 \<le> a" "a \<le> b" "in_i64 b"
    and "a < int (length blob)" "n = min b (int (length blob) - 1) - a + 1"
    and run: "ServeContent fuel D bs req f s = (x, s')"
  shows "x \<noteq> Hang \<and> (\<forall>r. x = Ret r \<longrightarrow> (\<exists>e m ws. r = Served e \<and> m \<le> nat n \<and> (e = None \<longrightarrow> m = nat n)
    \<and> wlog s' = wlog s @ range_headers a n (int (length blob)) @ map HWrite ws \<and> concat ws = take m (drop (nat a) blob)))"
proof -
  let ?ra = "\<lparr>r_start = a, r_length = n\<rparr>"
  let ?s1 = "s\<lparr>hstore := upd_file f (\<lambda>x. x\<lparr>cur := a\<rparr>) (hstore s), wlog := wlog s @ range_headers a n (int (length blob))\<rparr>"
  have n: "0 < n" "n \<le> int (length blob)" "a + n \<le> int (length blob)"
    using assms(9,10,12,13) by auto
  obtain y t where c: "CopyN fuel D bs f n ?s1 = (y, t)" by fastforce
  have "parseRange (header_Get (req_header req) ''Range'') (int (length blob)) = Inr [?ra]"
    using parseRange_range [OF assms(9,10,11), of "int (length blob)"] assms(8,12,13) by simp
  then have x: "x = (case y of Ret e \<Rightarrow> Ret (Served e) | Panic p \<Rightarrow> Panic p | Hang \<Rightarrow> Hang)" "s' = t"
    using run c n assms(5,7)
    by (auto simp: ServeContent_def serve_sized_def send_def Seek_def handler_run gets_apply contentRange_def range_headers_def split: outcome.splits)
  have "serving truth holds blob bs f (hstore ?s1)" "cur (fheap (hstore ?s1) f) = a" "nat n < fuel"
    using assms(4,6) n by (simp_all add: serving_upd)
  from CopyN_serving [OF assms(1-3) this(1,2) assms(9) _ n(3) this(3) c] n(1) x show ?thesis
    by (cases y) auto
qed

lemma Handle_run:
  assumes "handle_body fuel D bs newReader nodeName c s = (x, t)" "x \<noteq> Hang"
  shows "Handle fuel D bs newReader nodeName c s = (x, t\<lparr>hmetrics := hmetrics t @ [(req_method (Request c), ''files'')]\<rparr>)"
  using assms by (cases x) (auto simp: Handle_def with_defer_def modify_apply)

lemma Handle_hang:
  assumes "Handle fuel D bs newReader nodeName c s = (Hang, t)"
  shows "\<exists>t. handle_body fuel D bs newReader nodeName c s = (Hang, t)"
  using assms by (auto simp: Handle_def with_defer_def modify_apply split: prod.splits outcome.splits)

text \<open>Serving a request does not touch the metrics.\<close>

definition metrics_are :: "(string \<times> string) list \<Rightarrow> ('rc, 'x) hstate \<Rightarrow> bool" where
  "metrics_are h s \<longleftrightarrow> hmetrics s = h"

lemma keeps_metrics_steps [simp]:
  "keeps (metrics_are h) (with_store m)" "keeps (metrics_are h) (call w)" "keeps (metrics_are h) (do_Write b)"
  "keeps (metrics_are h) (lift_outcome z)" "keeps (metrics_are h) (gpanic q)" "keeps (metrics_are h) hang"
  by (simp_all add: keeps_def metrics_are_def handler_run lift_outcome_apply gpanic_apply hang_apply split: prod.splits)

lemma keeps_metrics_CopyN [simp]: "keeps (metrics_are h) (CopyN k D bs f n)"
  by (induction k arbitrary: n) (simp_all add: keeps_bind keeps_cases)

lemma keeps_metrics_send [simp]: "keeps (metrics_are h) (send fuel D bs req f n code)"
  unfolding send_def by (intro keeps_bind keeps_cases) simp_all

lemma keeps_metrics_ServeContent [simp]: "keeps (metrics_are h) (ServeContent fuel D bs req f)"
  unfolding ServeContent_def serve_sized_def
  by (intro keeps_bind keeps_cases) (simp_all add: keeps_bind split: list.splits)

lemma hmetrics_handle_body:
  assumes "handle_body fuel D bs newReader nodeName c s = (x, t)"
  shows "hmetrics t = hmetrics s"
proof -
  have "keeps (metrics_are (hmetrics s)) (handle_body fuel D bs newReader nodeName c :: (('a, 'b) hstate, unit) go)"
    unfolding handle_body_def by (intro keeps_bind keeps_cases) simp_all
  from keepsD [OF this _ assms] show ?thesis by (simp add: metrics_are_def)
qed

text \<open>A GET of a range that passes \<open>fill\<close> and \<open>Open\<close> reaches \<open>ServeContent\<close> on a fresh file.\<close>

lemma handle_body_opens:
  assumes "req_method (Request c) = ''GET''" "\<not> IsRequestFromAPeer c" "ParseDigest (BlobUrl c) = (d, None)"
    and "header_Get (req_header (Request c)) ''Range'' = range_header a b" "0 \<le> a" "a \<le> b" "in_i64 b" "0 < bs"
    and "known_size (hstore s) d = Some sz"
  shows "\<exists>f t c'. Request c' = Request c \<and> cache t = cache (hstore s)
    \<and> fheap t f = \<lparr>Name = d, cur = 0, fsize = sz, statLock = False, chunkOffset = 0, freader = newReader c'\<rparr>
    \<and> handle_body fuel D bs newReader nodeName c s =
        bind (ServeContent fuel D bs (Request c) f) (\<lambda>_. ret ()) (s\<lparr>hstore := t, wlog := wlog s @ file_headers nodeName c\<rparr>)"
proof -
  have a: "in_i64 a" using assms(5-7) by (simp add: in_i64_iff)
  have "RangeStartIndex (range_header a b) = (a, None)"
    unfolding range_header_def by (rule RangeStartIndex_FormatInt) (use assms(5,6) a in simp_all)
  then have key: "Key bs c = Ret (d @ ''_'' @ FormatInt (a div bs * bs), d, None)"
    using assms(1,3,4) FileChunkKey_eq [OF assms(5) a assms(8), of d] by (simp add: Key_def)
  from fill_ok [OF this] obtain c' where c': "fill bs c = Ret (c', None)" "GetString c' FileChunkCtxKey = d @ ''_'' @ FormatInt (a div bs * bs)"
    "Request c' = Request c" "GetString c' CorrelationIdCtxKey = GetString c CorrelationIdCtxKey" "\<not> IsRequestFromAPeer c'"
    using assms(2) by auto
  have "Split (CHR ''_'') (GetString c' FileChunkCtxKey) = [d, FormatInt (a div bs * bs)]"
    using chunk_key_tokens [OF ParseDigest_no_sep [OF assms(3)]] c'(2) by simp
  from Open_known [OF this c'(5) assms(9), of D bs newReader] obtain t where
    t: "Open D bs newReader c' (hstore s) = (Ret (Some (next_file (hstore s)), None), t)" "cache t = cache (hstore s)"
    "fheap t (next_file (hstore s)) = \<lparr>Name = d, cur = 0, fsize = sz, statLock = False, chunkOffset = 0, freader = newReader c'\<rparr>"
    by blast
  with c' show ?thesis
    by (intro exI [of _ "next_file (hstore s)"] exI [of _ t] exI [of _ c'])
      (simp add: handle_body_def handler_run lift_outcome_apply file_headers_def)
qed


section \<open>One status per request\<close>

text \<open>The status codes that a sequence of calls sets, and the calls that send content.\<close>

fun code_of :: "wcall \<Rightarrow> int list" where
  "code_of (HAbortWithError n e) = [n]"
| "code_of (HAbortWithStatus n) = [n]"
| "code_of (HWriteHeader n) = [n]"
| "code_of (HError n) = [n]"
| "code_of _ = []"

fun is_write :: "wcall \<Rightarrow> bool" where
  "is_write (HWrite b) = True"
| "is_write _ = False"

text \<open>An answer: some headers, one status, and behind it content only if the status allows it.\<close>

definition one_status :: "wcall list \<Rightarrow> int \<Rightarrow> bool" where
  "one_status ws n \<longleftrightarrow> (\<exists>hs w bs. ws = hs @ w # map HWrite bs \<and> list_all (\<lambda>h. code_of h = [] \<and> \<not> is_write h) hs
     \<and> code_of w = [n] \<and> (bs = [] \<or> n = 200 \<or> n = 206))"

lemma one_status_headers:
  assumes "one_status ws n" "list_all (\<lambda>h. code_of h = [] \<and> \<not> is_write h) hs"
  shows "one_status (hs @ ws) n"
proof -
  from assms(1) obtain hs' w bs where "ws = hs' @ w # map HWrite bs" "list_all (\<lambda>h. code_of h = [] \<and> \<not> is_write h) hs'"
    "code_of w = [n]" "bs = [] \<or> n = 200 \<or> n = 206"
    unfolding one_status_def by blast
  with assms(2) show ?thesis
    unfolding one_status_def by (intro exI [of _ "hs @ hs'"] exI [of _ w] exI [of _ bs]) simp
qed

lemma one_status_single: "code_of w = [n] \<Longrightarrow> one_status [w] n"
  unfolding one_status_def by (intro exI [of _ "[]"] exI [of _ w]) simp

lemma CopyN_log: "\<exists>ws. wlog (snd (CopyN k D bs f n s)) = wlog s @ map HWrite ws"
proof (induction k arbitrary: n s)
  case (Suc k)
  obtain y t where r: "Read D bs f (replicate (nat (min 32768 n)) 0) (hstore s) = (y, t)" by fastforce
  show ?case
  proof (cases "0 < n \<and> (\<exists>p nr er. y = Ret (p, nr, er))")
    case False
    with r show ?thesis by (intro exI [of _ "[]"]) (cases y; auto simp: handler_run)
  next
    case True
    then obtain p nr er where y: "0 < n" "y = Ret (p, nr, er)" by blast
    note step = CopyN_step [OF y(1) r [unfolded y(2)]]
    show ?thesis
    proof (cases "0 < nr")
      case True
      let ?b = "take (nat nr) p"
      let ?s1 = "s\<lparr>hstore := t, wlog := wlog s @ [HWrite ?b], werrs := tl (werrs s)\<rparr>"
      from Suc.IH [of "n - nr" ?s1] obtain ws where ws: "wlog (snd (CopyN k D bs f (n - nr) ?s1)) = wlog ?s1 @ map HWrite ws"
        by blast
      show ?thesis
      proof (cases "next_write s = None \<and> er = None")
        case c: True
        then show ?thesis
          using step(1) [OF True, of k] ws by (intro exI [of _ "?b # ws"]) (simp add: Let_def del: CopyN.simps)
      next
        case False
        then show ?thesis
          using step(1) [OF True, of k] by (intro exI [of _ "[?b]"]) (auto simp: Let_def simp del: CopyN.simps)
      qed
    next
      case False
      then have st: "CopyN (Suc k) D bs f n s =
          (if er = None then CopyN k D bs f (n - nr) (s\<lparr>hstore := t\<rparr>) else (Ret er, s\<lparr>hstore := t\<rparr>))"
        using step(2) by simp
      show ?thesis
      proof (cases "er = None")
        case True
        with st Suc.IH [of "n - nr" "s\<lparr>hstore := t\<rparr>"] show ?thesis by (simp del: CopyN.simps)
      next
        case False
        with st show ?thesis by (intro exI [of _ "[]"]) (simp del: CopyN.simps)
      qed
    qed
  qed
qed (simp add: hang_apply)

lemma send_log:
  assumes "send fuel D bs req f n code s = (Ret r, s')" "code = 200 \<or> code = 206"
  shows "\<exists>ws. wlog s' = wlog s @ ws \<and> one_status ws code"
proof -
  let ?h = "[HSet ''Accept-Ranges'' ''bytes'', HSet ''Content-Length'' (FormatInt n)]"
  have "\<exists>bs'. wlog s' = wlog s @ ?h @ HWriteHeader code # map HWrite bs'"
  proof (cases "req_method req = ''HEAD''")
    case True
    with assms(1) show ?thesis by (intro exI [of _ "[]"]) (auto simp: send_def handler_run)
  next
    case False
    let ?s1 = "s\<lparr>wlog := wlog s @ ?h @ [HWriteHeader code]\<rparr>"
    obtain y t where c: "CopyN fuel D bs f n ?s1 = (y, t)" by fastforce
    with CopyN_log [of fuel D bs f n ?s1] obtain ws where "wlog t = wlog ?s1 @ map HWrite ws" by auto
    moreover have "s' = t"
      using assms(1) False c by (cases y) (auto simp: send_def handler_run)
    ultimately show ?thesis by (intro exI [of _ ws]) simp
  qed
  then obtain bs' where "wlog s' = wlog s @ ?h @ HWriteHeader code # map HWrite bs'" by blast
  moreover have "one_status (?h @ HWriteHeader code # map HWrite bs') code"
    unfolding one_status_def using assms(2)
    by (intro exI [of _ ?h] exI [of _ "HWriteHeader code"] exI [of _ bs']) simp
  ultimately show ?thesis by blast
qed

lemma serve_sized_log:
  assumes run: "serve_sized fuel D bs req f sz s = (Ret r, s')" and "\<And>ranges. r \<noteq> Multipart ranges"
  shows "\<exists>ws n. wlog s' = wlog s @ ws \<and> one_status ws n \<and> n \<in> {200, 206, 416, 500}"
proof -
  let ?v = "header_Get (req_header req) ''Range''"
  note serve_sized_def [simp]
  have single: ?thesis if "wlog s' = wlog s @ [w]" "code_of w = [n]" "n = 416 \<or> n = 500" for w n
    using that one_status_single [of w n] by blast
  show ?thesis
  proof (cases "sz < 0")
    case True
    with run have "wlog s' = wlog s @ [HError 500]" by (auto simp: handler_run)
    then show ?thesis by (rule single [of _ 500]) simp_all
  next
    case sz: False
    show ?thesis
    proof (cases "parseRange ?v sz")
      case (Inl e)
      show ?thesis
      proof (cases "e = NoOverlap \<and> sz = 0")
        case True
        with run sz Inl have "send fuel D bs req f sz 200 s = (Ret r, s')" by simp
        from send_log [OF this] show ?thesis by auto
      next
        case False
        let ?h = "if e = NoOverlap then [HSet ''Content-Range'' (''bytes */'' @ FormatInt sz)] else []"
        have "wlog s' = wlog s @ ?h @ [HError 416]"
          using run sz Inl False by (cases e) (auto simp: handler_run)
        moreover have "one_status (?h @ [HError 416]) 416"
          by (intro one_status_headers one_status_single) simp_all
        ultimately show ?thesis by blast
      qed
    next
      case (Inr ranges)
      show ?thesis
      proof (cases "sum_list (map r_length ranges) > sz \<or> ranges = []")
        case True
        with run sz Inr have "send fuel D bs req f sz 200 s = (Ret r, s')" by simp
        from send_log [OF this] show ?thesis by auto
      next
        case False
        obtain ra where ra: "ranges = [ra]"
          using run sz Inr False assms(2) by (auto simp: ret_apply split: list.splits)
        let ?h = "HSet ''Content-Range'' (contentRange ra sz)"
        obtain t3 where "Seek f (r_start ra) SeekStart (hstore s) = (Ret (r_start ra, None), t3)"
          by (simp add: Seek_def bind_apply modify_apply gets_apply ret_apply)
        then have "send fuel D bs req f (r_length ra) 206 (s\<lparr>hstore := t3, wlog := wlog s @ [?h]\<rparr>) = (Ret r, s')"
          using run sz Inr False ra by (simp add: handler_run)
        from send_log [OF this] obtain ws where "wlog s' = wlog s @ [?h] @ ws" "one_status ws 206" by auto
        moreover from this(2) have "one_status ([?h] @ ws) 206"
          by (rule one_status_headers) simp
        ultimately show ?thesis by blast
      qed
    qed
  qed
qed

lemma ServeContent_sized:
  assumes "ServeContent fuel D bs req f s = (x, s')"
  shows "\<exists>sz t. serve_sized fuel D bs req f sz (s\<lparr>hstore := t\<rparr>) = (x, s')"
  using assms by (auto simp: ServeContent_def with_store_def Seek_def bind_apply modify_apply gets_apply ret_apply)

lemma serve_sized_single:
  assumes "serve_sized fuel D bs req f sz s = (Ret (Multipart ranges), s')"
    and "RangeStartIndex (header_Get (req_header req) ''Range'') = (i, None)"
  shows False
  using assms GET_single_range [OF assms(2), of sz]
  by (auto simp: serve_sized_def handler_run send_def split: if_splits sum.splits list.splits prod.splits outcome.splits)

lemma fill_None:
  assumes "fill bs c = Ret (c', None)"
  shows "Request c' = Request c \<and> GetString c' CorrelationIdCtxKey = GetString c CorrelationIdCtxKey
    \<and> (req_method (Request c) = ''GET'' \<longrightarrow> (\<exists>i. RangeStartIndex (header_Get (req_header (Request c)) ''Range'') = (i, None)))"
proof -
  obtain key d where k: "Key bs c = Ret (key, d, None)"
    using assms by (auto simp: fill_def Let_def obind_eq_Ret split: option.splits)
  with fill_ok [OF k] assms show ?thesis
    by (auto simp: Key_def obind_eq_Ret split: prod.splits if_splits)
qed

lemma fill_no_range:
  assumes "req_method (Request c) = ''GET''" "header_Get (req_header (Request c)) ''Range'' = []"
  shows "\<exists>c'. fill bs c = Ret (c', Some NoRangeHeader)"
  using assms by (auto simp: fill_def Let_def Key_def RangeStartIndex_def split: prod.splits)

text \<open>The handler behind a successful \<open>fill\<close>, by the result of \<open>Open\<close>.\<close>

lemma handle_opened:
  assumes "fill bs c = Ret (c', None)" "Open D bs newReader c' (hstore s) = (Ret (fo, err), t)"
    and "handle_body fuel D bs newReader nodeName c s = (Ret (), s')"
  shows "err = Some e \<Longrightarrow> wlog s' = wlog s @ [if e = ErrNotExist then HAbortWithStatus 404 else HAbortWithError 500 e]"
    and "err = None \<Longrightarrow> \<exists>f r. ServeContent fuel D bs (Request c) f (s\<lparr>hstore := t, wlog := wlog s @ file_headers nodeName c\<rparr>) = (Ret r, s')"
proof -
  note f = fill_None [OF assms(1)]
  show "err = Some e \<Longrightarrow> wlog s' = wlog s @ [if e = ErrNotExist then HAbortWithStatus 404 else HAbortWithError 500 e]"
    using assms by (auto simp: handle_body_def handler_run lift_outcome_apply split: if_splits)
  assume None: "err = None"
  then obtain f' where fo: "fo = Some f'"
    using assms by (cases fo) (auto simp: handle_body_def handler_run lift_outcome_apply gpanic_apply)
  obtain y u where "ServeContent fuel D bs (Request c) f' (s\<lparr>hstore := t, wlog := wlog s @ file_headers nodeName c\<rparr>) = (y, u)" by fastforce
  with assms None fo f show "\<exists>f r. ServeContent fuel D bs (Request c) f (s\<lparr>hstore := t, wlog := wlog s @ file_headers nodeName c\<rparr>) = (Ret r, s')"
    by (cases y) (auto simp: handle_body_def handler_run lift_outcome_apply file_headers_def)
qed


section \<open>A request answered\<close>

text \<open>The blob of the mock reader under its digest, its size known and nothing cached yet.\<close>

definition demo_digest :: string where
  "demo_digest = ''sha256:'' @ demo_hash"

definition demo_handler :: "((string \<times> nat) list, unit) hstate" where
  "demo_handler = \<lparr>hstore = (demo_store 0)\<lparr>cache := snd (PutSize keep_all demo_digest 11 demo_cache)\<rparr>,
     wlog = [], werrs = [], hmetrics = []\<rparr>"

definition digest_truth :: "string \<Rightarrow> byte list" where
  "digest_truth key =
     (if key = getKey ''/cache'' demo_digest 0 then [104, 101, 108, 108]
      else if key = getKey ''/cache'' demo_digest 4 then [111, 32, 119, 111]
      else [114, 108, 100])"

lemma digest_blob_truth: "blob_truth ''/cache'' demo_digest 4 demo_blob digest_truth"
  unfolding blob_truth_def
proof (intro allI impI, elim conjE)
  fix a :: int assume a: "0 \<le> a" "4 dvd a" "a < int (length demo_blob)"
  then have "a \<in> {0, 4, 8}"
    by (auto simp: demo_blob_def elim!: dvdE)
  moreover have "getKey ''/cache'' demo_digest 4 \<noteq> getKey ''/cache'' demo_digest 0"
    "getKey ''/cache'' demo_digest 8 \<noteq> getKey ''/cache'' demo_digest 0" "getKey ''/cache'' demo_digest 8 \<noteq> getKey ''/cache'' demo_digest 4"
    by code_simp+
  ultimately show "digest_truth (getKey ''/cache'' demo_digest a) = take (nat 4) (drop (nat a) demo_blob)"
    by (auto simp: digest_truth_def demo_blob_def)
qed

lemma demo_handler_facts:
  "chunk_inv truth set (cache (hstore demo_handler))" "locks_are False (\<lambda>_. unlocked) (cache (hstore demo_handler))"
  "cpath (cache (hstore demo_handler)) = ''/cache''" "known_size (hstore demo_handler) demo_digest = Some 11"
  "wlog demo_handler = []" "hmetrics demo_handler = []" "werrs demo_handler = []"
proof -
  have "chunk_inv truth set (empty_cache ())"
    by (rule new_cache_inv [OF empty_cache_is_NewCache]) (simp_all add: empty_cache_def)
  then show "chunk_inv truth set (cache (hstore demo_handler))"
    by (simp add: demo_handler_def demo_cache_def PutSize_def bind_apply modify_apply ret_apply chunk_inv_def)
  show "known_size (hstore demo_handler) demo_digest = Some 11"
    by (simp add: demo_handler_def known_size_PutSize)
qed (simp_all add: demo_handler_def demo_cache_def empty_cache_def PutSize_def bind_apply modify_apply ret_apply locks_are_def)

lemma demo_request_facts:
  "req_method (Request (demo_request m u)) = m" "\<not> IsRequestFromAPeer (demo_request m u)"
  "header_Get (req_header (Request (demo_request m u))) ''Range'' = range_header 9 10"
proof -
  have "CanonicalHeaderKey ''Range'' = ''Range''" "FormatInt 9 = ''9''" "FormatInt 10 = ''10''"
    by code_simp+
  then show "header_Get (req_header (Request (demo_request m u))) ''Range'' = range_header 9 10"
    by (simp add: demo_request_def header_Get_def range_header_def)
qed (simp_all add: demo_request_def IsRequestFromAPeer_def header_Get_def peerd_header_keys)

lemma demo_digest_parsed: "ParseDigest (BlobUrl (demo_request ''GET'' demo_url)) = (demo_digest, None)"
  by code_simp

lemma mock_no_hang: "no_hang (iPread (mock_Reader data) buf off)"
  by (simp add: no_hang_def mock_Reader_def mock_PreadRemote_def ret_apply gpanic_apply Let_def)

definition demo_handled :: "unit outcome \<times> ((string \<times> nat) list, unit) hstate" where
  "demo_handled = Handle 12 keep_all 4 (\<lambda>_. mock_Reader demo_blob) ''node'' (demo_request ''GET'' demo_url) demo_handler"

text \<open>The request is indeed answered: the chunk is fetched and the copy completes.\<close>

lemma demo_chunk:
  "\<exists>c'. GetOrCreate keep_all demo_digest 8 3 (FetchFile (mock_Reader demo_blob) demo_digest 8 3) (cache (hstore demo_handler))
    = (Ret ([114, 108, 100], None), c')"
proof -
  let ?c = "cache (hstore demo_handler)"
  have "calm ?c" "rist ?c = []" "names (os ?c) k = None" "next_item ?c = 0" for k
    by (simp_all add: demo_handler_def PutSize_def bind_apply modify_apply ret_apply demo_cache_def empty_cache_def calm_def)
  moreover have "FetchFile (mock_Reader demo_blob) demo_digest 8 3 e = (Ret ([114, 108, 100], None), e)" for e :: unit
    using demo_fetch [of 8 3 demo_blob demo_digest e] by (simp add: demo_blob_def)
  ultimately show ?thesis
    using GetOrCreate_miss [of ?c _ demo_digest 8 keep_all "[]" "[]" "[(getKey (cpath ?c) demo_digest 8, 0)]"
        "FetchFile (mock_Reader demo_blob) demo_digest 8 3" "[114, 108, 100]" "env ?c" 3]
    by (auto simp: keep_all_def)
qed

lemma demo_returns: "fst demo_handled = Ret ()"
proof -
  let ?n = "\<lambda>_ :: Context. mock_Reader demo_blob :: unit Reader" and ?rq = "demo_request ''GET'' demo_url"
  obtain f t where o: "cache t = cache (hstore demo_handler)"
    "fheap t f = \<lparr>Name = demo_digest, cur = 0, fsize = 11, statLock = False, chunkOffset = 0, freader = mock_Reader demo_blob\<rparr>"
    "handle_body 12 keep_all 4 ?n ''node'' ?rq demo_handler =
       bind (ServeContent 12 keep_all 4 (Request ?rq) f) (\<lambda>_. ret ()) (demo_handler\<lparr>hstore := t, wlog := wlog demo_handler @ file_headers ''node'' ?rq\<rparr>)"
    using handle_body_opens [OF demo_request_facts(1,2) demo_digest_parsed demo_request_facts(3) _ _ _ _ demo_handler_facts(4),
        of 4 ?n 12 keep_all "''node''"] by (auto simp: in_i64_iff)
  let ?t = "upd_file f (\<lambda>x. x\<lparr>cur := 9\<rparr>) t"
  have k: "known_size ?t (Name (fheap ?t f)) = Some 11"
    using demo_handler_facts(4) o(1,2) by (simp add: known_size_def)
  obtain c' where g: "GetOrCreate keep_all demo_digest 8 3 (FetchFile (mock_Reader demo_blob) demo_digest 8 3) (cache t) = (Ret ([114, 108, 100], None), c')"
    using demo_chunk o(1) by auto
  have c: "chunkOffset (fheap ?t f) = 0 \<or> chunkOffset (fheap ?t f) = 8" "in_i64 9"
    using o(2) by (simp_all add: in_i64_iff)
  have "ReadAt keep_all 4 f [0, 0] 9 ?t = (Ret ([108, 100], 2, None), (upd_file f (\<lambda>x. x\<lparr>fsize := 11\<rparr>) ?t)\<lparr>cache := c'\<rparr>)"
    unfolding ReadAt_known [OF k _ c(2) _ c(1), of 4 keep_all "[0, 0]", simplified] using o(2) g
    by (simp add: bind_apply ret_apply Let_def with_cache_def lift_outcome_apply copy_chunk_def)
  then obtain t' where rd: "Read keep_all 4 f [0, 0] ?t = (Ret ([108, 100], 2, None), t')"
    using o(2) by (simp add: Read_def bind_apply gets_apply modify_apply ret_apply)
  have "parseRange (header_Get (req_header (Request ?rq)) ''Range'') 11 = Inr [\<lparr>r_start = 9, r_length = 2\<rparr>]"
    using parseRange_range [of 9 10 11] demo_request_facts(3) by (simp add: in_i64_iff)
  moreover have copy: "CopyN (Suc (Suc k)) keep_all 4 f 2 s = (Ret None, s\<lparr>hstore := t', wlog := wlog s @ [HWrite [108, 100]], werrs := []\<rparr>)"
    if "hstore s = ?t" "werrs s = []" for s k
  proof -
    have "replicate (nat (min 32768 2)) (0 :: byte) = [0, 0]" by (simp add: numeral_2_eq_2)
    then show ?thesis
      using CopyN_step(1) [of 2 keep_all 4 f s "[108, 100]" 2 None t' "Suc k"] rd that
      by (simp add: next_write_def CopyN_done del: CopyN.simps)
  qed
  ultimately have "fst (handle_body 12 keep_all 4 ?n ''node'' ?rq demo_handler) = Ret ()"
    using o(2,3) demo_handler_facts(5,7) copy [of _ 10] demo_request_facts(1) [of "''GET''" demo_url]
    by (simp add: ServeContent_def serve_sized_def send_def Seek_def handler_run gets_apply del: CopyN.simps)
  then show ?thesis
    using Handle_run [where fuel = 12 and D = keep_all and bs = 4 and newReader = ?n and nodeName = "''node''" and c = ?rq and s = demo_handler]
    by (metis demo_handled_def fst_conv outcome.distinct(3) surjective_pairing)
qed



definition sized_handler :: "((string \<times> nat) list, unit) hstate" where
  "sized_handler = \<lparr>hstore = sized_store 0, wlog = [], werrs = [], hmetrics = []\<rparr>"

lemma sized_store_serving: "serving demo_truth set demo_blob 4 0 (sized_store 0)"
proof -
  have "locks_are False (\<lambda>_. unlocked) (cache (sized_store 0))"
    by (simp add: sized_store_eq PutSize_def bind_apply modify_apply ret_apply demo_cache_def empty_cache_def locks_are_def)
  moreover have "known_size (sized_store 0) ''test'' = Some (int (length demo_blob))"
    using sized_store_known [of 0] by (simp add: demo_blob_def)
  ultimately show ?thesis
    by (simp add: serving_def sized_store_inv demo_blob_truth mock_reads_blob mock_no_hang)
qed

theorem copy_loop_ends_witness:
  "\<exists>x s'. CopyN (Suc (nat 11)) keep_all 4 0 11 sized_handler = (x, s') \<and> x \<noteq> Hang
    \<and> (x = Ret None \<longrightarrow> (\<exists>ws. wlog s' = map HWrite ws \<and> concat ws = demo_blob))"
proof -
  obtain x s' where r: "CopyN (Suc (nat 11)) keep_all 4 0 11 sized_handler = (x, s')" by fastforce
  have "serving demo_truth set demo_blob 4 0 (hstore sized_handler)" "cur (fheap (hstore sized_handler) 0) = 0"
    using sized_store_serving by (simp_all add: sized_handler_def sized_store_eq)
  from copy_loop_ends [OF keep_all_lawful _ _ this _ _ _ r]
  have "x \<noteq> Hang" "\<And>e. x = Ret e \<Longrightarrow> \<exists>m ws. wlog s' = map HWrite ws \<and> concat ws = take m demo_blob \<and> (e = None \<longrightarrow> m = 11)"
    by (auto simp: demo_blob_def in_i64_iff sized_handler_def)
  moreover have "take 11 demo_blob = demo_blob" by (simp add: demo_blob_def)
  ultimately have "x = Ret None \<longrightarrow> (\<exists>ws. wlog s' = map HWrite ws \<and> concat ws = demo_blob)"
    by metis
  with r \<open>x \<noteq> Hang\<close> show ?thesis by blast
qed

end
