(* ===== verification/Delivery.thy ===== *)
theory Delivery
  imports Handler
begin

text \<open>
  When nothing fails, everything is delivered. The theory shows that a cache in good condition stays in
  good condition and answers every request, and follows a range request through the store and the copy
  loop to the complete answer. Good condition: no system call fails, no lock is held, every entry the
  third-party cache still holds has an open file, and every file is empty and unwritten or complete.
\<close>

section \<open>A cache in good condition\<close>

definition filled :: "(string \<Rightarrow> byte list) \<Rightarrow> (nat \<Rightarrow> string) \<Rightarrow> os_state \<Rightarrow> (nat \<Rightarrow> item) \<Rightarrow> bool" where
  "filled truth own fs its \<longleftrightarrow> (\<forall>n < next_inode fs. inodes fs n = truth (own n)
     \<or> inodes fs n = [] \<and> (\<forall>r h. item_file (its r) = Some h \<and> finode h = n \<longrightarrow> fpos h = 0))"

definition stocked :: "(string \<Rightarrow> byte list) \<Rightarrow> ('rc \<Rightarrow> (string \<times> nat) set) \<Rightarrow> ('rc, 'x) cstate \<Rightarrow> bool" where
  "stocked truth holds s \<longleftrightarrow> (\<forall>r. item_lock (items s r) = unlocked)
     \<and> (\<exists>own. owned_inv truth own (os s) (items s) \<and> filled truth own (os s) (items s))
     \<and> (\<forall>k r. (k, r) \<in> holds (rist s) \<longrightarrow> item_key (items s r) = k \<and> r < next_item s \<and> (\<exists>h. at_rest s r h))"

definition healthy :: "(string \<Rightarrow> byte list) \<Rightarrow> ('rc \<Rightarrow> (string \<times> nat) set) \<Rightarrow> ('rc, 'x) cstate \<Rightarrow> bool" where
  "healthy truth holds s \<longleftrightarrow> stocked truth holds s \<and> \<not> clock s"

text \<open>A third-party cache that accepts a new entry, and that gives up only entries it held and then no
  longer holds, each once.\<close>

definition accepting :: "'rc deps \<Rightarrow> ('rc \<Rightarrow> (string \<times> nat) set) \<Rightarrow> bool" where
  "accepting D holds \<longleftrightarrow> (\<forall>rc k r ok out rc'. rSet D rc k r = (ok, out, rc') \<and> r \<notin> snd ` holds rc \<longrightarrow>
     ok \<and> distinct out \<and> set out \<subseteq> snd ` holds rc \<and> set out \<inter> snd ` holds rc' = {})"

lemma stocked_no_faults: "stocked truth holds s \<Longrightarrow> faults (os s) = []"
  by (auto simp: stocked_def owned_inv_def)

lemma stocked_bound: "stocked truth holds s \<Longrightarrow> r \<in> snd ` holds (rist s) \<Longrightarrow> r < next_item s"
  by (force simp: stocked_def)

lemma stocked_fields [simp]:
  "stocked truth holds (s\<lparr>clock := b\<rparr>) = stocked truth holds s" "stocked truth holds (s\<lparr>env := e\<rparr>) = stocked truth holds s"
  "stocked truth holds (s\<lparr>fdCnt := n\<rparr>) = stocked truth holds s"
  by (simp_all add: stocked_def at_rest_def)

lemma healthy_sound:
  assumes "healthy truth holds s"
  shows "chunk_inv truth holds s" "locks_are False (\<lambda>_. unlocked) s"
  using assms by (auto simp: healthy_def stocked_def chunk_inv_def locks_are_def)

section \<open>Serving an item\<close>

lemma healthy_file:
  assumes "healthy truth holds s" "at_rest s r h" "item_key (items s r) = k"
  obtains "content (os s) h = truth k" | "content (os s) h = []" "fpos h = 0" "truth k \<noteq> []"
proof -
  obtain own where own: "owned_inv truth own (os s) (items s)" "filled truth own (os s) (items s)"
    using assms(1) by (auto simp: healthy_def stocked_def)
  have "item_file (items s r) = Some h" "own (finode h) = k" "finode h < next_inode (os s)"
    using assms(2,3) own(1) by (auto simp: at_rest_def owned_inv_def)
  with own(2) have "inodes (os s) (finode h) = truth k \<or> inodes (os s) (finode h) = [] \<and> fpos h = 0"
    unfolding filled_def by blast
  then show thesis
    using that by (cases "truth k = []") (auto simp: content_def)
qed

lemma serve_ready:
  assumes "healthy truth holds s" "at_rest s r h" "item_key (items s r) = k"
    and "fetch (env s) = (Ret (truth k, None), e')" "int (length (truth k)) = count"
  shows "\<exists>s'. serve_item r count fetch s = (Ret (truth k, None), s') \<and> healthy truth holds s'"
proof -
  obtain own where own: "owned_inv truth own (os s) (items s)" "filled truth own (os s) (items s)"
    and nf: "faults (os s) = []"
    using assms(1) by (auto simp: healthy_def stocked_def owned_inv_def)
  have h: "item_file (items s r) = Some h" "own (finode h) = k" "finode h < next_inode (os s)"
    using assms(2,3) own(1) by (auto simp: at_rest_def owned_inv_def)
  from healthy_file [OF assms(1-3)] show ?thesis
  proof cases
    case 1
    with serve_item_hit [OF nf assms(2), of count fetch] assms(1,5) show ?thesis by simp
  next
    case 2
    let ?fs = "(os s)\<lparr>inodes := (inodes (os s))(finode h := truth k)\<rparr>"
    let ?s' = "upd_item r (\<lambda>i. i\<lparr>item_file := Some (h\<lparr>fpos := length (truth k)\<rparr>)\<rparr>) (s\<lparr>os := ?fs, env := e'\<rparr>)"
    have "serve_item r count fetch s = (Ret (truth k, None), ?s')"
      by (rule serve_item_fetch) (use nf assms 2 in auto)
    moreover have "owned_inv truth own ?fs (items ?s')"
      using own(1) h assms(3) by (auto simp: owned_inv_def upd_item_def sound_bytes_def)
    moreover have "filled truth own ?fs (items ?s')"
      using own(2) h by (auto simp: filled_def upd_item_def)
    moreover have "at_rest ?s' q (if q = r then h\<lparr>fpos := length (truth k)\<rparr> else g)" if "at_rest s q g" for q g
      using that assms(2) by (auto simp: at_rest_def)
    ultimately show ?thesis
      using assms(1) by (intro exI [of _ ?s']) (fastforce simp: healthy_def stocked_def)
  qed
qed

text \<open>A fetch that fails leaves the cache in good condition: the file is removed, and stays empty.\<close>

lemma fill_locked_fails:
  assumes "faults (os s) = []" "item_file (items s r) = Some h" "fopen h" "int (length (content (os s) h)) \<noteq> count"
    and "fetch (env s) = (Ret (b, Some err), e')"
  shows "fill_locked r count fetch s = (Ret (Some err), snd (item_Unlock r (s\<lparr>env := e', os := (os s)\<lparr>names := (names (os s))(fname h := None)\<rparr>\<rparr>)))"
  using assms
  by (simp add: fill_locked_def item_Stat_def os_Stat_ok item_fill_def run_fetch_def item_Name_def file_Name_def do_Remove_calm bind_apply ret_apply
      item_Unlock_def modify_apply)

lemma ensure_filled_fails:
  assumes "faults (os s) = []" "at_rest s r h" "int (length (content (os s) h)) \<noteq> count"
    and "fetch (env s) = (Ret (b, Some err), e')"
  shows "ensure_filled r count fetch s = (Ret (Some err), s\<lparr>env := e', os := (os s)\<lparr>names := (names (os s))(fname h := None)\<rparr>\<rparr>)"
proof -
  let ?s1 = "upd_item r (\<lambda>i. i\<lparr>item_lock := \<lparr>readers = 0, writer = True\<rparr>\<rparr>) s"
  have u: "snd (item_Unlock r (?s1\<lparr>env := e', os := (os s)\<lparr>names := (names (os s))(fname h := None)\<rparr>\<rparr>))
      = s\<lparr>env := e', os := (os s)\<lparr>names := (names (os s))(fname h := None)\<rparr>\<rparr>"
    using assms(2) by (cases "items s r") (simp add: item_Unlock_def modify_apply at_rest_def unlocked_def upd_item_def fun_upd_idem)
  have "fill_locked r count fetch ?s1 = (Ret (Some err), s\<lparr>env := e', os := (os s)\<lparr>names := (names (os s))(fname h := None)\<rparr>\<rparr>)"
    using fill_locked_fails [of ?s1 r h count fetch b err e'] assms u by (simp add: at_rest_def)
  then show ?thesis
    using assms
    by (simp add: ensure_filled_def bind_apply item_RLock_def item_Stat_def item_RUnlock_def item_Lock_def modify_apply ret_apply
        os_Stat_ok at_rest_def unlocked_def upd_item_def)
qed

lemma serve_survives:
  assumes "healthy truth holds s" "at_rest s r h" "item_key (items s r) = k"
    and "fetch (env s) = (Ret (b, Some err), e')" "int (length (truth k)) = count"
  shows "\<exists>x s'. serve_item r count fetch s = (Ret x, s') \<and> healthy truth holds s' \<and> (x = (truth k, None) \<or> x = ([], Some err))"
proof -
  have nf: "faults (os s) = []" using assms(1) by (auto simp: healthy_def intro: stocked_no_faults)
  from healthy_file [OF assms(1-3)] show ?thesis
  proof cases
    case 1
    with serve_item_hit [OF nf assms(2), of count fetch] assms(1,5) show ?thesis by auto
  next
    case 2
    let ?s' = "s\<lparr>env := e', os := (os s)\<lparr>names := (names (os s))(fname h := None)\<rparr>\<rparr>"
    have "int (length (content (os s) h)) \<noteq> count" using 2 assms(5) by (metis length_0_conv of_nat_eq_iff)
    from ensure_filled_fails [where fetch = fetch, OF nf assms(2) this assms(4)] have "serve_item r count fetch s = (Ret ([], Some err), ?s')"
      by (simp add: serve_item_def bind_apply ret_apply)
    moreover have "healthy truth holds ?s'"
    proof -
      obtain own where "owned_inv truth own (os s) (items s)" "filled truth own (os s) (items s)"
        using assms(1) by (auto simp: healthy_def stocked_def)
      then have "owned_inv truth own (os ?s') (items ?s')" "filled truth own (os ?s') (items ?s')"
        by (auto simp: owned_inv_def filled_def)
      with assms(1) show ?thesis by (auto simp: healthy_def stocked_def at_rest_def)
    qed
    ultimately show ?thesis by auto
  qed
qed

section \<open>Finding or making an item\<close>

lemma stocked_Get:
  assumes "kv_lawful D holds" "stocked truth holds s" "rGet D (rist s) key = (v, rc)"
  shows "stocked truth holds (s\<lparr>rist := rc\<rparr>)" "v = Some r \<Longrightarrow> item_key (items s r) = key \<and> (\<exists>h. at_rest s r h)"
proof -
  have "holds rc \<subseteq> holds (rist s)" "v = Some r \<Longrightarrow> (key, r) \<in> holds (rist s)" for r
    using assms(1,3) by (auto simp: kv_lawful_def)
  with assms(2) show "stocked truth holds (s\<lparr>rist := rc\<rparr>)"
    "v = Some r \<Longrightarrow> item_key (items s r) = key \<and> (\<exists>h. at_rest s r h)"
    by (auto simp: stocked_def at_rest_def)
qed

lemma filled_open:
  assumes "owned_inv truth own fs its" "filled truth own fs its" "os_OpenFile fs path = (Inr h, fs')"
    and "item_key it = path" "item_file it = Some h"
  shows "\<exists>own'. owned_inv truth own' fs' (its(i := it)) \<and> filled truth own' fs' (its(i := it))"
proof (cases "names fs path")
  case (Some n)
  with assms(1,3) have "h = \<lparr>fname = path, finode = n, fpos = 0, fopen = True\<rparr>" "fs' = fs" "own n = path" "n < next_inode fs"
    by (auto simp: os_OpenFile_def owned_inv_def)
  with assms show ?thesis
    by (intro exI [of _ own]) (auto simp: owned_inv_def filled_def)
next
  case None
  let ?n = "next_inode fs"
  have h: "h = \<lparr>fname = path, finode = ?n, fpos = 0, fopen = True\<rparr>"
    "fs' = fs\<lparr>names := (names fs)(path \<mapsto> ?n), inodes := (inodes fs)(?n := []), next_inode := Suc ?n\<rparr>"
    using None assms(1,3) by (auto simp: os_OpenFile_def owned_inv_def Let_def)
  have old: "finode g < ?n" if "item_file (its r) = Some g" for r g
    using assms(1) that by (auto simp: owned_inv_def)
  have "owned_inv truth (own(?n := path)) fs' (its(i := it))"
    using h assms(1,4,5) by (fastforce simp: owned_inv_def less_Suc_eq sound_bytes_def)
  moreover have "filled truth (own(?n := path)) fs' (its(i := it))"
    unfolding filled_def
  proof (intro allI impI)
    fix n assume "n < next_inode fs'"
    then consider "n = ?n" | "n < ?n" by (auto simp: h(2) less_Suc_eq)
    then show "inodes fs' n = truth ((own(?n := path)) n) \<or>
        inodes fs' n = [] \<and> (\<forall>r g. item_file ((its(i := it)) r) = Some g \<and> finode g = n \<longrightarrow> fpos g = 0)"
    proof cases
      case 1
      then have "fpos g = 0" if "item_file ((its(i := it)) r) = Some g" "finode g = n" for r g
        using that old [of r g] assms(5) h(1) by (auto split: if_splits)
      moreover have "inodes fs' n = []" using 1 h(2) by simp
      ultimately show ?thesis by blast
    next
      case 2
      with assms(2,5) h show ?thesis by (auto simp: filled_def)
    qed
  qed
  ultimately show ?thesis by blast
qed

lemma newItem_ready:
  assumes "stocked truth holds s"
  shows "\<exists>s' h. newItem key s = (Ret (Inr (next_item s)), s') \<and> stocked truth holds s' \<and> at_rest s' (next_item s) h
    \<and> item_key (items s' (next_item s)) = key \<and> rist s' = rist s \<and> clock s' = clock s \<and> next_item s < next_item s'
    \<and> (\<forall>r. r < next_item s \<longrightarrow> items s' r = items s r)"
proof -
  have nf: "faults (os s) = []" by (rule stocked_no_faults [OF assms])
  obtain y fs' where o: "os_OpenFile (os s) key = (y, fs')" by fastforce
  with nf obtain h where y: "y = Inr h" "fopen h"
    by (auto simp: os_OpenFile_def Let_def split: option.splits)
  let ?it = "\<lparr>item_key = key, item_file = Some h, item_lock = unlocked\<rparr>"
  let ?s' = "s\<lparr>os := fs', fdCnt := i32 (fdCnt s + 1), next_item := Suc (next_item s), items := (items s)(next_item s := ?it)\<rparr>"
  have r: "newItem key s = (Ret (Inr (next_item s)), ?s')"
    using nf o y by (simp add: newItem_def os_MkdirAll_def Let_def)
  from assms obtain own where own: "owned_inv truth own (os s) (items s)" "filled truth own (os s) (items s)"
    by (auto simp: stocked_def)
  from filled_open [OF own o [unfolded y(1)], of ?it "next_item s"] obtain own' where
    "owned_inv truth own' fs' (items ?s')" "filled truth own' fs' (items ?s')" by auto
  with assms have "stocked truth holds ?s'"
    unfolding stocked_def at_rest_def by (auto simp: less_Suc_eq)
  moreover have "at_rest ?s' (next_item s) h" using y(2) by (simp add: at_rest_def)
  ultimately show ?thesis
    using r by (intro exI [of _ ?s'] exI [of _ h]) simp
qed

text \<open>Dropping an item that the third-party cache no longer holds.\<close>

lemma drop_ready:
  assumes "stocked truth holds s" "at_rest s i h" "i \<notin> snd ` holds (rist s)"
  shows "\<exists>s'. item_drop i s = (Ret (), s') \<and> stocked truth holds s' \<and> rist s' = rist s \<and> clock s' = clock s
    \<and> next_item s' = next_item s \<and> (\<forall>r. r \<noteq> i \<longrightarrow> items s' r = items s r)"
proof -
  have nf: "faults (os s) = []" by (rule stocked_no_faults [OF assms(1)])
  let ?s' = "upd_item i (\<lambda>x. x\<lparr>item_file := None\<rparr>)
    (s\<lparr>fdCnt := i32 (fdCnt s - 1), os := (os s)\<lparr>names := (names (os s))(fname h := None)\<rparr>\<rparr>)"
  have "item_drop i s = (Ret (), ?s')"
    using assms(2) nf
    by (cases "items s i") (simp add: item_drop_def item_drop_body_def item_Lock_def item_Unlock_def item_Name_def file_Name_def with_defer_def
        bind_apply modify_apply os_Close_def do_Remove_calm at_rest_def unlocked_def upd_item_def)
  moreover have "stocked truth holds ?s'"
  proof -
    from assms(1) obtain own where own: "owned_inv truth own (os s) (items s)" "filled truth own (os s) (items s)"
      by (auto simp: stocked_def)
    have "owned_inv truth own (os ?s') (items ?s')" "filled truth own (os ?s') (items ?s')"
      using own by (auto simp: owned_inv_def filled_def upd_item_def)
    moreover have "at_rest ?s' r g" if "at_rest s r g" "(k, r) \<in> holds (rist s)" for k r g
      using that assms(3) by (auto simp: at_rest_def image_iff)
    ultimately show ?thesis
      using assms(1) unfolding stocked_def by (auto simp del: upd_item_simps(2)) blast+
  qed
  ultimately show ?thesis
    by (intro exI [of _ ?s']) simp
qed

lemma OnExit_ready:
  assumes "stocked truth holds s" "distinct out" "\<forall>i \<in> set out. \<exists>h. at_rest s i h" "set out \<inter> snd ` holds (rist s) = {}"
  shows "\<exists>s'. OnExit out s = (Ret (), s') \<and> stocked truth holds s' \<and> rist s' = rist s \<and> clock s' = clock s
    \<and> (\<forall>r. r \<notin> set out \<longrightarrow> items s' r = items s r)"
  using assms
proof (induction out arbitrary: s)
  case (Cons i out)
  then obtain h where "at_rest s i h" "i \<notin> snd ` holds (rist s)" by auto
  from drop_ready [OF Cons.prems(1) this] obtain s1 where s1: "item_drop i s = (Ret (), s1)" "stocked truth holds s1"
    "rist s1 = rist s" "clock s1 = clock s" "\<forall>r. r \<noteq> i \<longrightarrow> items s1 r = items s r" by blast
  have "\<forall>j \<in> set out. \<exists>h. at_rest s1 j h"
    using Cons.prems(2,3) s1(5) by (auto simp: at_rest_def)
  with Cons.IH [OF s1(2)] Cons.prems(2,4) s1(3) obtain s2 where "OnExit out s1 = (Ret (), s2)" "stocked truth holds s2"
    "rist s2 = rist s1" "clock s2 = clock s1" "\<forall>r. r \<notin> set out \<longrightarrow> items s2 r = items s1 r" by auto
  with s1 show ?case by (auto simp: bind_apply)
qed (simp add: ret_apply)

lemma cache_Set_ready:
  assumes "kv_lawful D holds" "accepting D holds" "stocked truth holds s" "at_rest s r h" "item_key (items s r) = key"
    and "r < next_item s" "r \<notin> snd ` holds (rist s)"
  shows "\<exists>s' h. cache_Set D key r s = (Ret True, s') \<and> stocked truth holds s' \<and> clock s' = clock s
    \<and> at_rest s' r h \<and> item_key (items s' r) = key"
proof -
  obtain ok out rc where g: "rSet D (rist s) key r = (ok, out, rc)" using prod_cases3 by blast
  have a: "ok" "distinct out" "set out \<subseteq> snd ` holds (rist s)" "set out \<inter> snd ` holds rc = {}"
    using assms(2,7) g unfolding accepting_def by blast+
  have l: "holds rc \<subseteq> insert (key, r) (holds (rist s))"
    using assms(1) g unfolding kv_lawful_def by blast
  let ?s1 = "s\<lparr>rist := rc\<rparr>"
  have rest: "\<exists>h. at_rest s i h" if "i \<in> snd ` holds (rist s)" for i
    using assms(3) that by (auto simp: stocked_def)
  have "stocked truth holds ?s1"
    using assms(3-6) l by (auto simp: stocked_def at_rest_def)
  moreover have "\<exists>h. at_rest ?s1 i h" if "i \<in> set out" for i
  proof -
    have "i \<in> snd ` holds (rist s)" using a(3) that by blast
    from rest [OF this] show ?thesis by (simp add: at_rest_def)
  qed
  ultimately obtain s' where "OnExit out ?s1 = (Ret (), s')" "stocked truth holds s'" "clock s' = clock s"
    "\<forall>q. q \<notin> set out \<longrightarrow> items s' q = items s q"
    using OnExit_ready [of truth holds ?s1 out] a(2,4) by fastforce
  moreover have "r \<notin> set out" using a(3) assms(7) by blast
  ultimately show ?thesis
    using g a(1) assms(4,5) by (intro exI [of _ s'] exI [of _ h]) (simp add: cache_Set_def bind_apply ret_apply at_rest_def)
qed

lemma lookup_ready:
  assumes "kv_lawful D holds" "accepting D holds" "healthy truth holds s"
  shows "\<exists>r s' h. lookup_or_new D key s = (Ret (Inr r), s') \<and> healthy truth holds s' \<and> at_rest s' r h \<and> item_key (items s' r) = key"
proof -
  have st: "stocked truth holds s" "\<not> clock s" using assms(3) by (simp_all add: healthy_def)
  obtain v1 rc1 where g1: "rGet D (rist s) key = (v1, rc1)" by fastforce
  note 1 = stocked_Get [OF assms(1) st(1) g1]
  show ?thesis
  proof (cases v1)
    case (Some r)
    then obtain h where "at_rest s r h" "item_key (items s r) = key" using 1(2) by blast
    with Some 1(1) st(2) lookup_or_new_hit [of D s key r rc1] g1 show ?thesis
      by (intro exI [of _ r] exI [of _ "s\<lparr>rist := rc1\<rparr>"] exI [of _ h]) (simp add: healthy_def at_rest_def)
  next
    case None
    let ?s2 = "s\<lparr>rist := rc1, clock := True\<rparr>"
    obtain v2 rc2 where g2: "rGet D rc1 key = (v2, rc2)" by fastforce
    have s2: "stocked truth holds ?s2" using 1(1) by simp
    have "rGet D (rist ?s2) key = (v2, rc2)" using g2 by simp
    note 2 = stocked_Get [OF assms(1) s2 this]
    let ?s3 = "?s2\<lparr>rist := rc2\<rparr>"
    show ?thesis
    proof (cases v2)
      case (Some r)
      then obtain h where "at_rest ?s2 r h" "item_key (items ?s2 r) = key" using 2(2) by blast
      moreover have "lookup_or_new D key s = (Ret (Inr r), ?s3\<lparr>clock := False\<rparr>)"
        using None Some g1 g2 st(2) by (simp add: lookup_or_new_def bind_apply cache_Get_def ret_apply c_Lock_def c_Unlock_def modify_apply)
      moreover have "stocked truth holds (?s3\<lparr>clock := False\<rparr>)"
        using 2(1) by (simp only: stocked_fields)
      ultimately show ?thesis
        by (intro exI [of _ r] exI [of _ "?s3\<lparr>clock := False\<rparr>"] exI [of _ h]) (simp add: healthy_def at_rest_def)
    next
      case v2: None
      let ?r = "next_item s"
      have "rist ?s3 = rc2" "next_item ?s3 = ?r" "clock ?s3" by simp_all
      with newItem_ready [OF 2(1), of key] obtain s4 h where s4: "newItem key ?s3 = (Ret (Inr ?r), s4)" "stocked truth holds s4"
        "at_rest s4 ?r h" "item_key (items s4 ?r) = key" "rist s4 = rc2" "clock s4" "?r < next_item s4" by metis
      have "?r \<notin> snd ` holds (rist s4)"
        using stocked_bound [OF 2(1), of ?r] s4(5) by auto
      from cache_Set_ready [OF assms(1,2) s4(2,3,4,7) this] s4(6) obtain s5 h5 where s5: "cache_Set D key ?r s4 = (Ret True, s5)"
        "stocked truth holds s5" "at_rest s5 ?r h5" "item_key (items s5 ?r) = key" by blast
      have "lookup_or_new D key s = (Ret (Inr ?r), s5\<lparr>clock := False\<rparr>)"
        using None v2 g1 g2 st(2) s4(1) s5(1) by (simp add: lookup_or_new_def bind_apply cache_Get_def ret_apply c_Lock_def c_Unlock_def modify_apply)
      with s5 show ?thesis
        by (intro exI [of _ ?r] exI [of _ "s5\<lparr>clock := False\<rparr>"] exI [of _ h5]) (simp add: healthy_def at_rest_def)
    qed
  qed
qed

text \<open>A cache in good condition answers: whatever it held, evicts or has to fetch.\<close>

lemma GetOrCreate_ready:
  assumes "kv_lawful D holds" "accepting D holds" "healthy truth holds s" "key = getKey (cpath s) name off"
    and "\<forall>e. \<exists>e'. fetch e = (Ret (truth key, None), e')" "int (length (truth key)) = count"
  shows "\<exists>s'. GetOrCreate D name off count fetch s = (Ret (truth key, None), s') \<and> healthy truth holds s'"
proof -
  from lookup_ready [OF assms(1-3), of key] obtain r s1 h where s1: "lookup_or_new D key s = (Ret (Inr r), s1)"
    "healthy truth holds s1" "at_rest s1 r h" "item_key (items s1 r) = key" by blast
  obtain e' where "fetch (env s1) = (Ret (truth key, None), e')" using assms(5) by blast
  from serve_ready [where truth = truth and k = key and fetch = fetch, OF s1(2-4) this assms(6)] s1(1) assms(4) show ?thesis
    by (simp add: GetOrCreate_def bind_apply gets_apply)
qed

text \<open>It also answers, in good condition, when fetches fail.\<close>

lemma GetOrCreate_survives:
  assumes "kv_lawful D holds" "accepting D holds" "healthy truth holds s" "key = getKey (cpath s) name off"
    and "\<forall>e. \<exists>b er e'. fetch e = (Ret (b, er), e') \<and> (er = None \<longrightarrow> b = truth key)" "int (length (truth key)) = count"
  shows "\<exists>x s'. GetOrCreate D name off count fetch s = (Ret x, s') \<and> healthy truth holds s' \<and> (snd x = None \<longrightarrow> x = (truth key, None))"
proof -
  from lookup_ready [OF assms(1-3), of key] obtain r s1 h where s1: "lookup_or_new D key s = (Ret (Inr r), s1)"
    "healthy truth holds s1" "at_rest s1 r h" "item_key (items s1 r) = key" by blast
  obtain b er e' where f: "fetch (env s1) = (Ret (b, er), e')" "er = None \<longrightarrow> b = truth key" using assms(5) by blast
  have "\<exists>x s'. serve_item r count fetch s1 = (Ret x, s') \<and> healthy truth holds s' \<and> (snd x = None \<longrightarrow> x = (truth key, None))"
  proof (cases er)
    case None
    with serve_ready [where truth = truth and k = key and fetch = fetch, OF s1(2-4) _ assms(6), of e'] f show ?thesis by auto
  next
    case (Some err)
    with serve_survives [where truth = truth and k = key and fetch = fetch, OF s1(2-4) _ assms(6), of b err e'] f show ?thesis by auto
  qed
  with s1(1) assms(4) show ?thesis by (auto simp: GetOrCreate_def bind_apply gets_apply)
qed

section \<open>Reading\<close>

text \<open>A reader that delivers every range inside the blob.\<close>

definition delivers :: "'x Reader \<Rightarrow> byte list \<Rightarrow> bool" where
  "delivers R blob \<longleftrightarrow> (\<forall>buf off e. 0 \<le> off \<and> off + int (length buf) \<le> int (length blob) \<longrightarrow>
     (\<exists>n err e'. iPread R buf off e = (Ret (take (length buf) (drop (nat off) blob), n, err), e') \<and> (err = None \<or> err = Some EOF)))"

lemma delivers_reads: "delivers R blob \<Longrightarrow> reads_blob R blob"
  unfolding reads_blob_def
proof (intro allI impI, elim conjE)
  fix buf off e d n err e'
  assume "delivers R blob" "iPread R buf off e = (Ret (d, n, err), e')" "0 \<le> off" "off + int (length buf) \<le> int (length blob)"
  then show "d = take (length buf) (drop (nat off) blob)"
    unfolding delivers_def by (metis Pair_inject outcome.inject)
qed

definition delivering :: "(string \<Rightarrow> byte list) \<Rightarrow> ('rc \<Rightarrow> (string \<times> nat) set) \<Rightarrow> byte list \<Rightarrow> int \<Rightarrow> nat \<Rightarrow> ('rc, 'x) store \<Rightarrow> bool" where
  "delivering truth holds blob bs f s \<longleftrightarrow> serving truth holds blob bs f s \<and> healthy truth holds (cache s) \<and> delivers (freader (fheap s f)) blob"

lemma FetchFile_delivers:
  assumes "delivers R blob" "0 \<le> a" "0 \<le> count" "a + count \<le> int (length blob)"
  shows "\<exists>e'. FetchFile R name a count e = (Ret (take (nat count) (drop (nat a) blob), None), e')"
proof -
  obtain n err e' where "iPread R (replicate (nat count) 0) a e = (Ret (take (nat count) (drop (nat a) blob), n, err), e')" "err = None \<or> err = Some EOF"
  proof -
    have "int (length (replicate (nat count) (0 :: byte))) = count" using assms(3) by simp
    with assms(1) [unfolded delivers_def, rule_format, of a "replicate (nat count) 0" e] assms(2,4) that show thesis by auto
  qed
  with assms(3) show ?thesis
    by (auto simp: FetchFile_def bind_apply ret_apply)
qed

text \<open>A reader that may fail, but says so.\<close>

definition survives :: "'x Reader \<Rightarrow> byte list \<Rightarrow> bool" where
  "survives R blob \<longleftrightarrow> (\<forall>buf off e. 0 \<le> off \<and> off + int (length buf) \<le> int (length blob) \<longrightarrow>
     (\<exists>d n err e'. iPread R buf off e = (Ret (d, n, err), e') \<and> (err = None \<or> err = Some EOF \<longrightarrow> d = take (length buf) (drop (nat off) blob))))"

lemma delivers_survives: "delivers R blob \<Longrightarrow> survives R blob"
  unfolding delivers_def survives_def by metis

lemma FetchFile_survives:
  assumes "survives R blob" "0 \<le> a" "0 \<le> count" "a + count \<le> int (length blob)"
  shows "\<exists>b er e'. FetchFile R name a count e = (Ret (b, er), e') \<and> (er = None \<longrightarrow> b = take (nat count) (drop (nat a) blob))"
proof -
  have "int (length (replicate (nat count) (0 :: byte))) = count" using assms(3) by simp
  with assms(1) [unfolded survives_def, rule_format, of a "replicate (nat count) 0" e] assms(2-4) show ?thesis
    by (auto simp: FetchFile_def bind_apply ret_apply)
qed

lemma ReadAt_delivers:
  assumes "delivering truth holds blob bs f s" "kv_lawful D holds" "accepting D holds" "in_i64 (int (length blob))" "0 < bs"
    and "0 \<le> offset" "offset + int (length buff) \<le> int (length blob)" "buff \<noteq> []"
  shows "\<exists>p n s'. ReadAt D bs f buff offset s = (Ret (p, n, None), s') \<and> healthy truth holds (cache s')
    \<and> freader (fheap s' f) = freader (fheap s f)"
proof -
  let ?x = "fheap s f" and ?a = "offset div bs * bs" and ?s1 = "upd_file f (\<lambda>x. x\<lparr>fsize := int (length blob)\<rparr>) s"
  let ?key = "getKey (cpath (cache s)) (Name ?x) ?a" and ?count = "min bs (int (length blob) - ?a)"
  let ?fetch = "FetchFile (freader ?x) (Name ?x) ?a ?count"
  note sv = assms(1) [unfolded delivering_def serving_def]
  have lt: "offset < int (length blob)" using assms(7,8) by (cases buff) auto
  note b = chunk_bounds [OF assms(6,5) refl]
  have off: "in_i64 offset" and known: "known_size s (Name ?x) = Some (int (length blob))" and ch: "chunkOffset ?x = 0 \<or> chunkOffset ?x = ?a"
    using assms(4,6) lt sv by (auto simp: in_i64_iff)
  have i: "i64 (int (length blob) - ?a) = int (length blob) - ?a" "i64 (offset - ?a) = offset - ?a"
    "i64 (offset + int (length buff)) = offset + int (length buff)"
    using b(1,2) assms(4,6,7) lt off by (auto intro!: i64_id simp: in_i64_iff)
  have want: "truth ?key = take (nat ?count) (drop (nat ?a) blob)" "int (length (truth ?key)) = ?count"
    using sv lt b assms(5) by (auto simp: blob_truth_def min_def)
  have "\<forall>e. \<exists>e'. ?fetch e = (Ret (truth ?key, None), e')"
    using FetchFile_delivers [of "freader ?x" blob ?a ?count "Name ?x"] sv b lt assms(5) by (auto simp: want(1))
  from GetOrCreate_ready [where truth = truth and key = ?key and fetch = ?fetch and s = "cache s", OF assms(2,3) _ refl this want(2)] sv obtain c' where
    g: "GetOrCreate D (Name ?x) ?a ?count ?fetch (cache s) = (Ret (truth ?key, None), c')" "healthy truth holds c'" by auto
  have "0 \<le> offset - ?a" "offset - ?a \<le> int (length (truth ?key))"
    using b lt by (auto simp: want(2))
  from copy_chunk_run [OF this, of buff] g assms(7) i show ?thesis
    unfolding ReadAt_known [OF known assms(6) off assms(5) ch refl]
    by (auto simp: Let_def bind_apply with_cache_def lift_outcome_apply ret_apply)
qed

lemma Read_delivers:
  assumes "delivering truth holds blob bs f s" "kv_lawful D holds" "accepting D holds" "in_i64 (int (length blob))" "0 < bs"
    and "cur (fheap s f) = off" "0 \<le> off" "off + int (length buff) \<le> int (length blob)" "buff \<noteq> []"
  shows "\<exists>p n s'. Read D bs f buff s = (Ret (p, n, None), s') \<and> delivering truth holds blob bs f s'"
proof -
  from ReadAt_delivers [OF assms(1-5,7-9)] obtain p n s1 where
    r: "ReadAt D bs f buff off s = (Ret (p, n, None), s1)" "healthy truth holds (cache s1)" "freader (fheap s1 f) = freader (fheap s f)" by blast
  let ?s' = "upd_file f (\<lambda>x. x\<lparr>cur := i64 (cur x + n)\<rparr>) s1"
  have run: "Read D bs f buff s = (Ret (p, n, None), ?s')"
    using r(1) assms(6) by (simp add: Read_def bind_apply gets_apply modify_apply ret_apply)
  have sv: "serving truth holds blob bs f s" "delivers (freader (fheap s f)) blob"
    using assms(1) by (simp_all add: delivering_def)
  from Read_serving(2) [OF sv(1) assms(2,4-7,9,8) run refl] have "serving truth holds blob bs f ?s'" by blast
  with r(2,3) sv(2) have "delivering truth holds blob bs f ?s'" by (simp add: delivering_def)
  with run show ?thesis by blast
qed

section \<open>The copy loop and the handler\<close>

lemma CopyN_delivers:
  assumes "kv_lawful D holds" "accepting D holds" "in_i64 (int (length blob))" "0 < bs"
  shows "delivering truth holds blob bs f (hstore s) \<Longrightarrow> cur (fheap (hstore s) f) = off \<Longrightarrow> werrs s = [] \<Longrightarrow> 0 \<le> off \<Longrightarrow> 0 \<le> n \<Longrightarrow>
    off + n \<le> int (length blob) \<Longrightarrow> nat n < k \<Longrightarrow> \<exists>s'. CopyN k D bs f n s = (Ret None, s') \<and> healthy truth holds (cache (hstore s'))"
proof (induction k arbitrary: s off n)
  case (Suc k)
  show ?case
  proof (cases "n = 0")
    case True
    then show ?thesis using Suc.prems(1) by (simp add: ret_apply delivering_def)
  next
    case False
    let ?buff = "replicate (nat (min 32768 n)) (0 :: byte)"
    have b: "?buff \<noteq> []" "off + int (length ?buff) \<le> int (length blob)" "0 < n" "int (length ?buff) \<le> n"
      using False Suc.prems(5,6) by auto
    from Read_delivers [OF Suc.prems(1) assms Suc.prems(2,4) b(2,1)] obtain p nr t where
      r: "Read D bs f ?buff (hstore s) = (Ret (p, nr, None), t)" and d: "delivering truth holds blob bs f t" by blast
    have "serving truth holds blob bs f (hstore s)" using Suc.prems(1) by (simp add: delivering_def)
    from Read_serving(2) [OF this assms(1,3,4) Suc.prems(2,4) b(1,2) r refl] b(4)
    have nr: "0 < nr" "nr \<le> n" "cur (fheap t f) = off + nr" by auto
    let ?s1 = "s\<lparr>hstore := t, wlog := wlog s @ [HWrite (take (nat nr) p)], werrs := tl (werrs s)\<rparr>"
    have "CopyN (Suc k) D bs f n s = CopyN k D bs f (n - nr) ?s1"
      using CopyN_step(1) [OF b(3) r nr(1), of k] Suc.prems(3) by (simp add: next_write_def Let_def del: CopyN.simps)
    moreover have "\<exists>s'. CopyN k D bs f (n - nr) ?s1 = (Ret None, s') \<and> healthy truth holds (cache (hstore s'))"
      using Suc.IH [of ?s1 "off + nr" "n - nr"] d nr Suc.prems(3-7) by simp
    ultimately show ?thesis by simp
  qed
qed simp

lemma ServeContent_delivers:
  assumes "kv_lawful D holds" "accepting D holds" "in_i64 (int (length blob))" "0 < bs" "delivering truth holds blob bs f (hstore s)"
    and "fsize (fheap (hstore s) f) = int (length blob)" "length blob < fuel" "werrs s = []"
    and "req_method req = ''GET''" "header_Get (req_header req) ''Range'' = range_header a b" "0 \<le> a" "a \<le> b" "in_i64 b"
    and "a < int (length blob)" "n = min b (int (length blob) - 1) - a + 1"
  shows "\<exists>s' ws. ServeContent fuel D bs req f s = (Ret (Served None), s') \<and> concat ws = take (nat n) (drop (nat a) blob)
    \<and> wlog s' = wlog s @ range_headers a n (int (length blob)) @ map HWrite ws \<and> healthy truth holds (cache (hstore s'))"
proof -
  let ?s1 = "s\<lparr>hstore := upd_file f (\<lambda>x. x\<lparr>cur := a\<rparr>) (hstore s), wlog := wlog s @ range_headers a n (int (length blob))\<rparr>"
  have n: "0 < n" "n \<le> int (length blob)" "a + n \<le> int (length blob)"
    using assms(11,12,14,15) by auto
  have sv: "serving truth holds blob bs f (hstore s)" using assms(5) by (simp add: delivering_def)
  have "delivering truth holds blob bs f (hstore ?s1)" "cur (fheap (hstore ?s1) f) = a" "werrs ?s1 = []" "nat n < fuel"
    using assms(5,7,8) n by (simp_all add: delivering_def serving_upd)
  from CopyN_delivers [OF assms(1-4) this(1-3) assms(11) _ n(3) this(4)] n(1) obtain t where
    c: "CopyN fuel D bs f n ?s1 = (Ret None, t)" "healthy truth holds (cache (hstore t))" by auto
  have "parseRange (header_Get (req_header req) ''Range'') (int (length blob)) = Inr [\<lparr>r_start = a, r_length = n\<rparr>]"
    using parseRange_range [OF assms(11,12,13), of "int (length blob)"] assms(10,14,15) by simp
  then have r: "ServeContent fuel D bs req f s = (Ret (Served None), t)"
    using c n assms(6,9)
    by (auto simp: ServeContent_def serve_sized_def send_def Seek_def handler_run gets_apply contentRange_def range_headers_def)
  from ServeContent_range [OF assms(1,3,4) sv assms(6,7,9-15) r] r c(2) show ?thesis by auto
qed

section \<open>A fresh cache and a reader that never fails\<close>

lemma empty_healthy: "healthy truth set (empty_cache e)"
proof -
  have "owned_inv truth own (os (empty_cache e)) (items (empty_cache e))" "filled truth own (os (empty_cache e)) (items (empty_cache e))" for own
    by (simp_all add: owned_inv_def filled_def empty_cache_def)
  then show ?thesis by (simp add: healthy_def stocked_def) (simp add: empty_cache_def)
qed

lemma healthy_fields: "healthy truth holds (c\<lparr>metadataCache := mc, env := e\<rparr>) = healthy truth holds c"
  by (simp add: healthy_def stocked_def at_rest_def)

lemma keep_all_accepting: "accepting keep_all set"
  by (simp add: accepting_def keep_all_def)

lemma mock_delivers: "delivers (mock_Reader data) data"
  unfolding delivers_def
proof (intro allI impI, elim conjE)
  fix buf :: "byte list" and off and e :: 'a
  assume o: "0 \<le> off" "off + int (length buf) \<le> int (length data)"
  show "\<exists>n err e'. iPread (mock_Reader data) buf off e = (Ret (take (length buf) (drop (nat off) data), n, err), e') \<and> (err = None \<or> err = Some EOF)"
  proof (cases "int (length data) \<le> off")
    case True
    with o(2) have "buf = []" by (simp add: order_antisym flip: length_0_conv)
    with True show ?thesis by (simp add: mock_Reader_def mock_PreadRemote_def ret_apply)
  next
    case False
    have "min (length buf) (length data - nat off) = length buf" using o by linarith
    with False o(1) show ?thesis by (simp add: mock_Reader_def mock_PreadRemote_def ret_apply Let_def)
  qed
qed

end
