(* ===== verification/FullStack.thy ===== *)
theory FullStack
  imports Delivery
begin

text \<open>
  The whole way of a request: the handler, the store with its cache, and the reader with its router. A
  client's range request is answered in full from any cache in good condition, whether the blob's size is
  known or not, whatever the lookup of peers delivers, if the origin answers and nobody lies.
\<close>

section \<open>Opening a file of known or unknown size\<close>

lemma Open_sized:
  assumes "Split (CHR ''_'') (GetString c FileChunkCtxKey) = [d, w]" "\<not> IsRequestFromAPeer c"
    and "known_size s d \<in> {None, Some sz}" "\<forall>e. \<exists>e'. iFstat (newReader c) e = (Ret (sz, None), e')"
  shows "\<exists>t mc e'. Open D bs newReader c s = (Ret (Some (next_file s), None), t) \<and> known_size t d = Some sz
    \<and> cache t = (cache s)\<lparr>metadataCache := mc, env := e'\<rparr>
    \<and> fheap t (next_file s) = \<lparr>Name = d, cur = 0, fsize = sz, statLock = False, chunkOffset = 0, freader = newReader c\<rparr>
    \<and> prefetches t = (if prefetchable s then prefetches s @ [(next_file s, 0, sz)] else prefetches s) \<and> prefetchChan t = prefetchChan s \<and> blobsChan t = blobsChan s"
proof (cases "known_size s d")
  case (Some x)
  with assms(3) have k: "known_size s d = Some sz" by simp
  let ?f = "next_file s"
  let ?s1 = "s\<lparr>next_file := Suc ?f, fheap := (fheap s)(?f := \<lparr>Name = d, cur = 0, fsize = 0, statLock = False,
    chunkOffset = 0, freader = newReader c\<rparr>)\<rparr>"
  have "Fstat D ?f ?s1 = (Ret (sz, None), upd_file ?f (\<lambda>x. x\<lparr>fsize := sz\<rparr>) ?s1)"
    by (rule Fstat_hit) (use k in \<open>simp add: known_size_def\<close>)
  with assms(1,2) k show ?thesis
    by (intro exI [of _ "snd (Open D bs newReader c s)"] exI [of _ "metadataCache (cache s)"] exI [of _ "env (cache s)"])
      (simp add: Open_def Let_def bind_apply ret_apply gets_apply modify_apply prefetch_def known_size_def)
next
  case None
  let ?f = "next_file s"
  let ?s1 = "s\<lparr>next_file := Suc ?f, fheap := (fheap s)(?f := \<lparr>Name = d, cur = 0, fsize = 0, statLock = False,
    chunkOffset = 0, freader = newReader c\<rparr>)\<rparr>"
  obtain e' where e': "iFstat (newReader c) (env (cache s)) = (Ret (sz, None), e')" using assms(4) by blast
  let ?c = "snd (PutSize D d sz ((cache s)\<lparr>env := e'\<rparr>))"
  have "Fstat D ?f ?s1 = (Ret (sz, None), upd_file ?f (\<lambda>x. x\<lparr>fsize := sz, statLock := False\<rparr>) (?s1\<lparr>cache := ?c\<rparr>))"
    using Fstat_miss [of ?s1 ?f sz None e' D] None e' by (simp add: known_size_def)
  moreover have "known_size (s\<lparr>cache := ?c\<rparr>) d = Some sz" by (rule known_size_PutSize)
  moreover have "?c = (cache s)\<lparr>metadataCache := metadataCache ?c, env := e'\<rparr>"
    by (simp add: PutSize_def bind_apply modify_apply ret_apply)
  ultimately show ?thesis
    using assms(1,2)
    by (intro exI [of _ "snd (Open D bs newReader c s)"] exI [of _ "metadataCache ?c"] exI [of _ e'])
      (simp add: Open_def Let_def bind_apply ret_apply gets_apply modify_apply prefetch_def known_size_def)
qed

lemma fill_url:
  "fill bs c = Ret (c', None) \<Longrightarrow> GetString c' BlobUrlCtxKey = BlobUrl c"
  by (auto simp: fill_def Let_def obind_eq_Ret BlobUrlCtxKey_def BlobRangeCtxKey_def split: option.splits)

text \<open>The handler up to the point where it serves the file.\<close>

lemma handle_body_sized:
  assumes "req_method (Request c) = ''GET''" "\<not> IsRequestFromAPeer c" "ParseDigest (BlobUrl c) = (d, None)"
    and "header_Get (req_header (Request c)) ''Range'' = range_header a b" "0 \<le> a" "a \<le> b" "in_i64 b" "0 < bs"
    and "known_size (hstore s) d \<in> {None, Some sz}"
    and "\<forall>c' e. GetString c' BlobUrlCtxKey = BlobUrl c \<longrightarrow> (\<exists>e'. iFstat (newReader c') e = (Ret (sz, None), e'))"
  shows "\<exists>f t c' mc e'. GetString c' BlobUrlCtxKey = BlobUrl c \<and> known_size t d = Some sz
    \<and> cache t = (cache (hstore s))\<lparr>metadataCache := mc, env := e'\<rparr>
    \<and> fheap t f = \<lparr>Name = d, cur = 0, fsize = sz, statLock = False, chunkOffset = 0, freader = newReader c'\<rparr>
    \<and> handle_body fuel D bs newReader nodeName c s =
        bind (ServeContent fuel D bs (Request c) f) (\<lambda>_. ret ()) (s\<lparr>hstore := t, wlog := wlog s @ file_headers nodeName c\<rparr>)"
proof -
  have a: "in_i64 a" using assms(5-7) by (simp add: in_i64_iff)
  have "RangeStartIndex (range_header a b) = (a, None)"
    unfolding range_header_def by (rule RangeStartIndex_FormatInt) (use assms(5,6) a in simp_all)
  then have "Key bs c = Ret (d @ ''_'' @ FormatInt (a div bs * bs), d, None)"
    using assms(1,3,4) FileChunkKey_eq [OF assms(5) a assms(8), of d] by (simp add: Key_def)
  from fill_ok [OF this] obtain c' where c': "fill bs c = Ret (c', None)" "GetString c' FileChunkCtxKey = d @ ''_'' @ FormatInt (a div bs * bs)"
    "Request c' = Request c" "GetString c' CorrelationIdCtxKey = GetString c CorrelationIdCtxKey" "\<not> IsRequestFromAPeer c'"
    using assms(2) by auto
  note url = fill_url [OF c'(1)]
  have "Split (CHR ''_'') (GetString c' FileChunkCtxKey) = [d, FormatInt (a div bs * bs)]"
    using chunk_key_tokens [OF ParseDigest_no_sep [OF assms(3)]] c'(2) by simp
  from Open_sized [OF this c'(5) assms(9), of newReader D bs] assms(10) url obtain t mc e' where
    t: "Open D bs newReader c' (hstore s) = (Ret (Some (next_file (hstore s)), None), t)" "known_size t d = Some sz"
    "cache t = (cache (hstore s))\<lparr>metadataCache := mc, env := e'\<rparr>"
    "fheap t (next_file (hstore s)) = \<lparr>Name = d, cur = 0, fsize = sz, statLock = False, chunkOffset = 0, freader = newReader c'\<rparr>"
    by blast
  have "handle_body fuel D bs newReader nodeName c s =
        bind (ServeContent fuel D bs (Request c) (next_file (hstore s))) (\<lambda>_. ret ()) (s\<lparr>hstore := t, wlog := wlog s @ file_headers nodeName c\<rparr>)"
    using c' t(1) by (simp add: handle_body_def handler_run lift_outcome_apply file_headers_def)
  with t url show ?thesis by blast
qed

text \<open>A reader that delivers the blob and its size.\<close>

definition delivers_blob :: "'x Reader \<Rightarrow> byte list \<Rightarrow> bool" where
  "delivers_blob R blob \<longleftrightarrow> delivers R blob \<and> (\<forall>buf off. no_hang (iPread R buf off))
     \<and> (\<forall>e. \<exists>e'. iFstat R e = (Ret (int (length blob), None), e'))"

lemma Handle_answers:
  assumes "kv_lawful D holds" "accepting D holds" "healthy truth holds (cache (hstore s))"
    and "blob_truth (cpath (cache (hstore s))) d bs blob truth" "0 < bs"
    and "\<forall>c'. GetString c' BlobUrlCtxKey = BlobUrl c \<longrightarrow> delivers_blob (newReader c') blob"
    and "known_size (hstore s) d \<in> {None, Some (int (length blob))}" "in_i64 (int (length blob))" "length blob < fuel" "werrs s = []"
    and "req_method (Request c) = ''GET''" "\<not> IsRequestFromAPeer c" "ParseDigest (BlobUrl c) = (d, None)"
    and "header_Get (req_header (Request c)) ''Range'' = range_header a b" "0 \<le> a" "a \<le> b" "in_i64 b" "a < int (length blob)"
    and "n = min b (int (length blob) - 1) - a + 1"
  shows "\<exists>s' ws. Handle fuel D bs newReader nodeName c s = (Ret (), s') \<and> concat ws = take (nat n) (drop (nat a) blob)
    \<and> wlog s' = wlog s @ file_headers nodeName c @ range_headers a n (int (length blob)) @ map HWrite ws
    \<and> healthy truth holds (cache (hstore s'))"
proof -
  have "\<forall>c' e. GetString c' BlobUrlCtxKey = BlobUrl c \<longrightarrow> (\<exists>e'. iFstat (newReader c') e = (Ret (int (length blob), None), e'))"
    using assms(6) by (simp add: delivers_blob_def)
  from handle_body_sized [OF assms(11-17,5,7) this] obtain f t c' mc e' where o: "GetString c' BlobUrlCtxKey = BlobUrl c"
    "known_size t d = Some (int (length blob))" "cache t = (cache (hstore s))\<lparr>metadataCache := mc, env := e'\<rparr>"
    "fheap t f = \<lparr>Name = d, cur = 0, fsize = int (length blob), statLock = False, chunkOffset = 0, freader = newReader c'\<rparr>"
    "handle_body fuel D bs newReader nodeName c s =
        bind (ServeContent fuel D bs (Request c) f) (\<lambda>_. ret ()) (s\<lparr>hstore := t, wlog := wlog s @ file_headers nodeName c\<rparr>)"
    by blast
  let ?s1 = "s\<lparr>hstore := t, wlog := wlog s @ file_headers nodeName c\<rparr>"
  have h: "healthy truth holds (cache t)" using assms(3) o(3) by (simp add: healthy_fields)
  have "delivering truth holds blob bs f (hstore ?s1)" "fsize (fheap (hstore ?s1) f) = int (length blob)" "werrs ?s1 = []"
    using assms(4,6,10) o h healthy_sound [OF h] by (simp_all add: delivering_def serving_def delivers_reads delivers_blob_def)
  from ServeContent_delivers [OF assms(1,2,8,5) this(1,2) assms(9) this(3) assms(11,14-19)] obtain t1 ws where
    sc: "ServeContent fuel D bs (Request c) f ?s1 = (Ret (Served None), t1)" "concat ws = take (nat n) (drop (nat a) blob)"
    "wlog t1 = wlog ?s1 @ range_headers a n (int (length blob)) @ map HWrite ws" "healthy truth holds (cache (hstore t1))" by blast
  then have b: "handle_body fuel D bs newReader nodeName c s = (Ret (), t1)"
    using o(5) by (simp add: bind_apply ret_apply)
  from Handle_run [OF b] sc(2,3,4) show ?thesis by auto
qed

section \<open>The reader, with an origin that answers and nobody who lies\<close>

text \<open>Requests for a blob: to the origin or to a peer that proxies it.\<close>

definition for_blob :: "string \<Rightarrow> request \<Rightarrow> bool" where
  "for_blob url req \<longleftrightarrow> req_url req = url \<or> (\<exists>host. req_url req = host @ ''/blobs/'' @ url)"

text \<open>Whoever answers a range request for the blob with 200 or 206 and enough bytes delivers the bytes of that
  range; peers may fail, answer with other statuses or send less.\<close>

definition honest :: "'n http_deps \<Rightarrow> string \<Rightarrow> byte list \<Rightarrow> bool" where
  "honest H url blob \<longleftrightarrow> (\<forall>nw cl req resp a k. fst (httpDo H nw cl req) = Inr resp \<and> StatusCode resp \<in> {200, 206} \<and> for_blob url req
     \<and> header_Get (req_header req) ''Range'' = range_value a (a + int k - 1) \<and> 0 \<le> a \<and> a + int k \<le> int (length blob) \<and> k \<le> length (body resp)
     \<longrightarrow> take k (body resp) = take k (drop (nat a) blob))"

text \<open>The origin answers every range request, and tells the blob's size in the content range of the first byte.\<close>

definition origin_up :: "'n http_deps \<Rightarrow> string \<Rightarrow> byte list \<Rightarrow> bool" where
  "origin_up H url blob \<longleftrightarrow> urlParse H url = None
     \<and> (\<forall>nw req a k. req_url req = url \<and> header_Get (req_header req) ''Range'' = range_value a (a + int k - 1) \<and> 0 \<le> a \<and> a + int k \<le> int (length blob) \<longrightarrow>
          (\<exists>resp. fst (httpDo H nw [] req) = Inr resp \<and> StatusCode resp \<in> {200, 206} \<and> k \<le> length (body resp)))
     \<and> (\<forall>nw req. req_url req = url \<and> header_Get (req_header req) ''Range'' = range_value 0 0 \<longrightarrow>
          (\<exists>resp w. fst (httpDo H nw [] req) = Inr resp \<and> StatusCode resp = 206
             \<and> header_Get (resp_header resp) ''Content-Range'' = ''bytes '' @ w @ ''/'' @ FormatInt (int (length blob))))"

text \<open>The lookup ends: its deadline passes or its channel is closed, if no peer serves before.\<close>

definition lookup_ends :: "select list \<Rightarrow> bool" where
  "lookup_ends evs \<longleftrightarrow> Deadline \<in> set evs \<or> ChanClosed \<in> set evs"

lemma peerLoop_returns:
  assumes "lookup_ends evs"
  shows "\<exists>x s'. peerLoop D H r key a b operationPreadRemote evs k buf s = (Ret x, s')"
  using assms
proof (induction evs arbitrary: k buf s)
  case (Cons ev evs)
  show ?case
  proof (cases ev)
    case (Peer p)
    then have evs: "lookup_ends evs" using Cons.prems by (simp add: lookup_ends_def)
    show ?thesis
      by (cases rule: peerLoop_cases [where H = H and r = r and p = p and a = a and b = b and nw = "http s" and buf = buf])
        (use Cons.IH [OF evs] in \<open>auto simp: Peer peerLoop_Peer\<close>)
  qed (simp_all add: reader_run)
qed (simp add: lookup_ends_def)

lemma doP2p_returns:
  assumes "lookup_ends evs" "0 \<le> resolveRetries r"
  shows "\<exists>x s'. doP2p D H infos i evs r key a b operationPreadRemote buf s = (Ret x, s')"
proof -
  obtain v lc where "lcGet D (lookupCache (rtr (net s))) key = (v, lc)" by fastforce
  with assms(2) have "\<exists>y s1. with_net (ResolveWithNegativeCacheCallback D infos i key False (resolveRetries r)) s = (Ret y, s1)"
    by (cases "v = Some strPeerNotFound"; cases "cidSum D key")
      (simp_all add: with_net_def ResolveWithNegativeCacheCallback_def Resolve_def bind_apply ret_apply modify_apply)
  then show ?thesis
    using peerLoop_returns [OF assms(1)] by (auto simp: doP2p_def bind_apply ret_apply split: sum.splits)
qed

lemma origin_request:
  assumes "origin_up H url blob" "GetString (rcontext r) BlobUrlCtxKey = url"
  obtains req where "originRequest H r a b = Inr req" "req_url req = url" "header_Get (req_header req) ''Range'' = range_value a b"
proof -
  have "urlParse H url = None" using assms(1) by (simp add: origin_up_def)
  then obtain req where req: "originRequest H r a b = Inr req"
    using assms(2) by (simp add: originRequest_def remoteRequest_def Let_def)
  with remoteRequest_Inr [OF req [unfolded originRequest_def]] assms(2) that show thesis by auto
qed

lemma PreadRemote_succeeds:
  assumes "origin_up H url blob" "lookup_ends evs" "0 \<le> resolveRetries r" "GetString (rcontext r) BlobUrlCtxKey = url"
    and "0 \<le> off" "off + int (length buf) \<le> int (length blob)" "in_i64 (int (length blob))"
  shows "\<exists>buf' n s'. PreadRemote D H infos i evs r buf off s = (Ret (buf', n, None), s')"
proof -
  let ?stop = "i64 (int (length buf) + off - 1)"
  have stop: "?stop = off + int (length buf) - 1"
    using assms(5-7) by (subst i64_id) (auto simp: in_i64_iff)
  obtain buf1 m err s1 where p: "doP2p D H infos i evs r (GetString (rcontext r) FileChunkCtxKey) off ?stop operationPreadRemote buf s = (Ret (buf1, m, err), s1)"
    using doP2p_returns [OF assms(2,3)] by (metis prod_cases3)
  have len: "length buf1 = length buf" using doP2p_post [OF p] by (auto simp: loop_post_def)
  show ?thesis
  proof (cases err)
    case None
    with p show ?thesis by (simp add: PreadRemote_def Let_def bind_apply ret_apply)
  next
    case (Some e)
    obtain req where req: "originRequest H r off ?stop = Inr req" "req_url req = url" "header_Get (req_header req) ''Range'' = range_value off ?stop"
      using origin_request [OF assms(1,4)] .
    then obtain resp where resp: "fst (httpDo H (http s1) [] req) = Inr resp" "StatusCode resp \<in> {200, 206}" "length buf \<le> length (body resp)"
      using assms(1,5,6) unfolding origin_up_def stop by blast
    then have "pread_answer (fst (httpDo H (http s1) [] req)) buf1 = (take (length buf) (body resp), int (length buf), None)"
      unfolding pread_answer_ok serves_def len by auto
    with p Some req(1) show ?thesis
      by (simp add: PreadRemote_def Let_def reader_run)
  qed
qed

lemma remote_delivers:
  fixes H :: "'n http_deps" and D :: "('lc, 'cid, 'ma) net_deps"
  assumes "honest H url blob" "origin_up H url blob" "lookup_ends evs" "0 \<le> resolveRetries r"
    and "GetString (rcontext r) BlobUrlCtxKey = url" "in_i64 (int (length blob))"
  shows "delivers_blob (remote_Reader D H infos i evs r) blob"
  unfolding delivers_blob_def delivers_def
proof (intro conjI allI impI, elim conjE)
  fix buf :: "byte list" and off s assume o: "0 \<le> off" "off + int (length buf) \<le> int (length blob)"
  obtain buf' n s' where p: "PreadRemote D H infos i evs r buf off s = (Ret (buf', n, None), s')"
    using PreadRemote_succeeds [OF assms(2-5) o assms(6)] by blast
  have stop: "i64 (int (length buf) + off - 1) = off + int (length buf) - 1"
    using o assms(6) by (subst i64_id) (auto simp: in_i64_iff)
  from PreadRemote_post [OF p, unfolded stop] obtain cl req nw where
    "outbound_ok r off (off + int (length buf) - 1) evs (cl, req)" "serves (fst (httpDo H nw cl req)) (length buf) buf'"
    by (auto simp: loop_post_def)
  then obtain resp where resp: "fst (httpDo H nw cl req) = Inr resp" "StatusCode resp \<in> {200, 206}" "length buf \<le> length (body resp)"
    "buf' = take (length buf) (body resp)" and req: "for_blob url req" "header_Get (req_header req) ''Range'' = range_value off (off + int (length buf) - 1)"
    using assms(5) unfolding outbound_ok_def serves_def for_blob_def by auto
  have "buf' = take (length buf) (drop (nat off) blob)"
    unfolding resp(4) by (rule assms(1) [unfolded honest_def, rule_format]) (use resp req o in blast)
  with p show "\<exists>n err e'. iPread (remote_Reader D H infos i evs r) buf off s = (Ret (take (length buf) (drop (nat off) blob), n, err), e')
      \<and> (err = None \<or> err = Some EOF)"
    by (auto simp: remote_Reader_def)
next
  fix buf off
  show "no_hang (iPread (remote_Reader D H infos i evs r) buf off)"
    unfolding no_hang_def
  proof
    fix s
    obtain buf1 m err s1 where "doP2p D H infos i evs r (GetString (rcontext r) FileChunkCtxKey) off (i64 (int (length buf) + off - 1))
        operationPreadRemote buf s = (Ret (buf1, m, err), s1)"
      using doP2p_returns [OF assms(3,4)] by (metis prod_cases3)
    then show "fst (iPread (remote_Reader D H infos i evs r) buf off s) \<noteq> Hang"
      by (auto simp: remote_Reader_def PreadRemote_def Let_def reader_run split: sum.splits prod.splits)
  qed
next
  fix s :: "('lc, 'cid, 'ma, 'n) renv"
  obtain req where req: "originRequest H r 0 0 = Inr req" "req_url req = url" "header_Get (req_header req) ''Range'' = range_value 0 0"
    using origin_request [OF assms(2,5)] .
  then obtain resp w where resp: "fst (httpDo H (http s) [] req) = Inr resp" "StatusCode resp = 206"
    "header_Get (resp_header resp) ''Content-Range'' = ''bytes '' @ w @ ''/'' @ FormatInt (int (length blob))"
    using assms(2) unfolding origin_up_def by blast
  then have "httpDo H (http s) [] req = (Inr resp, snd (httpDo H (http s) [] req))" by (metis prod.collapse)
  from FstatRemote_total_size [OF req(1) this resp(2,3) _ assms(6)]
  show "\<exists>e'. iFstat (remote_Reader D H infos i evs r) s = (Ret (int (length blob), None), e')"
    by (auto simp: remote_Reader_def)
qed

section \<open>Claims\<close>

text \<open>The reader that the store makes for a request, with the number of retries it was built with.\<close>

definition ResolveRetries :: int where
  "ResolveRetries = 3"

definition store_reader :: "('lc, 'cid, 'ma) net_deps \<Rightarrow> 'n http_deps \<Rightarrow> ('cid \<Rightarrow> int \<Rightarrow> 'ma addr_info list) \<Rightarrow> nat \<Rightarrow> select list \<Rightarrow> string \<Rightarrow>
    Context \<Rightarrow> ('lc, 'cid, 'ma, 'n) renv Reader" where
  "store_reader N H infos i evs nodeName c = remote_Reader N H infos i evs (NewReader nodeName c ResolveRetries)"

text \<open>C1: the proxy answers a range request. Take a client's GET of the positions \<open>a\<close> to \<open>b\<close> of a blob, a cache in
  any good condition that accepts entries and system calls that do not fail. If the origin answers, nobody
  who answers lies, and the lookup of peers ends at its deadline, then, whichever peers are found, however
  they fail, and whether the blob's size is known or has to be asked for, the handler with its store, cache,
  reader and router returns status 206, the exact content range, and all the requested bytes in order; and
  the cache is again in a condition in which that holds.\<close>

theorem proxy_answers_range:
  assumes "kv_lawful D holds" "accepting D holds" "healthy truth holds (cache (hstore s))"
    and "blob_truth (cpath (cache (hstore s))) d bs blob truth" "0 < bs"
    and "honest H (BlobUrl c) blob" "origin_up H (BlobUrl c) blob" "lookup_ends evs"
    and "known_size (hstore s) d \<in> {None, Some (int (length blob))}" "in_i64 (int (length blob))" "length blob < fuel" "werrs s = []"
    and "req_method (Request c) = ''GET''" "\<not> IsRequestFromAPeer c" "ParseDigest (BlobUrl c) = (d, None)"
    and "header_Get (req_header (Request c)) ''Range'' = range_header a b" "0 \<le> a" "a \<le> b" "in_i64 b" "a < int (length blob)"
    and "n = min b (int (length blob) - 1) - a + 1"
  shows "\<exists>s' ws. Handle fuel D bs (store_reader N H infos i evs nodeName) nodeName c s = (Ret (), s')
    \<and> concat ws = take (nat n) (drop (nat a) blob)
    \<and> wlog s' = wlog s @ file_headers nodeName c @ range_headers a n (int (length blob)) @ map HWrite ws
    \<and> healthy truth holds (cache (hstore s'))"
proof -
  have "\<forall>c'. GetString c' BlobUrlCtxKey = BlobUrl c \<longrightarrow>
      delivers_blob (store_reader N H infos i evs nodeName c') blob"
    using assms(10) by (auto simp: NewReader_def store_reader_def ResolveRetries_def intro!: remote_delivers [OF assms(6-8)])
  from Handle_answers [OF assms(1-5) this assms(9-21)] show ?thesis .
qed

text \<open>An origin with the blob and a peer that is down, on a fresh cache that does not know the blob's size.\<close>

definition blob_http :: "byte list \<Rightarrow> unit http_deps" where
  "blob_http blob = \<lparr>urlParse = (\<lambda>_. None), urlHostname = (\<lambda>u. u), httpDo = (\<lambda>nw cl req.
     (if cl = [] then
        Inr \<lparr>StatusCode = 206, ContentLength = 0,
          resp_header = header_Set Map.empty ''Content-Range'' (''bytes 0-0/'' @ FormatInt (int (length blob))),
          body = drop (nat (fst (RangeStartIndex (header_Get (req_header req) ''Range'')))) blob, body_err = None\<rparr>
      else Inl ErrClosed, nw))\<rparr>"

definition unknown_handler :: "'x \<Rightarrow> ((string \<times> nat) list, 'x) hstate" where
  "unknown_handler e = \<lparr>hstore = \<lparr>cache = empty_cache e, fheap = (\<lambda>_. undefined), next_file = 0, prefetches = [], prefetchChan = [],
     blobsChan = [], prefetchable = False\<rparr>, wlog = [], werrs = [], hmetrics = []\<rparr>"

lemma blob_http_up:
  assumes "in_i64 (int (length blob))"
  shows "honest (blob_http blob) url blob" "origin_up (blob_http blob) url blob"
proof -
  have start: "fst (RangeStartIndex (range_value a (a + int k - 1))) = a" if "0 \<le> a" "a + int k \<le> int (length blob)" "k \<noteq> 0" for a k
    unfolding range_value_def
    by (subst RangeStartIndex_FormatInt) (use that assms in \<open>auto simp: in_i64_iff\<close>)
  have "take k (drop (nat (fst (RangeStartIndex (range_value a (a + int k - 1))))) blob) = take k (drop (nat a) blob)"
    if "0 \<le> a" "a + int k \<le> int (length blob)" for a k
    using start [OF that] by (cases "k = 0") auto
  then show "honest (blob_http blob) url blob"
    by (auto simp: honest_def blob_http_def split: if_splits)
  have "k \<le> length (drop (nat (fst (RangeStartIndex (range_value a (a + int k - 1))))) blob)"
    if "0 \<le> a" "a + int k \<le> int (length blob)" for a k
    using start [OF that] that by (cases "k = 0") auto
  then show "origin_up (blob_http blob) url blob"
    by (auto simp: origin_up_def blob_http_def intro!: exI [of _ "''0-0''"])
qed

lemma unknown_handler_facts:
  "healthy truth set (cache (hstore (unknown_handler e)))" "cpath (cache (hstore (unknown_handler e))) = ''/cache''"
  "known_size (hstore (unknown_handler e)) d = None" "werrs (unknown_handler e) = []" "wlog (unknown_handler e) = []"
  using empty_healthy [of truth e]
  by (simp_all add: unknown_handler_def) (simp_all add: empty_cache_def known_size_def SyncMap_Get_def NewSyncMap_def)

theorem proxy_answers_range_witness:
  "\<exists>s' ws. Handle 12 keep_all 4 (store_reader demo_deps (blob_http demo_blob) (\<lambda>_ _. demo_providers) 0 [Peer demo_peer, Deadline] ''node'') ''node'' (demo_request ''GET'' demo_url) (unknown_handler demo_env) = (Ret (), s')
     \<and> concat ws = [108, 100] \<and> wlog s' = file_headers ''node'' (demo_request ''GET'' demo_url) @ range_headers 9 2 11 @ map HWrite ws"
proof -
  have l: "int (length demo_blob) = 11" "length demo_blob < 12" "drop 9 demo_blob = [108, 100]" by (simp_all add: demo_blob_def)
  have i: "in_i64 (int (length demo_blob))" by (simp add: l in_i64_iff)
  have f: "(0 :: int) < 4" "lookup_ends [Peer demo_peer, Deadline]"
    "blob_truth (cpath (cache (hstore (unknown_handler demo_env)))) demo_digest 4 demo_blob digest_truth"
    "known_size (hstore (unknown_handler demo_env)) demo_digest \<in> {None, Some (int (length demo_blob))}"
    "(0 :: int) \<le> 9" "(9 :: int) \<le> 10" "in_i64 10" "9 < int (length demo_blob)" "2 = min 10 (int (length demo_blob) - 1) - 9 + 1"
    by (simp_all add: unknown_handler_facts digest_blob_truth lookup_ends_def l in_i64_iff)
  from proxy_answers_range [OF keep_all_lawful keep_all_accepting unknown_handler_facts(1) f(3,1) blob_http_up [OF i] f(2,4) i l(2) unknown_handler_facts(4)
      demo_request_facts(1,2) demo_digest_parsed demo_request_facts(3) f(5-9), of demo_deps "\<lambda>_ _. demo_providers" 0 "''node''"] l
  show ?thesis
    by (simp add: unknown_handler_facts(5)) blast
qed


definition whole_http :: "unit http_deps" where
  "whole_http = \<lparr>urlParse = (\<lambda>_. None), urlHostname = (\<lambda>u. u), httpDo = (\<lambda>nw cl req.
     (Inr \<lparr>StatusCode = 200, ContentLength = 3, resp_header = Map.empty, body = [1, 2, 3], body_err = None\<rparr>, nw))\<rparr>"

definition peer_reader :: reader where
  "peer_reader = demo_reader\<lparr>rcontext := (rcontext demo_reader)\<lparr>Request := (Request (rcontext demo_reader))\<lparr>req_header :=
     header_Set Map.empty P2PHeaderKey ''true''\<rparr>\<rparr>\<rparr>"


text \<open>C39: the wrong chunk is reported missing. A reader looks for peers under the key of the chunk its file was
  opened at, whichever chunk it is asked to read. When it finds no peer for some other chunk, it marks the
  chunk of the opening as not found, and while the mark lasts every lookup of that chunk is refused, although
  nobody looked for it in vain.\<close>

theorem wrong_chunk_marked_missing:
  assumes "lookup_starts D r s" "ev \<in> {Deadline, ChanClosed}" "key = GetString (rcontext r) FileChunkCtxKey"
    and "\<forall>lc. fst (lcGet D (lcSet D lc key strPeerNotFound) key) = Some strPeerNotFound"
    and "PreadRemote D H infos i (ev # evs) r buf off s = (x, s')"
  shows "fst (ResolveWithNegativeCacheCallback D infos j key allow n (net s')) = Ret (Inl (ContentNotFoundError key))"
proof -
  let ?stop = "i64 (int (length buf) + off - 1)"
  obtain s1 where s1: "doP2p D H infos i (ev # evs) r key off ?stop operationPreadRemote buf s
      = peerLoop D H r key off ?stop operationPreadRemote (ev # evs) 0 buf s1"
    using doP2p_starts [OF assms(1)] assms(3) by blast
  let ?s2 = "s1\<lparr>net := snd (negCacheCallback D key (net s1))\<rparr>"
  have "doP2p D H infos i (ev # evs) r key off ?stop operationPreadRemote buf s = (Ret (buf, -1, Some PeerNotFound), ?s2)"
    unfolding s1 using assms(2) by (auto simp: reader_run)
  with assms(5) have "net s' = net ?s2"
    by (auto simp: PreadRemote_def Let_def reader_run answered_def assms(3) split: sum.splits prod.splits)
  then have "lookupCache (rtr (net s')) = lcSet D (lookupCache (rtr (net s1))) key strPeerNotFound"
    by (simp add: negCacheCallback_def modify_apply)
  with assms(4) obtain lc where "lcGet D (lookupCache (rtr (net s'))) key = (Some strPeerNotFound, lc)"
    by (metis prod.collapse)
  then show ?thesis
    by (simp add: ResolveWithNegativeCacheCallback_def bind_apply ret_apply)
qed

theorem wrong_chunk_marked_missing_witness:
  "\<exists>x s'. PreadRemote demo_deps demo_http (\<lambda>_ _. []) 0 [Deadline] demo_reader [0] 4194304 demo_env = (x, s')
     \<and> fst (ResolveWithNegativeCacheCallback demo_deps (\<lambda>_ _. []) 1 ''d_0'' False 3 (net s')) = Ret (Inl (ContentNotFoundError ''d_0''))"
proof -
  have k: "GetString (rcontext demo_reader) FileChunkCtxKey = ''d_0''"
    by (simp add: demo_reader_def GetString_def FileChunkCtxKey_def BlobUrlCtxKey_def)
  obtain x s' where s': "PreadRemote demo_deps demo_http (\<lambda>_ _. []) 0 [Deadline] demo_reader [0] 4194304 demo_env = (x, s')" by fastforce
  from wrong_chunk_marked_missing [OF demo_starts _ k [symmetric] _ s', of 1 False 3] s' show ?thesis
    by (auto simp: demo_deps_def)
qed

end
