(* ===== verification/Provider.thy ===== *)
theory Provider
  imports Routing
begin

text \<open>
  \<open>pkg/discovery/content/provider/provider.go\<close>: the loop that advertises what the store announces. The
  events its \<open>select\<close> meets are a list; when it is over, the loop waits for more.
\<close>

section \<open>Definitions\<close>

datatype provide_select = CtxDone | Blob string

fun provider_Provide :: "('lc, 'cid, 'ma) net_deps \<Rightarrow> provide_select list \<Rightarrow> (('lc, 'cid) router, unit) go" where
  "provider_Provide D [] = hang"
| "provider_Provide D (CtxDone # evs) = ret ()"
| "provider_Provide D (Blob blob # evs) = bind (Provide D [blob]) (\<lambda>err.
     if err \<noteq> None then provider_Provide D evs else provider_Provide D evs)"

section \<open>What is advertised\<close>

text \<open>The reference: each key once, in order, those that fail left out.\<close>

fun advertised :: "('lc, 'cid, 'ma) net_deps \<Rightarrow> 'cid list \<Rightarrow> string list \<Rightarrow> 'cid list" where
  "advertised D done_ids [] = done_ids"
| "advertised D done_ids (k # ks) = (case cidSum D k of
      Inl e \<Rightarrow> advertised D done_ids ks
    | Inr c \<Rightarrow> if dhtProvide D done_ids c = None then advertised D (done_ids @ [c]) ks else advertised D done_ids ks)"

lemma Provide_one:
  "Provide D [k] r = (case cidSum D k of
      Inl e \<Rightarrow> (Ret (Some e), r)
    | Inr c \<Rightarrow> if dhtProvide D (provided r) c = None then (Ret None, r\<lparr>provided := provided r @ [c]\<rparr>)
        else (Ret (dhtProvide D (provided r) c), r))"
  by (auto simp: bind_apply ret_apply gets_apply modify_apply split: sum.splits)

lemma provider_Blob:
  "provider_Provide D (Blob k # evs) r = provider_Provide D evs (r\<lparr>provided := advertised D (provided r) [k]\<rparr>)"
  by (auto simp: bind_apply Provide_one split: sum.splits simp del: Provide.simps)

lemma provider_run:
  "provider_Provide D (map Blob ks @ CtxDone # evs) r = (Ret (), r\<lparr>provided := advertised D (provided r) ks\<rparr>)"
proof (induction ks arbitrary: r)
  case (Cons k ks)
  have "advertised D (advertised D ids [k]) ks = advertised D ids (k # ks)" for ids
    by (auto split: sum.splits)
  with Cons show ?case
    by (simp add: provider_Blob del: provider_Provide.simps(3) advertised.simps(2))
qed (simp add: ret_apply)

lemma Provide_all:
  assumes "Provide D ks r = (Ret None, r')"
  shows "r' = r\<lparr>provided := advertised D (provided r) ks\<rparr>"
  using assms
proof (induction ks arbitrary: r)
  case (Cons k ks)
  then obtain c where c: "cidSum D k = Inr c" "dhtProvide D (provided r) c = None"
    "Provide D ks (r\<lparr>provided := provided r @ [c]\<rparr>) = (Ret None, r')"
    by (auto simp: bind_apply ret_apply gets_apply modify_apply split: sum.splits if_splits)
  from Cons.IH [OF c(3)] c(1,2) show ?case by simp
qed (simp add: ret_apply)

text \<open>C23: advertising the announced keys one by one in the provider loop leaves the router as one call of
  \<open>Provide\<close> with all of them would, whenever that call succeeds. In general the loop skips a key that
  fails and goes on: it advertises, in the order of their announcement, exactly the keys that succeed,
  and it returns when the context is done, ignoring what is announced after that.\<close>

theorem provider_equals_batch:
  "provider_Provide D (map Blob ks @ CtxDone # evs) r = (Ret (), r\<lparr>provided := advertised D (provided r) ks\<rparr>)
   \<and> (\<forall>r'. Provide D ks r = (Ret None, r') \<longrightarrow> provider_Provide D (map Blob ks @ CtxDone # evs) r = (Ret (), r'))"
  using provider_run [of D ks evs r] Provide_all [of D ks r] by auto

definition demo_router :: "((string \<times> string) option, string) router" where
  "demo_router = \<lparr>host_ID = ''self'', peerRegistryPort = ''5001'', lookupCache = None, active = False, provided = [], active_events = 0\<rparr>"

theorem provider_equals_batch_witness:
  "\<exists>r'. Provide demo_deps [''a'', ''b''] demo_router = (Ret None, r')
     \<and> provider_Provide demo_deps [Blob ''a'', Blob ''b'', CtxDone] demo_router = (Ret (), r')"
proof -
  obtain r' where r: "Provide demo_deps [''a'', ''b''] demo_router = (Ret None, r')"
    by (simp add: demo_deps_def bind_apply gets_apply modify_apply ret_apply)
  with provider_equals_batch [of demo_deps "[''a'', ''b'']" "[]" demo_router] show ?thesis
    by auto
qed

end
