(* ===== verification/Pipeline.thy ===== *)
theory Pipeline
  imports Delivery Provider "HOL-Library.Multiset"
begin

text \<open>
  The pipeline that fills and advertises the cache in the background (\<open>pkg/files/store\<close>,
  \<open>pkg/discovery/content/provider\<close>): a goroutine per opened file cuts it into segments and sends them to
  the prefetch channel, the workers of the store receive them, have the cache fetch them and announce their
  keys on the blob channel, and the provider advertises what it receives there. The goroutines interleave
  and both channels are bounded. A step is a channel operation or one call of the cache or of the router
  (how the calls of the cache interleave is the subject of \<open>Concurrent\<close>).
\<close>

section \<open>Definitions\<close>

text \<open>A worker waits for a segment, has it fetched, or waits to announce it.\<close>

datatype 'x worker = WRecv | WRun "'x prefetchableSegment" | WSend string

text \<open>The store with its channels, the segments each prefetch goroutine still has to send, the workers, the
  router and whether a goroutine has panicked, which ends the process. The prefetch channel has room for as
  many segments as there are workers.\<close>

record ('rc, 'x, 'lc, 'cid) psys =
  pstore :: "('rc, 'x) store"
  feeders :: "'x prefetchableSegment list list"
  pworkers :: "'x worker list"
  prouter :: "('lc, 'cid) router"
  panicked :: bool

definition blobs_cap :: nat where
  "blobs_cap = 1000"

text \<open>What may happen next: a started goroutine computes its segments, a goroutine sends one, a worker
  receives, runs or announces, the provider receives and advertises.\<close>

datatype act = Start nat | Feed nat | Recv nat | Run nat | Announce nat | Advertise

definition after :: "('rc, 'x, 'lc, 'cid) psys \<Rightarrow> 'a outcome \<times> 's \<Rightarrow> ('a \<Rightarrow> 's \<Rightarrow> ('rc, 'x, 'lc, 'cid) psys) \<Rightarrow> ('rc, 'x, 'lc, 'cid) psys option" where
  "after s x k = (case x of (Ret a, t) \<Rightarrow> Some (k a t) | (Panic e, t) \<Rightarrow> Some (s\<lparr>panicked := True\<rparr>) | (Hang, t) \<Rightarrow> None)"

fun pipe_do :: "'rc deps \<Rightarrow> ('lc, 'cid, 'ma) net_deps \<Rightarrow> int \<Rightarrow> act \<Rightarrow> ('rc, 'x, 'lc, 'cid) psys \<Rightarrow> ('rc, 'x, 'lc, 'cid) psys option" where
  "pipe_do D N bs (Start i) s =
     (let l = prefetches (pstore s) in
      if i < length l then (case l ! i of (f, offset, cnt) \<Rightarrow>
        after s (prefetch_segs D bs f offset cnt (pstore s)) (\<lambda>q st.
          s\<lparr>pstore := st\<lparr>prefetches := take i l @ drop (Suc i) l\<rparr>, feeders := feeders s @ [q]\<rparr>))
      else None)"
| "pipe_do D N bs (Feed i) s =
     (let q = prefetchChan (pstore s) in
      if i < length (feeders s) \<and> length q < length (pworkers s) then (case feeders s ! i of
          [] \<Rightarrow> None
        | p # l \<Rightarrow> Some (s\<lparr>pstore := (pstore s)\<lparr>prefetchChan := q @ [p]\<rparr>, feeders := (feeders s)[i := l]\<rparr>))
      else None)"
| "pipe_do D N bs (Recv j) s =
     (if j < length (pworkers s) then (case (pworkers s ! j, prefetchChan (pstore s)) of
          (WRecv, p # q) \<Rightarrow> Some (s\<lparr>pstore := (pstore s)\<lparr>prefetchChan := q\<rparr>, pworkers := (pworkers s)[j := WRun p]\<rparr>)
        | _ \<Rightarrow> None)
      else None)"
| "pipe_do D N bs (Run j) s =
     (if j < length (pworkers s) then (case pworkers s ! j of
          WRun p \<Rightarrow> after s (worker_run D bs p (pstore s)) (\<lambda>k st.
            s\<lparr>pstore := st, pworkers := (pworkers s)[j := (case k of None \<Rightarrow> WRecv | Some key \<Rightarrow> WSend key)]\<rparr>)
        | _ \<Rightarrow> None)
      else None)"
| "pipe_do D N bs (Announce j) s =
     (let b = blobsChan (pstore s) in
      if j < length (pworkers s) \<and> length b < blobs_cap then (case pworkers s ! j of
          WSend key \<Rightarrow> Some (s\<lparr>pstore := (pstore s)\<lparr>blobsChan := b @ [key]\<rparr>, pworkers := (pworkers s)[j := WRecv]\<rparr>)
        | _ \<Rightarrow> None)
      else None)"
| "pipe_do D N bs Advertise s =
     (case blobsChan (pstore s) of
        [] \<Rightarrow> None
      | key # b \<Rightarrow> after s (Provide N [key] (prouter s)) (\<lambda>err r.
          s\<lparr>pstore := (pstore s)\<lparr>blobsChan := b\<rparr>, prouter := r\<rparr>))"

definition pipe_step :: "'rc deps \<Rightarrow> ('lc, 'cid, 'ma) net_deps \<Rightarrow> int \<Rightarrow> ('rc, 'x, 'lc, 'cid) psys \<Rightarrow> ('rc, 'x, 'lc, 'cid) psys \<Rightarrow> bool" where
  "pipe_step D N bs s s' \<longleftrightarrow> \<not> panicked s \<and> (\<exists>a. pipe_do D N bs a s = Some s')"

lemma worker_run_frame: "worker_run D bs p s = (x, s') \<Longrightarrow> \<exists>c. s' = s\<lparr>cache := c\<rparr>"
  by (auto simp: worker_run_def with_cache_def bind_def ret_def lift_outcome_def split: outcome.splits prod.splits if_splits)

section \<open>Every run ends\<close>

fun worker_weight :: "'x worker \<Rightarrow> nat" where
  "worker_weight WRecv = 0"
| "worker_weight (WRun p) = 3"
| "worker_weight (WSend key) = 2"

definition pipe_weight :: "('rc, 'x, 'lc, 'cid) psys \<Rightarrow> nat" where
  "pipe_weight s = 5 * sum_list (map length (feeders s)) + 4 * length (prefetchChan (pstore s))
     + sum_list (map worker_weight (pworkers s)) + length (blobsChan (pstore s))"

definition pipe_starts :: "('rc, 'x, 'lc, 'cid) psys \<Rightarrow> nat" where
  "pipe_starts s = length (prefetches (pstore s)) + (if panicked s then 0 else 1)"

lemma after_Some:
  "after s x k = Some s' \<longleftrightarrow> (\<exists>a t. x = (Ret a, t) \<and> s' = k a t) \<or> (\<exists>e t. x = (Panic e, t) \<and> s' = s\<lparr>panicked := True\<rparr>)"
  by (auto simp: after_def split: prod.splits outcome.splits)

lemma pipe_stepE:
  assumes "pipe_step D N bs s s'"
  obtains
    (start) i f offset cnt q st where "i < length (prefetches (pstore s))" "prefetches (pstore s) ! i = (f, offset, cnt)"
      "prefetch_segs D bs f offset cnt (pstore s) = (Ret q, st)"
      "s' = s\<lparr>pstore := st\<lparr>prefetches := take i (prefetches (pstore s)) @ drop (Suc i) (prefetches (pstore s))\<rparr>, feeders := feeders s @ [q]\<rparr>"
  | (feed) i p l where "i < length (feeders s)" "feeders s ! i = p # l" "length (prefetchChan (pstore s)) < length (pworkers s)"
      "s' = s\<lparr>pstore := (pstore s)\<lparr>prefetchChan := prefetchChan (pstore s) @ [p]\<rparr>, feeders := (feeders s)[i := l]\<rparr>"
  | (recv) j p q where "j < length (pworkers s)" "pworkers s ! j = WRecv" "prefetchChan (pstore s) = p # q"
      "s' = s\<lparr>pstore := (pstore s)\<lparr>prefetchChan := q\<rparr>, pworkers := (pworkers s)[j := WRun p]\<rparr>"
  | (run) j p k c where "j < length (pworkers s)" "pworkers s ! j = WRun p"
      "worker_run D bs p (pstore s) = (Ret k, (pstore s)\<lparr>cache := c\<rparr>)"
      "s' = s\<lparr>pstore := (pstore s)\<lparr>cache := c\<rparr>, pworkers := (pworkers s)[j := (case k of None \<Rightarrow> WRecv | Some key \<Rightarrow> WSend key)]\<rparr>"
  | (announce) j key where "j < length (pworkers s)" "pworkers s ! j = WSend key" "length (blobsChan (pstore s)) < blobs_cap"
      "s' = s\<lparr>pstore := (pstore s)\<lparr>blobsChan := blobsChan (pstore s) @ [key]\<rparr>, pworkers := (pworkers s)[j := WRecv]\<rparr>"
  | (advertise) key b err r where "blobsChan (pstore s) = key # b" "Provide N [key] (prouter s) = (Ret err, r)"
      "s' = s\<lparr>pstore := (pstore s)\<lparr>blobsChan := b\<rparr>, prouter := r\<rparr>"
  | (panic) i f offset cnt j p e t where "s' = s\<lparr>panicked := True\<rparr>"
      "(i < length (prefetches (pstore s)) \<and> prefetches (pstore s) ! i = (f, offset, cnt) \<and> prefetch_segs D bs f offset cnt (pstore s) = (Panic e, t))
       \<or> (j < length (pworkers s) \<and> pworkers s ! j = WRun p \<and> worker_run D bs p (pstore s) = (Panic e, t))"
proof -
  obtain a where a: "pipe_do D N bs a s = Some s'" using assms by (auto simp: pipe_step_def)
  show thesis
  proof (cases a)
    case (Start i)
    with a show thesis by (auto simp: Let_def after_Some split: if_splits prod.splits intro: start panic)
  next
    case (Feed i)
    with a show thesis by (auto simp: Let_def split: if_splits list.splits intro: feed)
  next
    case (Recv j)
    with a show thesis by (auto split: if_splits list.splits worker.splits intro: recv)
  next
    case (Run j)
    with a obtain p where p: "j < length (pworkers s)" "pworkers s ! j = WRun p"
      and r: "after s (worker_run D bs p (pstore s)) (\<lambda>k st.
        s\<lparr>pstore := st, pworkers := (pworkers s)[j := (case k of None \<Rightarrow> WRecv | Some key \<Rightarrow> WSend key)]\<rparr>) = Some s'"
      by (auto split: if_splits worker.splits)
    from r [unfolded after_Some] show thesis
    proof (elim disjE exE conjE)
      fix k st assume w: "worker_run D bs p (pstore s) = (Ret k, st)"
        "s' = s\<lparr>pstore := st, pworkers := (pworkers s)[j := (case k of None \<Rightarrow> WRecv | Some key \<Rightarrow> WSend key)]\<rparr>"
      with worker_run_frame [OF w(1)] p show thesis by (metis run)
    qed (use p panic in blast)
  next
    case (Announce j)
    with a show thesis by (auto simp: Let_def split: if_splits worker.splits intro: announce)
  next
    case Advertise
    moreover have "Provide N [key] r \<noteq> (Panic e, t)" for key r e t
      by (simp add: Provide_one split: sum.split del: Provide.simps)
    ultimately show thesis
      using a by (auto simp: after_Some split: list.splits intro: advertise simp del: Provide.simps)
  qed
qed

lemma pipe_decreases:
  assumes "pipe_step D N bs s s'"
  shows "pipe_starts s' < pipe_starts s \<or> (pipe_starts s' = pipe_starts s \<and> pipe_weight s' < pipe_weight s)"
proof -
  have "\<not> panicked s" using assms by (simp add: pipe_step_def)
  note sum = sum_list_swap [of _ "feeders s" length] sum_list_swap [of _ "pworkers s" worker_weight]
  from assms show ?thesis
  proof (cases rule: pipe_stepE)
    case (feed i p l)
    with sum(1) [OF feed(1), of l] show ?thesis by (simp add: pipe_starts_def pipe_weight_def)
  next
    case (recv j p q)
    with sum(2) [OF recv(1), of "WRun p"] show ?thesis by (simp add: pipe_starts_def pipe_weight_def)
  next
    case (run j p k c)
    with sum(2) [OF run(1), of "case k of None \<Rightarrow> WRecv | Some key \<Rightarrow> WSend key"] show ?thesis
      by (auto simp: pipe_starts_def pipe_weight_def split: option.splits)
  next
    case (announce j key)
    with sum(2) [OF announce(1), of WRecv] show ?thesis by (simp add: pipe_starts_def pipe_weight_def)
  qed (use \<open>\<not> panicked s\<close> in \<open>auto simp: pipe_starts_def pipe_weight_def\<close>)
qed

interpretation ps: terminating_system "pipe_step D N bs" "\<lambda>s. (pipe_starts s, pipe_weight s)" "less_than <*lex*> less_than" for D N bs
  by unfold_locales (auto dest: pipe_decreases)

section \<open>Nothing is lost, and nothing gets stuck\<close>

text \<open>A router that can advertise every key.\<close>

definition accepts_keys :: "('lc, 'cid, 'ma) net_deps \<Rightarrow> bool" where
  "accepts_keys N \<longleftrightarrow> (\<forall>k. \<exists>c. cidSum N k = Inr c) \<and> (\<forall>ids c. dhtProvide N ids c = None)"

text \<open>The keys that are still to be advertised, wherever they are in the pipeline.\<close>

definition chunk_keys :: "int \<Rightarrow> string \<Rightarrow> int \<Rightarrow> string multiset" where
  "chunk_keys bs name sz = mset (map (\<lambda>(a, n). name @ ''_'' @ FormatInt a) (chunks_of bs sz))"

definition seg_key :: "'x prefetchableSegment \<Rightarrow> string" where
  "seg_key p = pname p @ ''_'' @ FormatInt (poffset p)"

definition seg_keys :: "'x prefetchableSegment list \<Rightarrow> string multiset" where
  "seg_keys l = mset (map seg_key l)"

fun worker_keys :: "'x worker \<Rightarrow> string multiset" where
  "worker_keys WRecv = {#}"
| "worker_keys (WRun p) = {#seg_key p#}"
| "worker_keys (WSend key) = {#key#}"

definition file_keys :: "int \<Rightarrow> ('rc, 'x) store \<Rightarrow> nat \<times> int \<times> int \<Rightarrow> string multiset" where
  "file_keys bs st x = (case x of (f, offset, n) \<Rightarrow> chunk_keys bs (Name (fheap st f)) n)"

definition owed :: "int \<Rightarrow> ('rc, 'x, 'lc, 'cid) psys \<Rightarrow> string multiset" where
  "owed bs s = sum_list (map (file_keys bs (pstore s)) (prefetches (pstore s))) + sum_list (map seg_keys (feeders s))
     + seg_keys (prefetchChan (pstore s)) + sum_list (map worker_keys (pworkers s)) + mset (blobsChan (pstore s))"

text \<open>A segment whose reader delivers its bytes or fails and says so, and a file all of whose segments are
  such: \<open>blobs\<close> says what the content of each blob is. Where \<open>sure\<close>, readers do not fail.\<close>

definition good_seg :: "bool \<Rightarrow> (string \<Rightarrow> byte list) \<Rightarrow> (string \<Rightarrow> byte list) \<Rightarrow> int \<Rightarrow> string \<Rightarrow> 'x prefetchableSegment \<Rightarrow> bool" where
  "good_seg sure truth blobs bs path p \<longleftrightarrow> 0 \<le> poffset p \<and> bs dvd poffset p \<and> poffset p < int (length (blobs (pname p)))
     \<and> pcount p = min bs (int (length (blobs (pname p))) - poffset p) \<and> in_i64 (int (length (blobs (pname p))))
     \<and> blob_truth path (pname p) bs (blobs (pname p)) truth
     \<and> survives (preader p) (blobs (pname p)) \<and> (sure \<longrightarrow> delivers (preader p) (blobs (pname p)))"

definition good_file :: "bool \<Rightarrow> (string \<Rightarrow> byte list) \<Rightarrow> (string \<Rightarrow> byte list) \<Rightarrow> int \<Rightarrow> ('rc, 'x) store \<Rightarrow> nat \<times> int \<times> int \<Rightarrow> bool" where
  "good_file sure truth blobs bs st x \<longleftrightarrow> (case x of (f, offset, n) \<Rightarrow>
     offset = 0 \<and> n = int (length (blobs (Name (fheap st f)))) \<and> n + bs \<le> MaxInt64 \<and> known_size st (Name (fheap st f)) = Some n
     \<and> blob_truth (cpath (cache st)) (Name (fheap st f)) bs (blobs (Name (fheap st f))) truth
     \<and> survives (freader (fheap st f)) (blobs (Name (fheap st f))) \<and> (sure \<longrightarrow> delivers (freader (fheap st f)) (blobs (Name (fheap st f)))))"

definition in_pipe :: "('rc, 'x, 'lc, 'cid) psys \<Rightarrow> 'x prefetchableSegment set" where
  "in_pipe s = (\<Union>l \<in> set (feeders s). set l) \<union> set (prefetchChan (pstore s)) \<union> {p. WRun p \<in> set (pworkers s)}"

definition calm_pipe :: "bool \<Rightarrow> (string \<Rightarrow> byte list) \<Rightarrow> ('rc \<Rightarrow> (string \<times> nat) set) \<Rightarrow> (string \<Rightarrow> byte list) \<Rightarrow> int \<Rightarrow> nat \<Rightarrow> ('rc, 'x, 'lc, 'cid) psys \<Rightarrow> bool" where
  "calm_pipe sure truth holds blobs bs W s \<longleftrightarrow> \<not> panicked s \<and> length (pworkers s) = W \<and> length (prefetchChan (pstore s)) \<le> W
     \<and> length (blobsChan (pstore s)) \<le> blobs_cap \<and> healthy truth holds (cache (pstore s))
     \<and> (\<forall>x \<in> set (prefetches (pstore s)). good_file sure truth blobs bs (pstore s) x)
     \<and> (\<forall>p \<in> in_pipe s. good_seg sure truth blobs bs (cpath (cache (pstore s))) p)"

lemma chunks_of_mem:
  assumes "(a, n) \<in> set (chunks_of bs sz)" "0 < bs"
  shows "0 \<le> a" "bs dvd a" "a < sz" "n = min bs (sz - a)"
proof -
  obtain k where k: "k < nat ((sz + bs - 1) div bs)" "a = int k * bs" "n = min bs (sz - int k * bs)"
    using assms(1) by (auto simp: chunks_of_def)
  then have "int k + 1 \<le> (sz + bs - 1) div bs" by linarith
  then have "(int k + 1) * bs \<le> (sz + bs - 1) div bs * bs" using assms(2) by (simp add: mult_right_mono)
  moreover have "(sz + bs - 1) div bs * bs \<le> sz + bs - 1"
    using pos_mod_sign [OF assms(2), of "sz + bs - 1"] by (simp add: minus_mod_eq_div_mult [symmetric])
  ultimately have "(int k + 1) * bs \<le> sz + bs - 1" by linarith
  with k assms(2) show "0 \<le> a" "bs dvd a" "a < sz" "n = min bs (sz - a)"
    by (auto simp: algebra_simps)
qed

lemma prefetch_segs_good:
  assumes "good_file sure truth blobs bs st (f, offset, n)" "bs = 2 ^ k"
  shows "\<exists>q. prefetch_segs D bs f offset n st = (Ret q, upd_file f (\<lambda>x. x\<lparr>fsize := n\<rparr>) st)
    \<and> seg_keys q = file_keys bs st (f, offset, n) \<and> (\<forall>p \<in> set q. good_seg sure truth blobs bs (cpath (cache st)) p)"
proof -
  let ?x = "fheap st f"
  note g = assms(1) [unfolded good_file_def, simplified]
  obtain q where q: "prefetch_segs D bs f 0 n st = (Ret q, upd_file f (\<lambda>x. x\<lparr>fsize := n\<rparr>) st)"
    "map (\<lambda>p. (poffset p, pcount p)) q = chunks_of bs n" "\<forall>p \<in> set q. pname p = Name ?x \<and> preader p = freader ?x"
    using prefetch_covers_file [of st f n bs k D] g assms(2) by auto
  have pos: "0 < bs" by (simp add: assms(2))
  then have len: "in_i64 (int (length (blobs (Name ?x))))" using g by (auto intro!: in_i64_nonneg)
  have "map seg_key q = map (\<lambda>(a, n). Name ?x @ ''_'' @ FormatInt a) (chunks_of bs n)"
    unfolding q(2) [symmetric] using q(3) by (simp add: seg_key_def)
  then have "seg_keys q = file_keys bs st (f, offset, n)"
    by (simp only: seg_keys_def file_keys_def chunk_keys_def prod.case)
  moreover have "good_seg sure truth blobs bs (cpath (cache st)) p" if "p \<in> set q" for p
  proof -
    have "(poffset p, pcount p) \<in> set (chunks_of bs n)" using that by (auto simp flip: q(2))
    from chunks_of_mem [OF this pos] g q(3) that len show ?thesis
      by (auto simp: good_seg_def)
  qed
  ultimately show ?thesis
    using q(1) g by auto
qed

lemma worker_run_good:
  assumes "kv_lawful D holds" "accepting D holds" "healthy truth holds (cache st)" "good_seg sure truth blobs bs (cpath (cache st)) p" "0 < bs"
  shows "\<exists>k c. worker_run D bs p st = (Ret k, st\<lparr>cache := c\<rparr>) \<and> healthy truth holds c \<and> (k = None \<or> k = Some (seg_key p)) \<and> (sure \<longrightarrow> k \<noteq> None)
    \<and> cpath c = cpath (cache st) \<and> metadataCache c = metadataCache (cache st)"
proof -
  let ?key = "getKey (cpath (cache st)) (pname p) (poffset p)" and ?blob = "blobs (pname p)"
  let ?fetch = "FetchFile (preader p) (pname p) (poffset p) (pcount p)"
  note g = assms(4) [unfolded good_seg_def]
  have want: "truth ?key = take (nat (pcount p)) (drop (nat (poffset p)) ?blob)" "int (length (truth ?key)) = pcount p"
    using g assms(5) by (auto simp: blob_truth_def min_def)
  have b: "0 \<le> poffset p" "0 \<le> pcount p" "poffset p + pcount p \<le> int (length ?blob)" using g assms(5) by auto
  have f: "\<forall>e. \<exists>b er e'. ?fetch e = (Ret (b, er), e') \<and> (er = None \<longrightarrow> b = truth ?key)"
    using FetchFile_survives [OF _ b, of "preader p" "pname p"] g by (simp add: want(1))
  have "\<exists>x c. GetOrCreate D (pname p) (poffset p) (pcount p) ?fetch (cache st) = (Ret x, c) \<and> healthy truth holds c \<and> (sure \<longrightarrow> snd x = None)"
  proof (cases sure)
    case True
    then have "\<forall>e. \<exists>e'. ?fetch e = (Ret (truth ?key, None), e')"
      using FetchFile_delivers [OF _ b, of "preader p" "pname p"] g by (simp add: want(1))
    from GetOrCreate_ready [where truth = truth and key = ?key and fetch = ?fetch and s = "cache st", OF assms(1-3) refl this want(2)]
    show ?thesis by auto
  qed (use GetOrCreate_survives [where truth = truth and key = ?key and fetch = ?fetch and s = "cache st", OF assms(1-3) refl f want(2)] in blast)
  then obtain y er c where c: "GetOrCreate D (pname p) (poffset p) (pcount p) ?fetch (cache st) = (Ret (y, er), c)" "healthy truth holds c" "sure \<longrightarrow> er = None"
    by auto
  have "FileChunkKey (pname p) (poffset p) bs = Ret (seg_key p)"
    using FileChunkKey_eq [of "poffset p" bs "pname p"] g assms(5) by (auto simp: seg_key_def in_i64_iff)
  with c GetOrCreate_frame [OF c(1)] show ?thesis
    by (cases er) (auto simp: worker_run_def with_cache_def bind_apply ret_apply lift_outcome_apply)
qed

lemma Provide_provided:
  assumes "Provide N [key] r = (Ret err, r')"
  shows "provided r' = provided r \<or> provided r' = provided r @ [projr (cidSum N key)]"
    and "accepts_keys N \<Longrightarrow> provided r' = provided r @ [projr (cidSum N key)]"
  using assms
  by (auto simp: accepts_keys_def Provide_one split: sum.splits if_splits simp del: Provide.simps) (metis Inr_not_Inl)

lemma cache_upd_inject: "(s :: ('rc, 'x) store)\<lparr>cache := c\<rparr> = s\<lparr>cache := c'\<rparr> \<longleftrightarrow> c = c'"
  by (auto dest: arg_cong [where f = cache])

lemma good_file_frame:
  assumes "cpath (cache st') = cpath (cache st)" "metadataCache (cache st') = metadataCache (cache st)"
    and "\<And>f. Name (fheap st' f) = Name (fheap st f) \<and> freader (fheap st' f) = freader (fheap st f)"
  shows "good_file sure truth blobs bs st' = good_file sure truth blobs bs st" "file_keys bs st' = file_keys bs st"
  using assms by (auto simp: good_file_def file_keys_def known_size_def fun_eq_iff)

lemma calm_step:
  assumes "kv_lawful D holds" "accepting D holds" "bs = 2 ^ k" "calm_pipe sure truth holds blobs bs W s" "pipe_step D N bs s s'"
  shows "calm_pipe sure truth holds blobs bs W s'"
proof -
  note c = assms(4) [unfolded calm_pipe_def]
  have pos: "0 < bs" by (simp add: assms(3))
  note drun = worker_run_good [where truth = truth and blobs = blobs, OF assms(1,2) _ _ pos]
  from assms(5) show ?thesis
  proof (cases rule: pipe_stepE)
    case (start i f offset n q st)
    then have "good_file sure truth blobs bs (pstore s) (f, offset, n)" using c by (metis nth_mem)
    from prefetch_segs_good [OF this assms(3), of D] start(3) have
      st: "st = upd_file f (\<lambda>x. x\<lparr>fsize := n\<rparr>) (pstore s)" "\<forall>p \<in> set q. good_seg sure truth blobs bs (cpath (cache (pstore s))) p" by auto
    have "good_file sure truth blobs bs (st\<lparr>prefetches := l\<rparr>) = good_file sure truth blobs bs (pstore s)" for l
      by (rule good_file_frame) (auto simp: st(1) upd_file_def)
    with c st start(4) show ?thesis
      by (auto simp: calm_pipe_def in_pipe_def dest!: in_set_takeD in_set_dropD)
  next
    case (feed i p l)
    then have "p \<in> in_pipe s" "set l \<subseteq> in_pipe s" by (auto simp: in_pipe_def) (metis list.set_intros nth_mem)+
    moreover have "good_file sure truth blobs bs (pstore s') = good_file sure truth blobs bs (pstore s)"
      by (rule good_file_frame) (auto simp: feed(4))
    ultimately show ?thesis
      using c feed by (auto simp: calm_pipe_def in_pipe_def dest!: set_update_subset_insert [THEN subsetD])
  next
    case (recv j p q)
    have "good_file sure truth blobs bs (pstore s') = good_file sure truth blobs bs (pstore s)"
      by (rule good_file_frame) (auto simp: recv(4))
    with c recv show ?thesis
      by (auto simp: calm_pipe_def in_pipe_def dest!: set_update_subset_insert [THEN subsetD])
  next
    case (run j p key c')
    then have "p \<in> in_pipe s" by (auto simp: in_pipe_def) (metis nth_mem)
    with c drun [where st = "pstore s" and p = p and sure = sure] run(3) have
      c': "healthy truth holds c'" "cpath c' = cpath (cache (pstore s))" "metadataCache c' = metadataCache (cache (pstore s))"
      "key = None \<or> key = Some (seg_key p)"
      by (auto simp: cache_upd_inject)
    have "good_file sure truth blobs bs (pstore s') = good_file sure truth blobs bs (pstore s)"
      by (rule good_file_frame) (auto simp: run(4) c')
    with c run c' show ?thesis
      by (auto simp: calm_pipe_def in_pipe_def dest!: set_update_subset_insert [THEN subsetD])
  next
    case (announce j key)
    have "good_file sure truth blobs bs (pstore s') = good_file sure truth blobs bs (pstore s)"
      by (rule good_file_frame) (auto simp: announce(4))
    with c announce show ?thesis
      by (auto simp: calm_pipe_def in_pipe_def dest!: set_update_subset_insert [THEN subsetD])
  next
    case (advertise key b err r)
    have "good_file sure truth blobs bs (pstore s') = good_file sure truth blobs bs (pstore s)"
      by (rule good_file_frame) (auto simp: advertise(3))
    with c advertise show ?thesis by (auto simp: calm_pipe_def in_pipe_def)
  next
    case (panic i f offset n j p e t)
    from panic(2) show ?thesis
    proof (elim disjE conjE)
      assume "i < length (prefetches (pstore s))" "prefetches (pstore s) ! i = (f, offset, n)" "prefetch_segs D bs f offset n (pstore s) = (Panic e, t)"
      with c prefetch_segs_good [OF _ assms(3), of sure truth blobs "pstore s" f offset n D] show ?thesis by (metis Pair_inject nth_mem outcome.distinct(1))
    next
      assume r: "j < length (pworkers s)" "pworkers s ! j = WRun p" "worker_run D bs p (pstore s) = (Panic e, t)"
      then have "p \<in> in_pipe s" by (auto simp: in_pipe_def) (metis nth_mem)
      with c drun [where st = "pstore s" and p = p and sure = sure] r(3) show ?thesis by auto
    qed
  qed
qed

text \<open>What is advertised and what is owed together never grow, and stay the same where nothing fails.\<close>

lemma owed_step:
  assumes "kv_lawful D holds" "accepting D holds" "bs = 2 ^ k" "calm_pipe sure truth holds blobs bs W s" "pipe_step D N bs s s'"
  defines "all_cids \<equiv> \<lambda>s. image_mset (\<lambda>key. projr (cidSum N key)) (owed bs s) + mset (provided (prouter s))"
  shows "all_cids s' \<subseteq># all_cids s \<and> (sure \<and> accepts_keys N \<longrightarrow> all_cids s' = all_cids s)"
proof -
  note c = assms(4) [unfolded calm_pipe_def]
  have pos: "0 < bs" by (simp add: assms(3))
  note feeds = sum_list_swap [where f = seg_keys and xs = "feeders s"] and works = sum_list_swap [where f = worker_keys and xs = "pworkers s"]
  from assms(5) show ?thesis
  proof (cases rule: pipe_stepE)
    case (start i f offset n q st)
    let ?l = "prefetches (pstore s)"
    have "good_file sure truth blobs bs (pstore s) (f, offset, n)" using c start(1,2) by (metis nth_mem)
    from prefetch_segs_good [OF this assms(3), of D] start(3) have
      st: "st = upd_file f (\<lambda>x. x\<lparr>fsize := n\<rparr>) (pstore s)" "seg_keys q = file_keys bs (pstore s) (?l ! i)" by (auto simp: start(2))
    have "file_keys bs (pstore s') = file_keys bs (pstore s)"
      by (rule good_file_frame) (auto simp: start(4) st(1) upd_file_def)
    with start(4) st sum_list_remove_nth [OF start(1), of "file_keys bs (pstore s)", symmetric] show ?thesis
      by (simp add: owed_def all_cids_def ac_simps)
  next
    case (feed i p l)
    have "file_keys bs (pstore s') = file_keys bs (pstore s)"
      by (rule good_file_frame) (auto simp: feed(4))
    moreover have "sum_list (map seg_keys (feeders s)) = sum_list (map seg_keys ((feeders s)[i := l])) + {#seg_key p#}"
      using feeds [OF feed(1), of l] feed(2) by (simp add: seg_keys_def)
    ultimately show ?thesis by (simp add: feed(4) owed_def all_cids_def seg_keys_def)
  next
    case (recv j p q)
    have "file_keys bs (pstore s') = file_keys bs (pstore s)"
      by (rule good_file_frame) (auto simp: recv(4))
    with recv works [OF recv(1), of "WRun p"] show ?thesis by (simp add: owed_def all_cids_def seg_keys_def)
  next
    case (run j p key c')
    then have "p \<in> in_pipe s" by (auto simp: in_pipe_def) (metis nth_mem)
    with c worker_run_good [where truth = truth and blobs = blobs and st = "pstore s" and p = p and sure = sure, OF assms(1,2) _ _ pos] run(3)
    have c': "cpath c' = cpath (cache (pstore s))" "metadataCache c' = metadataCache (cache (pstore s))"
      "key = None \<or> key = Some (seg_key p)" "sure \<longrightarrow> key \<noteq> None"
      by (auto simp: cache_upd_inject)
    have k: "file_keys bs (pstore s') = file_keys bs (pstore s)"
      by (rule good_file_frame) (auto simp: run(4) c')
    show ?thesis
    proof (cases key)
      case None
      have "sum_list (map worker_keys (pworkers s)) = sum_list (map worker_keys ((pworkers s)[j := WRecv])) + {#seg_key p#}"
        using works [OF run(1), of WRecv] run(2) by simp
      with None k c' run show ?thesis by (simp add: owed_def all_cids_def)
    next
      case (Some x)
      with run k c' works [OF run(1), of "WSend (seg_key p)"] show ?thesis by (simp add: owed_def all_cids_def)
    qed
  next
    case (announce j key)
    have "file_keys bs (pstore s') = file_keys bs (pstore s)"
      by (rule good_file_frame) (auto simp: announce(4))
    moreover have "sum_list (map worker_keys (pworkers s)) = sum_list (map worker_keys ((pworkers s)[j := WRecv])) + {#key#}"
      using works [OF announce(1), of WRecv] announce(2) by simp
    ultimately show ?thesis by (simp add: announce(4) owed_def all_cids_def)
  next
    case (advertise key b err r)
    have "file_keys bs (pstore s') = file_keys bs (pstore s)"
      by (rule good_file_frame) (auto simp: advertise(3))
    with advertise Provide_provided [OF advertise(2)] show ?thesis by (auto simp: owed_def all_cids_def)
  qed (simp add: owed_def all_cids_def)
qed

text \<open>Where no step is left, nothing is owed.\<close>

lemma calm_stuck:
  assumes "kv_lawful D holds" "accepting D holds" "bs = 2 ^ k" "calm_pipe sure truth holds blobs bs W s" "0 < W"
    and "\<nexists>s'. pipe_step D N bs s s'"
  shows "owed bs s = {#}"
proof -
  note c = assms(4) [unfolded calm_pipe_def]
  have stuck: "pipe_do D N bs a s = None" for a
    using assms(6) c by (auto simp: pipe_step_def simp flip: not_Some_eq)
  have b: "blobsChan (pstore s) = []"
    using stuck [of Advertise]
    by (auto simp: after_def Provide_one split: list.splits sum.splits if_splits simp del: Provide.simps)
  have w: "pworkers s ! j = WRecv" if j: "j < length (pworkers s)" for j
  proof (cases "pworkers s ! j")
    case (WRun p)
    with j have "p \<in> in_pipe s" by (auto simp: in_pipe_def) (metis nth_mem)
    moreover have "0 < bs" by (simp add: assms(3))
    ultimately obtain key c' where "worker_run D bs p (pstore s) = (Ret key, (pstore s)\<lparr>cache := c'\<rparr>)"
      using c worker_run_good [where truth = truth and blobs = blobs and st = "pstore s" and p = p and sure = sure, OF assms(1,2)] by blast
    with stuck [of "Run j"] j WRun show ?thesis by (simp add: after_def)
  qed (use stuck [of "Announce j"] j b in \<open>auto simp: blobs_cap_def\<close>)
  have ch: "prefetchChan (pstore s) = []"
    using stuck [of "Recv 0"] w [of 0] c assms(5) by (auto split: list.splits)
  have "feeders s ! i = []" if "i < length (feeders s)" for i
    using stuck [of "Feed i"] that ch c assms(5) by (auto split: list.splits)
  then have "\<forall>l \<in> set (feeders s). seg_keys l = {#}" by (auto simp: in_set_conv_nth seg_keys_def)
  then have "sum_list (map seg_keys (feeders s)) = {#}" by (simp cong: map_cong)
  moreover have "\<forall>v \<in> set (pworkers s). worker_keys v = {#}" using w by (auto simp: in_set_conv_nth)
  then have "sum_list (map worker_keys (pworkers s)) = {#}" by (simp cong: map_cong)
  moreover have "prefetches (pstore s) = []"
  proof (rule ccontr)
    assume l: "prefetches (pstore s) \<noteq> []"
    obtain f offset n where x: "prefetches (pstore s) ! 0 = (f, offset, n)" by (metis prod_cases3)
    with l c have "good_file sure truth blobs bs (pstore s) (f, offset, n)" by (metis length_greater_0_conv nth_mem)
    from prefetch_segs_good [OF this assms(3), of D] stuck [of "Start 0"] l x show False by (auto simp: after_def)
  qed
  ultimately show ?thesis
    using b ch by (simp add: owed_def) (simp add: seg_keys_def)
qed

section \<open>Claims\<close>

text \<open>The store when its pipeline starts, with as many workers as the channel has room.\<close>

definition new_psys :: "('rc, 'x) store \<Rightarrow> nat \<Rightarrow> ('lc, 'cid) router \<Rightarrow> ('rc, 'x, 'lc, 'cid) psys" where
  "new_psys st W r = \<lparr>pstore = st, feeders = [], pworkers = replicate W WRecv, prouter = r, panicked = False\<rparr>"

text \<open>What is to be advertised in the end: what was before, and each chunk of each opened file.\<close>

definition due_cids :: "('lc, 'cid, 'ma) net_deps \<Rightarrow> int \<Rightarrow> ('rc, 'x) store \<Rightarrow> ('lc, 'cid) router \<Rightarrow> 'cid multiset" where
  "due_cids N bs st r = mset (provided r) + image_mset (\<lambda>key. projr (cidSum N key)) (sum_list (map (file_keys bs st) (prefetches st)))"

lemma pipe_reach:
  assumes "kv_lawful D holds" "accepting D holds" "bs = 2 ^ k" "healthy truth holds (cache st)"
    and "\<forall>x \<in> set (prefetches st). good_file sure truth blobs bs st x" "prefetchChan st = []" "blobsChan st = []"
    and "reach (pipe_step D N bs) (new_psys st W r) s"
  defines "all_cids \<equiv> \<lambda>s. image_mset (\<lambda>key. projr (cidSum N key)) (owed bs s) + mset (provided (prouter s))"
  shows "calm_pipe sure truth holds blobs bs W s \<and> all_cids s \<subseteq># due_cids N bs st r \<and> (sure \<and> accepts_keys N \<longrightarrow> all_cids s = due_cids N bs st r)"
    (is "?inv s")
proof -
  have sys: "invariant_system (pipe_step D N bs) ?inv"
  proof
    fix s s' assume s: "?inv s" "pipe_step D N bs s s'"
    then have c: "calm_pipe sure truth holds blobs bs W s" by blast
    from calm_step [OF assms(1-3) c s(2)] owed_step [OF assms(1-3) c s(2)] s(1) show "?inv s'"
      by (auto simp: all_cids_def intro: subset_mset.order_trans)
  qed
  have "sum_list (replicate W {#}) = ({#} :: string multiset)" by (induction W) simp_all
  then have init: "?inv (new_psys st W r)"
    using assms(4-7) by (auto simp: calm_pipe_def new_psys_def in_pipe_def owed_def seg_keys_def due_cids_def all_cids_def ac_simps)
  from invariant_system.reach_inv [OF sys assms(8) init] show ?thesis .
qed


text \<open>A file of eleven bytes was opened and has three chunks.\<close>

definition opened_store :: "((string \<times> nat) list, unit) store" where
  "opened_store = (sized_store 0)\<lparr>prefetches := [(0, 0, 11)]\<rparr>"


end
