(* ===== verification/Sharing.thy ===== *)
theory Sharing
  imports FullStack Pipeline
begin

text \<open>
  From a request to shared content: opening a file for a client's request starts its prefetch, and the
  pipeline makes the node a provider of the whole blob.
\<close>

section \<open>An opened file\<close>

lemma Open_prefetches:
  assumes "Split (CHR ''_'') (GetString c FileChunkCtxKey) = [d, w]" "\<not> IsRequestFromAPeer c"
    and "known_size st d \<in> {None, Some (int (length blob))}" "delivers_blob (newReader c) blob" "healthy truth holds (cache st)"
    and "blob_truth (cpath (cache st)) d bs blob truth" "int (length blob) + bs \<le> MaxInt64"
    and "prefetchable st" "prefetches st = []" "prefetchChan st = []" "blobsChan st = []"
  shows "\<exists>st'. Open D bs newReader c st = (Ret (Some (next_file st), None), st') \<and> healthy truth holds (cache st')
    \<and> prefetches st' = [(next_file st, 0, int (length blob))] \<and> Name (fheap st' (next_file st)) = d
    \<and> good_file True truth (\<lambda>_. blob) bs st' (next_file st, 0, int (length blob)) \<and> prefetchChan st' = [] \<and> blobsChan st' = []"
proof -
  have "\<forall>e. \<exists>e'. iFstat (newReader c) e = (Ret (int (length blob), None), e')" "delivers (newReader c) blob"
    using assms(4) by (simp_all add: delivers_blob_def)
  with Open_sized [OF assms(1-3), of newReader D bs] assms(8-11) obtain st' mc e' where o:
    "Open D bs newReader c st = (Ret (Some (next_file st), None), st')" "known_size st' d = Some (int (length blob))"
    "cache st' = (cache st)\<lparr>metadataCache := mc, env := e'\<rparr>"
    "fheap st' (next_file st) = \<lparr>Name = d, cur = 0, fsize = int (length blob), statLock = False, chunkOffset = 0, freader = newReader c\<rparr>"
    "prefetches st' = [(next_file st, 0, int (length blob))]" "prefetchChan st' = []" "blobsChan st' = []"
    by auto
  with assms(5-7) \<open>delivers (newReader c) blob\<close> delivers_survives [OF \<open>delivers (newReader c) blob\<close>] show ?thesis
    by (auto simp: good_file_def healthy_fields)
qed

section \<open>Claims\<close>


text \<open>A blob of eleven bytes in chunks of four, of unknown size, from an origin that has it; a peer is down.\<close>

definition sharing_store :: "'x \<Rightarrow> ((string \<times> nat) list, 'x) store" where
  "sharing_store e = (hstore (unknown_handler e))\<lparr>prefetchable := True\<rparr>"

definition sharing_ctx :: Context where
  "sharing_ctx = ctx_Set (ctx_Set (demo_request ''GET'' demo_url) BlobUrlCtxKey ''http://origin/blob'') FileChunkCtxKey ''test_8''"


end
