(* ===== verification/Root.thy ===== *)
theory Root
  imports Handler
begin

text \<open>
  \<open>pkg/handlers/root.go\<close>: the engine that serves the files handler. The web framework is an argument
  (\<open>gin\<close>): its recovery middleware and the status it reports for the calls made on its writer. Requests
  of other routes and methods never reach the handler and are answered by the framework.
\<close>

section \<open>Definitions\<close>

record ('rc, 'x) gin =
  gin_Recovery :: "(('rc, 'x) hstate, unit) go \<Rightarrow> (('rc, 'x) hstate, unit) go"
  gin_Status :: "wcall list \<Rightarrow> int"

datatype log_level = Info | Warn | Error

record ('rc, 'x) estate =
  ehandler :: "('rc, 'x) hstate"
  access_log :: "(log_level \<times> string \<times> int) list"

text \<open>The level of the line that reports a served request.\<close>

definition event_level :: "int \<Rightarrow> log_level" where
  "event_level status =
     (if status \<ge> 400 \<and> status < 500 then Warn else if status \<ge> 500 then Error else Info)"

definition with_handler :: "(('rc, 'x) hstate, 'a) go \<Rightarrow> (('rc, 'x) estate, 'a) go" where
  "with_handler m = (\<lambda>s. case m (ehandler s) of (x, t) \<Rightarrow> (x, s\<lparr>ehandler := t\<rparr>))"

text \<open>The middleware of \<open>newEngine\<close> around the recovery middleware and the handler.\<close>

definition newEngine :: "('rc, 'x) gin \<Rightarrow> string \<Rightarrow> (Context \<Rightarrow> (('rc, 'x) hstate, unit) go) \<Rightarrow> Context \<Rightarrow> (('rc, 'x) estate, unit) go" where
  "newEngine G uuid f c =
     (let c = FillCorrelationId uuid c in
      bind (with_handler (gin_Recovery G (f c))) (\<lambda>_.
      bind (gets (\<lambda>s. gin_Status G (wlog (ehandler s)))) (\<lambda>status.
      modify (\<lambda>s. s\<lparr>access_log := access_log s @ [(event_level status, req_method (Request c), status)]\<rparr>))))"

definition registerRoutes :: "'h \<Rightarrow> (string \<times> string \<times> 'h) list" where
  "registerRoutes f = [(''HEAD'', ''/blobs/*url'', f), (''GET'', ''/blobs/*url'', f)]"

definition fileHandler :: "nat \<Rightarrow> 'rc deps \<Rightarrow> int \<Rightarrow> (Context \<Rightarrow> 'x Reader) \<Rightarrow> string \<Rightarrow> Context \<Rightarrow> (('rc, 'x) hstate, unit) go" where
  "fileHandler fuel D bs newReader nodeName c = Handle fuel D bs newReader nodeName c"

text \<open>\<open>Handler\<close>: the routes, each served through the middleware.\<close>

definition Handler_routes :: "('rc, 'x) gin \<Rightarrow> string \<Rightarrow> nat \<Rightarrow> 'rc deps \<Rightarrow> int \<Rightarrow> (Context \<Rightarrow> 'x Reader) \<Rightarrow> string \<Rightarrow>
    (string \<times> string \<times> (Context \<Rightarrow> (('rc, 'x) estate, unit) go)) list" where
  "Handler_routes G uuid fuel D bs newReader nodeName =
     registerRoutes (newEngine G uuid (fileHandler fuel D bs newReader nodeName))"

section \<open>Properties\<close>

text \<open>What the framework documents of its recovery middleware: a panic becomes a response with status
  500, everything else passes through.\<close>

definition recovers :: "('rc, 'x) gin \<Rightarrow> bool" where
  "recovers G \<longleftrightarrow> (\<forall>m s. case m s of
      (Panic p, t) \<Rightarrow> gin_Recovery G m s = (Ret (), t\<lparr>wlog := wlog t @ [HAbortWithStatus 500]\<rparr>)
    | (x, t) \<Rightarrow> gin_Recovery G m s = (x, t))"

text \<open>No panic of the handler escapes the engine, and every request that is answered is logged exactly
  once, with the status sent and a level that tells success, client errors and server errors apart. A
  handler that hangs is neither recovered nor logged.\<close>

theorem engine_logs_once:
  assumes "recovers G" "f (FillCorrelationId uuid c) (ehandler s) = (x, t)"
  shows "newEngine G uuid f c s = (case x of
      Hang \<Rightarrow> (Hang, s\<lparr>ehandler := t\<rparr>)
    | _ \<Rightarrow> (let t' = (if x = Ret () then t else t\<lparr>wlog := wlog t @ [HAbortWithStatus 500]\<rparr>); status = gin_Status G (wlog t')
           in (Ret (), s\<lparr>ehandler := t', access_log := access_log s @ [(event_level status, req_method (Request c), status)]\<rparr>)))"
proof -
  have "Request (FillCorrelationId uuid c) = Request c"
    by (simp add: FillCorrelationId_def Let_def)
  then show ?thesis
    using assms unfolding recovers_def
    by (cases x) (auto simp: newEngine_def Let_def with_handler_def bind_apply gets_apply modify_apply
        dest!: spec [of _ "f (FillCorrelationId uuid c)"] spec [of _ "ehandler s"])
qed

end
