(* ===== verification/Election.thy ===== *)
theory Election
  imports GoLib
begin

text \<open>
  \<open>pkg/k8s/election/election.go\<close>: who the leader is. Kubernetes' leader election runs the callback
  \<open>onNewLeader\<close>, each call in a goroutine of its own, while any number of goroutines wait in \<open>Leader\<close>
  for the first leader. The channel \<open>initChan\<close> is never sent on, only closed. Every access to shared
  memory is one step, so that all interleavings are runs of the model.
\<close>

section \<open>Definitions\<close>

text \<open>What the third-party packages supply: the identity that stands for no leader, the parser of
  multiaddresses and the constructor of the lease lock (namespace, name, identity).\<close>

record ('ma, 'rl) el_deps =
  UnknownLeader :: string
  NewMultiaddr :: "string \<Rightarrow> goerr + 'ma"
  resourcelock_New :: "string \<Rightarrow> string \<Rightarrow> string \<Rightarrow> goerr + 'rl"

text \<open>\<open>le_closed\<close> tells whether \<open>initChan\<close> is closed, \<open>le_writer\<close> and \<open>le_readers\<close> are the state of
  the mutex.\<close>

record leaderElection =
  le_ns :: string
  le_name :: string
  le_id :: string
  le_closed :: bool
  le_writer :: bool
  le_readers :: nat

definition New :: "string \<Rightarrow> string \<Rightarrow> leaderElection" where
  "New name namespace = \<lparr>le_ns = namespace, le_name = name, le_id = [], le_closed = False, le_writer = False, le_readers = 0\<rparr>"

text \<open>Durations are in seconds.\<close>

record 'rl LeaderElectionConfig =
  Lock :: 'rl
  ReleaseOnCancel :: bool
  LeaseDuration :: int
  RenewDeadline :: int
  RetryPeriod :: int

definition leaderElectionConfig :: "'rl \<Rightarrow> 'rl LeaderElectionConfig" where
  "leaderElectionConfig rl = \<lparr>Lock = rl, ReleaseOnCancel = True, LeaseDuration = 10, RenewDeadline = 5, RetryPeriod = 2\<rparr>"

text \<open>\<open>RunOrDie\<close>: the error, or the configuration that the elector is started with.\<close>

definition RunOrDie :: "('ma, 'rl) el_deps \<Rightarrow> leaderElection \<Rightarrow> string \<Rightarrow> goerr + 'rl LeaderElectionConfig" where
  "RunOrDie D le ident = (case resourcelock_New D (le_ns le) (le_name le) ident of
      Inl err \<Rightarrow> Inl err
    | Inr rl \<Rightarrow> Inr (leaderElectionConfig rl))"

text \<open>Where a call of \<open>onNewLeader\<close> is: at its start, about to close the channel because it found it
  open, waiting for the lock, holding it, or over: with the leader set, without doing anything, or by a panic.\<close>

datatype callback = CbStart string | CbClose string | CbLock string | CbSet string | CbDone string | CbSkip | CbPanic go_panic

text \<open>Where a call of \<open>Leader\<close> is: waiting on the channel, waiting for the lock, holding it, or
  finished with its result.\<close>

datatype 'ma leader_call = LdWait | LdLock | LdRead | LdDone "goerr + 'ma"

text \<open>The next step of a call; \<open>None\<close> where it has to wait or is over.\<close>

definition onNewLeader :: "('ma, 'rl) el_deps \<Rightarrow> leaderElection \<Rightarrow> callback \<Rightarrow> (leaderElection \<times> callback) option" where
  "onNewLeader D le pc = (case pc of
      CbStart ident \<Rightarrow> Some (le, if ident = UnknownLeader D then CbSkip else if le_closed le then CbLock ident else CbClose ident)
    | CbClose ident \<Rightarrow> Some (if le_closed le then (le, CbPanic CloseOfClosedChannel) else (le\<lparr>le_closed := True\<rparr>, CbLock ident))
    | CbLock ident \<Rightarrow> if le_writer le \<or> 0 < le_readers le then None else Some (le\<lparr>le_writer := True\<rparr>, CbSet ident)
    | CbSet ident \<Rightarrow> Some (le\<lparr>le_id := ident, le_writer := False\<rparr>, CbDone ident)
    | CbDone ident \<Rightarrow> None
    | CbSkip \<Rightarrow> None
    | CbPanic p \<Rightarrow> None)"

definition Leader :: "('ma, 'rl) el_deps \<Rightarrow> leaderElection \<Rightarrow> 'ma leader_call \<Rightarrow> (leaderElection \<times> 'ma leader_call) option" where
  "Leader D le pc = (case pc of
      LdWait \<Rightarrow> if le_closed le then Some (le, LdLock) else None
    | LdLock \<Rightarrow> if le_writer le then None else Some (le\<lparr>le_readers := Suc (le_readers le)\<rparr>, LdRead)
    | LdRead \<Rightarrow> Some (le\<lparr>le_readers := le_readers le - 1\<rparr>, LdDone (NewMultiaddr D (le_id le)))
    | LdDone r \<Rightarrow> None)"

text \<open>All calls that were ever made.\<close>

record 'ma esys =
  el :: leaderElection
  cbs :: "callback list"
  lds :: "'ma leader_call list"

definition new_esys :: "string \<Rightarrow> string \<Rightarrow> 'ma esys" where
  "new_esys name namespace = \<lparr>el = New name namespace, cbs = [], lds = []\<rparr>"

inductive estep :: "('ma, 'rl) el_deps \<Rightarrow> 'ma esys \<Rightarrow> 'ma esys \<Rightarrow> bool" for D where
  reported: "estep D s (s\<lparr>cbs := cbs s @ [CbStart ident]\<rparr>)"
| asked: "estep D s (s\<lparr>lds := lds s @ [LdWait]\<rparr>)"
| callback_step: "i < length (cbs s) \<Longrightarrow> onNewLeader D (el s) (cbs s ! i) = Some (le, pc) \<Longrightarrow>
    estep D s (s\<lparr>el := le, cbs := (cbs s)[i := pc]\<rparr>)"
| leader_step: "i < length (lds s) \<Longrightarrow> Leader D (el s) (lds s ! i) = Some (le, pc) \<Longrightarrow>
    estep D s (s\<lparr>el := le, lds := (lds s)[i := pc]\<rparr>)"

abbreviation ereach :: "('ma, 'rl) el_deps \<Rightarrow> 'ma esys \<Rightarrow> 'ma esys \<Rightarrow> bool" where
  "ereach D \<equiv> reach (estep D)"

text \<open>The same with the callbacks one at a time: a leader is reported only when no call is running.\<close>

fun cb_over :: "callback \<Rightarrow> bool" where
  "cb_over (CbDone ident) = True"
| "cb_over CbSkip = True"
| "cb_over (CbPanic p) = True"
| "cb_over _ = False"

inductive sreach :: "('ma, 'rl) el_deps \<Rightarrow> 'ma esys \<Rightarrow> 'ma esys \<Rightarrow> bool" for D s0 where
  sinit: "sreach D s0 s0"
| sreported: "sreach D s0 s \<Longrightarrow> list_all cb_over (cbs s) \<Longrightarrow> sreach D s0 (s\<lparr>cbs := cbs s @ [CbStart ident]\<rparr>)"
| sasked: "sreach D s0 s \<Longrightarrow> sreach D s0 (s\<lparr>lds := lds s @ [LdWait]\<rparr>)"
| scallback: "sreach D s0 s \<Longrightarrow> i < length (cbs s) \<Longrightarrow> onNewLeader D (el s) (cbs s ! i) = Some (le, pc) \<Longrightarrow>
    sreach D s0 (s\<lparr>el := le, cbs := (cbs s)[i := pc]\<rparr>)"
| sleader: "sreach D s0 s \<Longrightarrow> i < length (lds s) \<Longrightarrow> Leader D (el s) (lds s ! i) = Some (le, pc) \<Longrightarrow>
    sreach D s0 (s\<lparr>el := le, lds := (lds s)[i := pc]\<rparr>)"

section \<open>Invariants of every interleaving\<close>

fun holds_lock :: "callback \<Rightarrow> bool" where
  "holds_lock (CbSet ident) = True"
| "holds_lock _ = False"

fun past_channel :: "callback \<Rightarrow> bool" where
  "past_channel (CbLock ident) = True"
| "past_channel (CbSet ident) = True"
| "past_channel (CbDone ident) = True"
| "past_channel _ = False"

text \<open>The identity a call works with is never the one that stands for no leader.\<close>

fun known :: "('ma, 'rl) el_deps \<Rightarrow> callback \<Rightarrow> bool" where
  "known D (CbClose ident) = (ident \<noteq> UnknownLeader D)"
| "known D (CbLock ident) = (ident \<noteq> UnknownLeader D)"
| "known D (CbSet ident) = (ident \<noteq> UnknownLeader D)"
| "known D (CbDone ident) = (ident \<noteq> UnknownLeader D)"
| "known D _ = True"

text \<open>An identity that a finished call has set.\<close>

definition elected :: "'ma esys \<Rightarrow> string \<Rightarrow> bool" where
  "elected s ident \<longleftrightarrow> CbDone ident \<in> set (cbs s)"

definition lock_inv :: "'ma esys \<Rightarrow> bool" where
  "lock_inv s \<longleftrightarrow> length (filter holds_lock (cbs s)) = (if le_writer (el s) then 1 else 0)
     \<and> length (filter (\<lambda>l. l = LdRead) (lds s)) = le_readers (el s) \<and> (le_writer (el s) \<longrightarrow> le_readers (el s) = 0)"

definition channel_inv :: "'ma esys \<Rightarrow> bool" where
  "channel_inv s \<longleftrightarrow> (\<forall>c \<in> set (cbs s). past_channel c \<longrightarrow> le_closed (el s)) \<and> (\<forall>l \<in> set (lds s). l \<noteq> LdWait \<longrightarrow> le_closed (el s))"

definition id_inv :: "('ma, 'rl) el_deps \<Rightarrow> 'ma esys \<Rightarrow> bool" where
  "id_inv D s \<longleftrightarrow> (\<forall>c \<in> set (cbs s). known D c) \<and> (le_id (el s) = [] \<or> elected s (le_id (el s)))
     \<and> (\<forall>r. LdDone r \<in> set (lds s) \<longrightarrow> (\<exists>ident. r = NewMultiaddr D ident \<and> (ident = [] \<or> elected s ident)))"

lemma length_filter_update:
  "i < length xs \<Longrightarrow> length (filter P (xs[i := y])) + (if P (xs ! i) then 1 else 0) = length (filter P xs) + (if P y then 1 else 0)"
proof (induction xs arbitrary: i)
  case (Cons x xs)
  then show ?case by (cases i) auto
qed simp

lemma filter_mem_pos: "i < length xs \<Longrightarrow> P (xs ! i) \<Longrightarrow> 0 < length (filter P xs)"
  by (metis filter_empty_conv length_greater_0_conv nth_mem)

lemma lock_inv_step: "estep D s s' \<Longrightarrow> lock_inv s \<Longrightarrow> lock_inv s'"
proof (induction rule: estep.induct)
  case (callback_step i s le pc)
  note u = length_filter_update [OF callback_step(1), of holds_lock pc]
  show ?case
    using callback_step u filter_mem_pos [OF callback_step(1), of holds_lock]
    by (cases "cbs s ! i") (auto simp: onNewLeader_def lock_inv_def split: if_splits)
next
  case (leader_step i s le pc)
  note u = length_filter_update [OF leader_step(1), of "\<lambda>l. l = LdRead" pc]
  show ?case
    using leader_step u filter_mem_pos [OF leader_step(1), of "\<lambda>l. l = LdRead"]
    by (cases "lds s ! i") (auto simp: Leader_def lock_inv_def split: if_splits)
qed (auto simp: lock_inv_def)

text \<open>What one step of a call does.\<close>

lemma onNewLeader_step:
  assumes "onNewLeader D le c = Some (le', c')"
  shows "le_closed le \<longrightarrow> le_closed le'" "past_channel c' \<longrightarrow> past_channel c \<or> le_closed le'" "known D c \<longrightarrow> known D c'"
    "le_id le' = le_id le \<or> c' = CbDone (le_id le')" "c \<noteq> CbDone ident"
  using assms by (cases c; auto simp: onNewLeader_def split: if_splits)+

lemma Leader_step:
  assumes "Leader D le c = Some (le', c')"
  shows "le_closed le' = le_closed le" "c \<noteq> LdWait \<or> le_closed le" "le_id le' = le_id le" "c' \<noteq> LdWait"
    "c' = LdDone r \<longrightarrow> r = NewMultiaddr D (le_id le)"
  using assms by (cases c; auto simp: Leader_def split: if_splits)+

lemma set_update_cases: "x \<in> set (xs[i := y]) \<Longrightarrow> x = y \<or> x \<in> set xs"
  using set_update_subset_insert [of xs i y] by blast

lemma channel_inv_step: "estep D s s' \<Longrightarrow> channel_inv s \<Longrightarrow> channel_inv s'"
proof (induction rule: estep.induct)
  case (callback_step i s le pc)
  note st = onNewLeader_step [OF callback_step(2)]
  have "past_channel (cbs s ! i) \<longrightarrow> le_closed (el s)"
    using callback_step(1,3) nth_mem by (auto simp: channel_inv_def)
  then show ?case
    using callback_step(3) st(1,2) by (auto simp: channel_inv_def dest!: set_update_cases)
next
  case (leader_step i s le pc)
  note st = Leader_step [OF leader_step(2)]
  have "lds s ! i \<noteq> LdWait \<longrightarrow> le_closed (el s)"
    using leader_step(1,3) nth_mem by (auto simp: channel_inv_def)
  then show ?case
    using leader_step(3) st(1,2) by (auto simp: channel_inv_def dest!: set_update_cases)
qed (auto simp: channel_inv_def)

lemma elected_update:
  assumes "i < length (cbs s)" "\<And>ident. cbs s ! i \<noteq> CbDone ident" "elected s ident"
  shows "elected (s\<lparr>el := le, cbs := (cbs s)[i := pc]\<rparr>) ident"
proof -
  from assms(3) obtain j where j: "j < length (cbs s)" "cbs s ! j = CbDone ident"
    by (auto simp: elected_def in_set_conv_nth)
  with assms(2) have "(cbs s)[i := pc] ! j = CbDone ident" by (metis nth_list_update_neq)
  with j(1) show ?thesis
    unfolding elected_def by (metis esys.select_convs(2) esys.surjective esys.update_convs(2) length_list_update nth_mem)
qed

lemma id_inv_step: "estep D s s' \<Longrightarrow> id_inv D s \<Longrightarrow> id_inv D s'"
proof (induction rule: estep.induct)
  case (callback_step i s le pc)
  let ?s = "s\<lparr>el := le, cbs := (cbs s)[i := pc]\<rparr>"
  note st = onNewLeader_step [OF callback_step(2)]
  have "known D (cbs s ! i)"
    using callback_step(1,3) by (simp add: id_inv_def)
  then have 1: "\<forall>c \<in> set (cbs ?s). known D c"
    using callback_step(3) st(3) by (auto simp: id_inv_def dest!: set_update_cases)
  have mono: "elected s ident \<Longrightarrow> elected ?s ident" for ident
    by (rule elected_update [OF callback_step(1) st(5)])
  have "pc = CbDone ident \<Longrightarrow> elected ?s ident" for ident
    using callback_step(1) by (simp add: elected_def set_update_memI)
  then have 2: "le_id le = [] \<or> elected ?s (le_id le)"
    using st(4) callback_step(3) mono by (auto simp: id_inv_def)
  have "\<exists>ident. r = NewMultiaddr D ident \<and> (ident = [] \<or> elected ?s ident)" if "LdDone r \<in> set (lds s)" for r
    using that callback_step(3) mono unfolding id_inv_def by metis
  with 1 2 show ?case
    by (auto simp: id_inv_def)
next
  case (leader_step i s le pc)
  note st = Leader_step [OF leader_step(2)]
  show ?case
    using leader_step(3) st(3,5) by (auto simp: id_inv_def elected_def dest!: set_update_cases)
qed (auto simp: id_inv_def elected_def)

interpretation es: invariant_system "estep D" "\<lambda>s. lock_inv s \<and> channel_inv s \<and> id_inv D s" for D
  by unfold_locales (blast intro: lock_inv_step channel_inv_step id_inv_step)

lemma ereach_inv: "ereach D (new_esys name namespace) s \<Longrightarrow> lock_inv s \<and> channel_inv s \<and> id_inv D s"
  by (erule es.reach_inv) (simp add: new_esys_def New_def lock_inv_def channel_inv_def id_inv_def)

section \<open>Properties\<close>

text \<open>C17: whatever the interleaving, a call of \<open>Leader\<close> returns only after the channel was closed, and its
  result comes from an identity that a callback has stored, never the one that stands for no leader, or
  from the empty identity the election starts with; the lock keeps writers and readers apart.\<close>

theorem Leader_reports_elected:
  assumes "ereach D (new_esys name namespace) s"
  shows "(\<forall>r. LdDone r \<in> set (lds s) \<longrightarrow> le_closed (el s)
        \<and> (\<exists>ident. r = NewMultiaddr D ident \<and> (ident = [] \<or> elected s ident \<and> ident \<noteq> UnknownLeader D)))
    \<and> length (filter holds_lock (cbs s)) \<le> 1 \<and> ((\<exists>c \<in> set (cbs s). holds_lock c) \<longrightarrow> LdRead \<notin> set (lds s))"
proof (intro conjI allI impI)
  note inv = ereach_inv [OF assms]
  show "le_closed (el s)" if "LdDone r \<in> set (lds s)" for r
    using inv that by (auto simp: channel_inv_def)
  show "\<exists>ident. r = NewMultiaddr D ident \<and> (ident = [] \<or> elected s ident \<and> ident \<noteq> UnknownLeader D)"
    if "LdDone r \<in> set (lds s)" for r
  proof -
    from inv that obtain ident where "r = NewMultiaddr D ident" "ident = [] \<or> elected s ident"
      unfolding id_inv_def by blast
    moreover have "elected s ident \<longrightarrow> ident \<noteq> UnknownLeader D"
      using inv by (auto simp: id_inv_def elected_def)
    ultimately show ?thesis by blast
  qed
  show "length (filter holds_lock (cbs s)) \<le> 1"
    using inv by (simp add: lock_inv_def)
  assume "\<exists>c \<in> set (cbs s). holds_lock c"
  then have "filter holds_lock (cbs s) \<noteq> []" by (auto simp: filter_empty_conv)
  with inv have "le_writer (el s)" by (auto simp: lock_inv_def split: if_splits)
  with inv have "filter (\<lambda>l. l = LdRead) (lds s) = []" by (auto simp: lock_inv_def)
  then show "LdRead \<notin> set (lds s)" by (auto simp: filter_empty_conv)
qed

text \<open>The calls of a state that are not over can always move on once a leader is known.\<close>

definition can_move :: "('ma, 'rl) el_deps \<Rightarrow> 'ma esys \<Rightarrow> bool" where
  "can_move D s \<longleftrightarrow> (\<exists>i < length (cbs s). onNewLeader D (el s) (cbs s ! i) \<noteq> None) \<or> (\<exists>i < length (lds s). Leader D (el s) (lds s ! i) \<noteq> None)"

fun ld_over :: "'ma leader_call \<Rightarrow> bool" where
  "ld_over (LdDone r) = True"
| "ld_over _ = False"

text \<open>C18: the election never deadlocks: in every reachable state in which the channel is closed, either
  every call is over or some call can take its next step.\<close>

theorem election_no_deadlock:
  assumes "ereach D (new_esys name namespace) s" "le_closed (el s)"
  shows "list_all cb_over (cbs s) \<and> list_all ld_over (lds s) \<or> can_move D s"
proof -
  note inv = ereach_inv [OF assms(1)]
  show ?thesis
  proof (cases "le_writer (el s)")
    case True
    then have "length (filter holds_lock (cbs s)) = 1" using inv by (simp add: lock_inv_def)
    then obtain c where "c \<in> set (cbs s)" "holds_lock c"
      by (metis One_nat_def filter_empty_conv list.size(3) zero_neq_one)
    moreover from this(2) have "onNewLeader D (el s) c \<noteq> None"
      by (cases c) (simp_all add: onNewLeader_def)
    ultimately show ?thesis unfolding can_move_def by (metis in_set_conv_nth)
  next
    case w: False
    show ?thesis
    proof (cases "LdRead \<in> set (lds s)")
      case True
      then obtain i where "i < length (lds s)" "lds s ! i = LdRead" by (auto simp: in_set_conv_nth)
      then show ?thesis by (auto simp: can_move_def Leader_def intro!: exI [of _ i])
    next
      case False
      then have "filter (\<lambda>l. l = LdRead) (lds s) = []" by (auto simp: filter_empty_conv)
      with inv have r: "le_readers (el s) = 0" by (simp add: lock_inv_def)
      have "onNewLeader D (el s) c \<noteq> None" if "\<not> cb_over c" for c
        using that w r by (cases c) (auto simp: onNewLeader_def)
      moreover have "Leader D (el s) l \<noteq> None" if "\<not> ld_over l" for l
        using that w assms(2) by (cases l) (auto simp: Leader_def)
      ultimately show ?thesis
        unfolding can_move_def list_all_length by blast
    qed
  qed
qed

text \<open>With the callbacks one at a time the channel is closed once.\<close>

lemma sreach_ereach: "sreach D s0 s \<Longrightarrow> ereach D s0 s"
  by (induction rule: sreach.induct) (blast intro: reach.intros estep.intros)+

definition seq_inv :: "'ma esys \<Rightarrow> bool" where
  "seq_inv s \<longleftrightarrow> (\<forall>p. CbPanic p \<notin> set (cbs s)) \<and> length (filter (\<lambda>c. \<not> cb_over c) (cbs s)) \<le> 1
     \<and> (\<forall>ident. CbClose ident \<in> set (cbs s) \<longrightarrow> \<not> le_closed (el s))"

lemma single_running:
  assumes "length (filter (\<lambda>c. \<not> cb_over c) cs) \<le> 1" "i < length cs" "\<not> cb_over (cs ! i)" "x \<in> set (cs[i := y])" "x \<noteq> y"
  shows "cb_over x"
proof (rule ccontr)
  assume x: "\<not> cb_over x"
  from assms(4,5) obtain j where j: "j < length cs" "j \<noteq> i" "x = cs ! j"
    by (metis in_set_conv_nth length_list_update nth_list_update_eq nth_list_update_neq)
  have "{i, j} \<subseteq> {k. k < length cs \<and> \<not> cb_over (cs ! k)}"
    using assms(2,3) j x by auto
  then have "card {i, j} \<le> card {k. k < length cs \<and> \<not> cb_over (cs ! k)}"
    by (intro card_mono) auto
  then show False
    using assms(1) j(2) by (simp add: length_filter_conv_card)
qed

lemma sreach_inv:
  assumes "sreach D (new_esys name namespace) s"
  shows "seq_inv s"
  using assms
proof (induction rule: sreach.induct)
  case sinit
  show ?case by (simp add: new_esys_def seq_inv_def)
next
  case (sreported s ident)
  then have "filter (\<lambda>c. \<not> cb_over c) (cbs s) = []" by (simp add: filter_empty_conv list_all_iff)
  with sreported show ?case by (auto simp: seq_inv_def)
next
  case (scallback s i le pc)
  have run: "\<not> cb_over (cbs s ! i)"
    using scallback(3) by (cases "cbs s ! i") (auto simp: onNewLeader_def)
  have mem: "cbs s ! i \<in> set (cbs s)" using scallback(2) by simp
  have others: "cb_over x" if "x \<in> set ((cbs s)[i := pc])" "x \<noteq> pc" for x
    by (rule single_running [OF _ scallback(2) run that]) (use scallback.IH in \<open>simp add: seq_inv_def\<close>)
  have pc: "\<not> (\<exists>p. pc = CbPanic p)" "(\<exists>ident. pc = CbClose ident) \<longrightarrow> \<not> le_closed le"
    using scallback(3) scallback.IH mem by (cases "cbs s ! i"; auto simp: onNewLeader_def seq_inv_def split: if_splits)+
  have "length (filter (\<lambda>c. \<not> cb_over c) ((cbs s)[i := pc])) \<le> 1"
    using length_filter_update [OF scallback(2), of "\<lambda>c. \<not> cb_over c" pc] run scallback.IH
    by (simp add: seq_inv_def split: if_splits)
  moreover have "CbPanic p \<notin> set ((cbs s)[i := pc])" for p
    using pc(1) scallback.IH by (auto simp: seq_inv_def dest!: set_update_cases)
  moreover have "\<not> le_closed le" if "CbClose ident \<in> set ((cbs s)[i := pc])" for ident
    using others [OF that] pc(2) by auto
  ultimately show ?case by (simp add: seq_inv_def)
next
  case (sleader s i le pc)
  then show ?case
    using Leader_step(1) [OF sleader(3)] by (simp add: seq_inv_def)
qed (simp add: seq_inv_def)

text \<open>If the callbacks run one at a time, none of them panics: the channel is closed at most once.\<close>

theorem sequential_callbacks_safe:
  assumes "sreach D (new_esys name namespace) s"
  shows "CbPanic p \<notin> set (cbs s)"
  using sreach_inv [OF assms] by (simp add: seq_inv_def)

section \<open>Races\<close>

lemma callback_run:
  assumes "sreach D s0 s" "cbs s = [c]" "onNewLeader D (el s) c = Some (le, c')"
  shows "sreach D s0 (s\<lparr>el := le, cbs := [c']\<rparr>)"
  using sreach.scallback [OF assms(1), of 0 le c'] assms(2,3) by simp

lemma leader_run:
  assumes "sreach D s0 s" "lds s = [l]" "Leader D (el s) l = Some (le, l')"
  shows "sreach D s0 (s\<lparr>el := le, lds := [l']\<rparr>)"
  using sreach.sleader [OF assms(1), of 0 le l'] assms(2,3) by simp

lemma race_unset:
  assumes "ident \<noteq> UnknownLeader D"
  shows "\<exists>s. sreach D (new_esys name namespace) s \<and> cbs s = [CbLock ident] \<and> lds s = [LdDone (NewMultiaddr D [])]"
proof -
  let ?le = "New name namespace" and ?start = "new_esys name namespace"
  let ?s = "\<lambda>le c l. \<lparr>el = le, cbs = [c], lds = [l]\<rparr>"
  have "sreach D ?start (?s ?le (CbStart ident) LdWait)"
    using sreach.sasked [OF sreach.sreported [where s = ?start and ident = ident, OF sreach.sinit]] by (simp add: new_esys_def)
  from callback_run [OF this] have "sreach D ?start (?s ?le (CbClose ident) LdWait)"
    using assms by (simp add: onNewLeader_def New_def)
  from callback_run [OF this] have "sreach D ?start (?s (?le\<lparr>le_closed := True\<rparr>) (CbLock ident) LdWait)"
    by (simp add: onNewLeader_def New_def)
  from leader_run [OF this] have "sreach D ?start (?s (?le\<lparr>le_closed := True\<rparr>) (CbLock ident) LdLock)"
    by (simp add: Leader_def)
  from leader_run [OF this] have "sreach D ?start (?s (?le\<lparr>le_closed := True, le_readers := 1\<rparr>) (CbLock ident) LdRead)"
    by (simp add: Leader_def New_def)
  from leader_run [OF this] have "sreach D ?start (?s (?le\<lparr>le_closed := True\<rparr>) (CbLock ident) (LdDone (NewMultiaddr D [])))"
    by (simp add: Leader_def New_def)
  then show "\<exists>s. sreach D ?start s \<and> cbs s = [CbLock ident] \<and> lds s = [LdDone (NewMultiaddr D [])]"
    by (intro exI conjI) (assumption, simp_all)
qed

lemma race_close:
  assumes "ident \<noteq> UnknownLeader D" "ident' \<noteq> UnknownLeader D"
  shows "\<exists>s. ereach D (new_esys name namespace) s \<and> cbs s = [CbLock ident, CbPanic CloseOfClosedChannel]"
proof -
  let ?le = "New name namespace" and ?start = "new_esys name namespace"
  let ?s = "\<lambda>le c c'. \<lparr>el = le, cbs = [c, c'], lds = []\<rparr>"
  have "estep D ?start (?start\<lparr>cbs := [CbStart ident]\<rparr>)" "estep D (?start\<lparr>cbs := [CbStart ident]\<rparr>) (?s ?le (CbStart ident) (CbStart ident'))"
    using estep.reported [of D ?start ident] estep.reported [of D "?start\<lparr>cbs := [CbStart ident]\<rparr>" ident'] by (simp_all add: new_esys_def)
  then have "ereach D ?start (?s ?le (CbStart ident) (CbStart ident'))"
    by (blast intro: reach.intros)
  moreover have "estep D (?s ?le (CbStart ident) (CbStart ident')) (?s ?le (CbClose ident) (CbStart ident'))"
    using estep.callback_step [of 0 "?s ?le (CbStart ident) (CbStart ident')" D ?le "CbClose ident"] assms(1)
    by (simp add: onNewLeader_def New_def)
  moreover have "estep D (?s ?le (CbClose ident) (CbStart ident')) (?s ?le (CbClose ident) (CbClose ident'))"
    using estep.callback_step [of 1 "?s ?le (CbClose ident) (CbStart ident')" D ?le "CbClose ident'"] assms(2)
    by (simp add: onNewLeader_def New_def)
  moreover have "estep D (?s ?le (CbClose ident) (CbClose ident')) (?s (?le\<lparr>le_closed := True\<rparr>) (CbLock ident) (CbClose ident'))"
    using estep.callback_step [of 0 "?s ?le (CbClose ident) (CbClose ident')" D "?le\<lparr>le_closed := True\<rparr>" "CbLock ident"]
    by (simp add: onNewLeader_def New_def)
  moreover have "estep D (?s (?le\<lparr>le_closed := True\<rparr>) (CbLock ident) (CbClose ident'))
      (?s (?le\<lparr>le_closed := True\<rparr>) (CbLock ident) (CbPanic CloseOfClosedChannel))"
    using estep.callback_step [of 1 "?s (?le\<lparr>le_closed := True\<rparr>) (CbLock ident) (CbClose ident')" D "?le\<lparr>le_closed := True\<rparr>" "CbPanic CloseOfClosedChannel"]
    by (simp add: onNewLeader_def)
  ultimately have "ereach D ?start (?s (?le\<lparr>le_closed := True\<rparr>) (CbLock ident) (CbPanic CloseOfClosedChannel))"
    by (blast intro: reach_step)
  then show "\<exists>s. ereach D ?start s \<and> cbs s = [CbLock ident, CbPanic CloseOfClosedChannel]"
    by (intro exI conjI) (assumption, simp_all)
qed

text \<open>C35: the channel is closed before the identity is stored. Even with a single callback, a call of
  \<open>Leader\<close> that waited for it can therefore return the result for the empty identity; and two
  callbacks that run at the same time can both find the channel open, and the second one that closes
  it panics.\<close>

theorem election_races:
  assumes "ident \<noteq> UnknownLeader D" "ident' \<noteq> UnknownLeader D"
  shows "(\<exists>s. sreach D (new_esys name namespace) s \<and> cbs s = [CbLock ident] \<and> lds s = [LdDone (NewMultiaddr D [])])
    \<and> (\<exists>s. ereach D (new_esys name namespace) s \<and> cbs s = [CbLock ident, CbPanic CloseOfClosedChannel])"
  using race_unset [OF assms(1)] race_close [OF assms] by blast

section \<open>An election\<close>

definition demo_el :: "(string, unit) el_deps" where
  "demo_el = \<lparr>UnknownLeader = [], NewMultiaddr = (\<lambda>s. if s = [] then Inl (LibError ''empty multiaddr'') else Inr s),
     resourcelock_New = (\<lambda>_ _ _. Inr ())\<rparr>"

theorem election_races_witness:
  "\<exists>s. sreach demo_el (new_esys ''election'' ''ns'') s \<and> lds s = [LdDone (Inl (LibError ''empty multiaddr''))]"
  using election_races [of "''/ip4/10.0.0.1''" demo_el "''/ip4/10.0.0.2''" "''election''" "''ns''"]
  by (auto simp: demo_el_def)

lemma demo_race: "\<exists>s. sreach demo_el (new_esys ''election'' ''ns'') s \<and> cbs s = [CbLock ''/ip4/10.0.0.1''] \<and> lds s = [LdDone (NewMultiaddr demo_el [])]"
  by (rule race_unset) (simp add: demo_el_def)

theorem Leader_reports_elected_witness:
  "\<exists>s. ereach demo_el (new_esys ''election'' ''ns'') s \<and> lds s = [LdDone (NewMultiaddr demo_el [])] \<and> le_closed (el s)"
proof -
  from demo_race obtain s where s: "sreach demo_el (new_esys ''election'' ''ns'') s" "lds s = [LdDone (NewMultiaddr demo_el [])]"
    by blast
  note r = sreach_ereach [OF s(1)]
  have "LdDone (NewMultiaddr demo_el []) \<in> set (lds s)"
    by (simp add: s(2))
  from conjunct1 [OF Leader_reports_elected [OF r], THEN spec, THEN mp, OF this] have "le_closed (el s)"
    by (rule conjunct1)
  with r s(2) show ?thesis by (intro exI [of _ s] conjI)
qed

theorem election_no_deadlock_witness:
  "\<exists>s. ereach demo_el (new_esys ''election'' ''ns'') s \<and> le_closed (el s) \<and> can_move demo_el s"
proof -
  from demo_race obtain s where s: "sreach demo_el (new_esys ''election'' ''ns'') s" "cbs s = [CbLock ''/ip4/10.0.0.1'']"
    by blast
  note r = sreach_ereach [OF s(1)]
  have "le_closed (el s)"
    using ereach_inv [OF r] s(2) by (simp add: channel_inv_def)
  with election_no_deadlock [OF r] s(2) r show ?thesis by auto
qed

theorem sequential_callbacks_safe_witness:
  "\<exists>s. sreach demo_el (new_esys ''election'' ''ns'') s \<and> cbs s \<noteq> [] \<and> CbPanic CloseOfClosedChannel \<notin> set (cbs s)"
proof -
  from demo_race obtain s where s: "sreach demo_el (new_esys ''election'' ''ns'') s" "cbs s = [CbLock ''/ip4/10.0.0.1'']"
    by blast
  show ?thesis
    by (rule exI [of _ s]) (use s sequential_callbacks_safe [OF s(1), of CloseOfClosedChannel] in simp)
qed

text \<open>The elector accepts the configuration: its documented condition is that a lease lasts longer than
  the deadline for renewing it, which in turn exceeds the retry period with its jitter of a factor 1.2.\<close>

lemma leaderElectionConfig_valid:
  "RenewDeadline (leaderElectionConfig rl) < LeaseDuration (leaderElectionConfig rl)
   \<and> 12 * RetryPeriod (leaderElectionConfig rl) < 10 * RenewDeadline (leaderElectionConfig rl)"
  by (simp add: leaderElectionConfig_def)

end
