(* ===== verification/K8s.thy ===== *)
theory K8s
  imports GoLib
begin

text \<open>
  \<open>pkg/k8s/k8s.go\<close> and \<open>pkg/k8s/events\<close>: the client of the cluster and the events that report the state
  of this instance. The Kubernetes client library, the environment and the mounted service account are
  arguments (\<open>k8s_deps\<close>); a context carries the event recorder or nothing.
\<close>

section \<open>The client\<close>

record node =
  n_Name :: string
  n_UID :: string
  n_APIVersion :: string

record pod =
  p_Name :: string
  p_Namespace :: string
  p_UID :: string
  p_APIVersion :: string

record ('cfg, 'cs) k8s_deps =
  InClusterConfig :: "goerr + 'cfg"
  BuildConfigFromFlags :: "string \<Rightarrow> string \<Rightarrow> goerr + 'cfg"
  NewForConfig :: "'cfg \<Rightarrow> goerr + 'cs"
  Getenv :: "string \<Rightarrow> string"
  ReadFile :: "string \<Rightarrow> goerr + string"
  Nodes_Get :: "'cs \<Rightarrow> string \<Rightarrow> goerr + node"
  Pods_Get :: "'cs \<Rightarrow> string \<Rightarrow> string \<Rightarrow> goerr + pod"

record 'cs ClientSet =
  Interface :: 'cs
  InPod :: bool
  Namespace :: string
  cs_Name :: string

definition peerdDefaultNamespace :: string where
  "peerdDefaultNamespace = ''peerd-ns''"

definition getPodNamespace :: "('cfg, 'cs) k8s_deps \<Rightarrow> string" where
  "getPodNamespace K =
     (let namespace = Getenv K ''NAMESPACE'' in
      if namespace \<noteq> [] then namespace
      else case ReadFile K ''/var/run/secrets/kubernetes.io/serviceaccount/namespace'' of
          Inr namespaceBytes \<Rightarrow> namespaceBytes
        | Inl err \<Rightarrow> peerdDefaultNamespace)"

definition NewKubernetesInterface :: "('cfg, 'cs) k8s_deps \<Rightarrow> string \<Rightarrow> string \<Rightarrow> goerr + 'cs ClientSet" where
  "NewKubernetesInterface K kubeConfigPath name =
     (case (case InClusterConfig K of
              Inl err \<Rightarrow> (case BuildConfigFromFlags K [] kubeConfigPath of
                  Inl err \<Rightarrow> Inl err
                | Inr config \<Rightarrow> Inr (config, False, peerdDefaultNamespace))
            | Inr config \<Rightarrow> Inr (config, True, getPodNamespace K)) of
        Inl err \<Rightarrow> Inl err
      | Inr (config, inPod, namespace) \<Rightarrow> (case NewForConfig K config of
            Inl err \<Rightarrow> Inl err
          | Inr clientset \<Rightarrow> Inr \<lparr>Interface = clientset, InPod = inPod, Namespace = namespace, cs_Name = name\<rparr>))"

section \<open>Events\<close>

record ObjectReference =
  o_Kind :: string
  o_Name :: string
  o_Namespace :: string
  o_UID :: string
  o_APIVersion :: string

record eventRecorder =
  objRef :: ObjectReference
  sinkNamespace :: string

datatype event_type = EventTypeNormal | EventTypeWarning

record event =
  ev_object :: ObjectReference
  ev_type :: event_type
  ev_reason :: string
  ev_message :: string

definition NewRecorder :: "('cfg, 'cs) k8s_deps \<Rightarrow> 'cs ClientSet \<Rightarrow> goerr + eventRecorder" where
  "NewRecorder K k =
     (case (if \<not> InPod k then
              (case Nodes_Get K (Interface k) (cs_Name k) of
                 Inl err \<Rightarrow> Inl err
               | Inr n \<Rightarrow> Inr \<lparr>o_Kind = ''Node'', o_Name = n_Name n, o_Namespace = [], o_UID = n_UID n, o_APIVersion = n_APIVersion n\<rparr>)
            else
              (case Pods_Get K (Interface k) (Namespace k) (cs_Name k) of
                 Inl err \<Rightarrow> Inl err
               | Inr p \<Rightarrow> Inr \<lparr>o_Kind = ''Pod'', o_Name = p_Name p, o_Namespace = p_Namespace p, o_UID = p_UID p,
                                o_APIVersion = p_APIVersion p\<rparr>)) of
        Inl err \<Rightarrow> Inl err
      | Inr ref \<Rightarrow> Inr \<lparr>objRef = ref, sinkNamespace = Namespace k\<rparr>)"

text \<open>A context with the recorder it carries, and the panic of a failed type assertion without one.\<close>

definition WithContext :: "('cfg, 'cs) k8s_deps \<Rightarrow> 'cs ClientSet \<Rightarrow> goerr + eventRecorder option" where
  "WithContext K k = (case NewRecorder K k of Inl err \<Rightarrow> Inl err | Inr er \<Rightarrow> Inr (Some er))"

definition FromContext :: "eventRecorder option \<Rightarrow> eventRecorder outcome" where
  "FromContext ctx = (case ctx of None \<Rightarrow> Panic InterfaceConversion | Some er \<Rightarrow> Ret er)"

definition Eventf :: "eventRecorder \<Rightarrow> event_type \<Rightarrow> string \<Rightarrow> string \<Rightarrow> event" where
  "Eventf er t reason msg = \<lparr>ev_object = objRef er, ev_type = t, ev_reason = reason, ev_message = msg @ o_Name (objRef er)\<rparr>"

definition er_Active :: "eventRecorder \<Rightarrow> event" where
  "er_Active er = Eventf er EventTypeNormal ''P2PActive'' ''P2P proxy is active on instance ''"

definition er_Connected :: "eventRecorder \<Rightarrow> event" where
  "er_Connected er = Eventf er EventTypeNormal ''P2PConnected'' ''P2P proxy is connected to cluster on instance ''"

definition er_Disconnected :: "eventRecorder \<Rightarrow> event" where
  "er_Disconnected er = Eventf er EventTypeWarning ''P2PDisconnected'' ''P2P proxy is disconnected from cluster on instance ''"

definition er_Failed :: "eventRecorder \<Rightarrow> event" where
  "er_Failed er = Eventf er EventTypeWarning ''P2PFailed'' ''P2P proxy failed on instance ''"

definition er_Initializing :: "eventRecorder \<Rightarrow> event" where
  "er_Initializing er = Eventf er EventTypeNormal ''P2PInitializing'' ''P2P proxy is initializing on instance ''"

section \<open>Properties\<close>

lemma NewKubernetesInterface_Inr:
  assumes "NewKubernetesInterface K path name = Inr k"
  shows "InPod k \<longleftrightarrow> (\<exists>cfg. InClusterConfig K = Inr cfg)"
    and "Namespace k = (if InPod k then getPodNamespace K else peerdDefaultNamespace)" and "cs_Name k = name"
    and "\<exists>cfg. NewForConfig K cfg = Inr (Interface k) \<and> (if InPod k then InClusterConfig K = Inr cfg else BuildConfigFromFlags K [] path = Inr cfg)"
  using assms by (auto simp: NewKubernetesInterface_def split: sum.splits)

text \<open>In which namespace events are recorded and about whom. The recorder of a client describes the
  pod this instance runs in when the cluster's own configuration is found, and otherwise the node; its
  events go to the namespace of the environment, of the service account, or the default, in this order
  for a pod, and to the default namespace for a node.\<close>

theorem recorder_identity:
  assumes "NewKubernetesInterface K path name = Inr k" "NewRecorder K k = Inr er"
  shows "o_Kind (objRef er) = (if \<exists>cfg. InClusterConfig K = Inr cfg then ''Pod'' else ''Node'')
    \<and> sinkNamespace er = (if (\<exists>cfg. InClusterConfig K = Inr cfg) then
          (if Getenv K ''NAMESPACE'' \<noteq> [] then Getenv K ''NAMESPACE''
           else case ReadFile K ''/var/run/secrets/kubernetes.io/serviceaccount/namespace'' of Inr ns \<Rightarrow> ns | Inl e \<Rightarrow> ''peerd-ns'')
        else ''peerd-ns'')"
  using NewKubernetesInterface_Inr(1,2) [OF assms(1)] assms(2)
  by (auto simp: NewRecorder_def getPodNamespace_def peerdDefaultNamespace_def Let_def split: sum.splits if_splits)

definition demo_k8s :: "(unit, unit) k8s_deps" where
  "demo_k8s = \<lparr>InClusterConfig = Inl (LibError ''not in cluster''), BuildConfigFromFlags = (\<lambda>_ _. Inr ()), NewForConfig = (\<lambda>_. Inr ()),
     Getenv = (\<lambda>_. []), ReadFile = (\<lambda>_. Inl ErrNotExist),
     Nodes_Get = (\<lambda>_ n. Inr \<lparr>n_Name = n, n_UID = ''u1'', n_APIVersion = ''v1''\<rparr>), Pods_Get = (\<lambda>_ _ _. Inl ErrNotExist)\<rparr>"

theorem recorder_identity_witness:
  "\<exists>k er. NewKubernetesInterface demo_k8s ''/opt/peerd/kubeconfig'' ''node1'' = Inr k \<and> NewRecorder demo_k8s k = Inr er
     \<and> o_Kind (objRef er) = ''Node'' \<and> sinkNamespace er = ''peerd-ns''"
proof -
  let ?k = "\<lparr>Interface = (), InPod = False, Namespace = ''peerd-ns'', cs_Name = ''node1''\<rparr>"
  have 1: "NewKubernetesInterface demo_k8s ''/opt/peerd/kubeconfig'' ''node1'' = Inr ?k"
    by (simp add: NewKubernetesInterface_def demo_k8s_def peerdDefaultNamespace_def)
  obtain er where 2: "NewRecorder demo_k8s ?k = Inr er"
    by (simp add: NewRecorder_def demo_k8s_def)
  from recorder_identity [OF 1 2] 1 2 show ?thesis
    by (auto simp: demo_k8s_def)
qed

end
