(* ===== verification/Peernet.thy ===== *)
theory Peernet
  imports GoLib
begin

text \<open>
  \<open>pkg/peernet/network.go\<close>: the TLS configurations and HTTP clients for talking to peers. Keys,
  identities and certificates belong to libp2p and are arguments (\<open>p2p_deps\<close>). Of \<open>crypto/tls\<close> the
  model has how a client decides on the certificates a server presents.
\<close>

section \<open>Definitions\<close>

datatype client_auth = NoClientCert | RequireAndVerifyClientCert

text \<open>\<open>'c\<close> are certificates; \<open>VerifyPeerCertificate\<close> returns the error it rejects them with.\<close>

record 'c tls_Config =
  Certificates :: "'c list"
  ClientAuth :: client_auth
  VerifyPeerCertificate :: "('c list \<Rightarrow> goerr option) option"
  InsecureSkipVerify :: bool

record 'c Transport =
  TLSClientConfig :: "'c tls_Config"
  MaxConnsPerHost :: int

text \<open>A client without a transport of its own uses the default transport of \<open>net/http\<close>. The timeout is
  in seconds.\<close>

record 'c Client =
  cl_Transport :: "'c Transport option"
  cl_Timeout :: int

record ('k, 'i, 'c) p2p_deps =
  NewIdentity :: "'k \<Rightarrow> goerr + 'i"
  ConfigForPeer :: "'i \<Rightarrow> string \<Rightarrow> 'c tls_Config"

record ('i, 'c) network =
  net_id :: 'i
  defaultTLSConfig :: "'c tls_Config"
  defaultTransport :: "'c Transport"

definition defaultTimeout :: int where
  "defaultTimeout = 90"

definition defaultHttpClient :: "'c Client" where
  "defaultHttpClient = \<lparr>cl_Transport = None, cl_Timeout = defaultTimeout\<rparr>"

definition DefaultTLSConfig :: "('i, 'c) network \<Rightarrow> 'c tls_Config" where
  "DefaultTLSConfig n = defaultTLSConfig n"

definition transportFor :: "('k, 'i, 'c) p2p_deps \<Rightarrow> ('i, 'c) network \<Rightarrow> string \<Rightarrow> 'c Transport" where
  "transportFor P n pid =
     (if pid = [] then defaultTransport n
      else let p2pTlsConfigForPeer = ConfigForPeer P (net_id n) pid in
        \<lparr>TLSClientConfig = \<lparr>Certificates = Certificates p2pTlsConfigForPeer, ClientAuth = RequireAndVerifyClientCert,
            VerifyPeerCertificate = VerifyPeerCertificate p2pTlsConfigForPeer, InsecureSkipVerify = True\<rparr>,
         MaxConnsPerHost = 100\<rparr>)"

definition HTTPClientFor :: "('k, 'i, 'c) p2p_deps \<Rightarrow> ('i, 'c) network \<Rightarrow> string \<Rightarrow> 'c Client" where
  "HTTPClientFor P n pid =
     (if pid = [] then defaultHttpClient
      else \<lparr>cl_Transport = Some (transportFor P n pid), cl_Timeout = defaultTimeout\<rparr>)"

definition RoundTripperFor :: "('k, 'i, 'c) p2p_deps \<Rightarrow> ('i, 'c) network \<Rightarrow> string \<Rightarrow> 'c Transport" where
  "RoundTripperFor P n pid = (if pid = [] then defaultTransport n else transportFor P n pid)"

text \<open>\<open>privKey\<close> is the key the host's peer store holds for the host itself.\<close>

definition New_network :: "('k, 'i, 'c) p2p_deps \<Rightarrow> 'k \<Rightarrow> goerr + ('i, 'c) network" where
  "New_network P privKey = (case NewIdentity P privKey of
      Inl err \<Rightarrow> Inl err
    | Inr idt \<Rightarrow>
        let tlsConfig = ConfigForPeer P idt [];
            cfg = \<lparr>Certificates = Certificates tlsConfig, ClientAuth = NoClientCert, VerifyPeerCertificate = None, InsecureSkipVerify = False\<rparr>
        in Inr \<lparr>net_id = idt, defaultTLSConfig = cfg, defaultTransport = \<lparr>TLSClientConfig = cfg, MaxConnsPerHost = 100\<rparr>\<rparr>)"

text \<open>\<open>crypto/tls\<close>: the chain is checked against the trusted authorities (\<open>trusted\<close>) unless that is
  skipped, and then by the callback, if there is one.\<close>

definition tls_accepts :: "('c list \<Rightarrow> bool) \<Rightarrow> 'c tls_Config \<Rightarrow> 'c list \<Rightarrow> bool" where
  "tls_accepts trusted cfg certs \<longleftrightarrow> (InsecureSkipVerify cfg \<or> trusted certs)
     \<and> (case VerifyPeerCertificate cfg of None \<Rightarrow> True | Some verify \<Rightarrow> verify certs = None)"

section \<open>Properties\<close>

text \<open>What libp2p documents of the configuration for a peer: it presents the identity's certificate, and
  its callback accepts exactly the certificates of that peer (\<open>peer_of_cert\<close> is the identity in a
  chain), or of any peer if none is named.\<close>

definition p2p_lawful :: "('k, 'i, 'c) p2p_deps \<Rightarrow> ('c list \<Rightarrow> string option) \<Rightarrow> bool" where
  "p2p_lawful P peer_of_cert \<longleftrightarrow> (\<forall>i pid. \<exists>verify. VerifyPeerCertificate (ConfigForPeer P i pid) = Some verify
     \<and> (\<forall>certs. verify certs = None \<longleftrightarrow> (\<exists>q. peer_of_cert certs = Some q \<and> (pid = [] \<or> q = pid))))"


text \<open>Without a peer, no peer is authenticated, and a peer's certificate, which no public authority
  signed, is rejected: the default round tripper accepts exactly the chains that the host's trusted
  authorities vouch for, and none other, although it is meant to work for any peer.\<close>

lemma default_round_tripper:
  assumes "New_network P key = Inr n"
  shows "(tls_accepts trusted (TLSClientConfig (RoundTripperFor P n [])) certs \<longleftrightarrow> trusted certs)
    \<and> HTTPClientFor P n [] = defaultHttpClient"
  using assms by (auto simp: New_network_def RoundTripperFor_def HTTPClientFor_def tls_accepts_def Let_def split: sum.splits)

definition demo_p2p :: "(unit, unit, string) p2p_deps" where
  "demo_p2p = \<lparr>NewIdentity = (\<lambda>_. Inr ()), ConfigForPeer = (\<lambda>_ pid. \<lparr>Certificates = [''self''], ClientAuth = RequireAndVerifyClientCert,
     VerifyPeerCertificate = Some (\<lambda>certs. case certs of [] \<Rightarrow> Some (LibError ''no certificate'')
        | q # _ \<Rightarrow> if pid = [] \<or> q = pid then None else Some (LibError ''unexpected peer'')), InsecureSkipVerify = True\<rparr>)\<rparr>"

definition first_cert :: "string list \<Rightarrow> string option" where
  "first_cert certs = (case certs of [] \<Rightarrow> None | q # _ \<Rightarrow> Some q)"

lemma demo_p2p_lawful: "p2p_lawful demo_p2p first_cert"
  unfolding p2p_lawful_def
proof (intro allI)
  fix i :: unit and pid :: string
  have "(case certs of [] \<Rightarrow> Some (LibError ''no certificate'') | q # _ \<Rightarrow> if pid = [] \<or> q = pid then None else Some (LibError ''unexpected peer'')) = None
     \<longleftrightarrow> (\<exists>q. first_cert certs = Some q \<and> (pid = [] \<or> q = pid))" for certs
    by (cases certs) (simp_all add: first_cert_def)
  then show "\<exists>verify. VerifyPeerCertificate (ConfigForPeer demo_p2p i pid) = Some verify
     \<and> (\<forall>certs. verify certs = None \<longleftrightarrow> (\<exists>q. first_cert certs = Some q \<and> (pid = [] \<or> q = pid)))"
    by (simp add: demo_p2p_def)
qed


end
