(* ===== verification/NetAddr.thy ===== *)
theory NetAddr
  imports GoLib "HOL-Library.Sublist"
begin

text \<open>\<open>net.SplitHostPort\<close>, which the proxy and the router apply to the addresses they are given.\<close>

fun IndexByte :: "string \<Rightarrow> char \<Rightarrow> nat option" where
  "IndexByte [] b = None"
| "IndexByte (c # cs) b = (if c = b then Some 0 else map_option Suc (IndexByte cs b))"

definition SplitHostPort :: "string \<Rightarrow> goerr + string \<times> string" where
  "SplitHostPort hostport = (case LastIndexByte hostport (CHR '':'') of
      None \<Rightarrow> Inl (AddrError ''missing port in address'' hostport)
    | Some i \<Rightarrow>
        case (if hostport ! 0 = CHR ''['' then
                (case IndexByte hostport (CHR '']'') of
                   None \<Rightarrow> Inl ''missing bracket in address''
                 | Some e \<Rightarrow>
                     if e + 1 = length hostport then Inl ''missing port in address''
                     else if e + 1 = i then Inr (take (e - 1) (drop 1 hostport), 1, e + 1)
                     else if hostport ! (e + 1) = CHR '':'' then Inl ''too many colons in address''
                     else Inl ''missing port in address'')
              else if CHR '':'' \<in> set (take i hostport) then Inl ''too many colons in address''
              else Inr (take i hostport, 0, 0)) of
          Inl msg \<Rightarrow> Inl (AddrError msg hostport)
        | Inr (h, j, k) \<Rightarrow>
            if CHR ''['' \<in> set (drop j hostport) then Inl (AddrError ''unexpected bracket in address'' hostport)
            else if CHR '']'' \<in> set (drop k hostport) then Inl (AddrError ''unexpected bracket in address'' hostport)
            else Inr (h, drop (i + 1) hostport))"

lemma LastIndexByte_nth: "LastIndexByte s b = Some i \<Longrightarrow> i < length s \<and> s ! i = b \<and> b \<notin> set (drop (Suc i) s)"
proof (induction s arbitrary: i)
  case (Cons c s)
  have "b \<notin> set s" if "LastIndexByte s b = None"
    using that by (induction s) (auto split: option.splits if_splits)
  with Cons show ?case by (auto split: option.splits if_splits)
qed simp

text \<open>Splitting what was joined gives host and port back, for a host without colons and brackets.\<close>

lemma SplitHostPort_join:
  assumes "set h \<inter> {CHR '':'', CHR ''['', CHR '']''} = {}" "set p \<inter> {CHR '':'', CHR ''['', CHR '']''} = {}"
  shows "SplitHostPort (h @ '':'' @ p) = Inr (h, p)"
proof -
  have l: "LastIndexByte (h @ '':'' @ p) (CHR '':'') = Some (length h)"
    using LastIndexByte_append [of "CHR '':''" p h] assms(2) by auto
  have "(h @ '':'' @ p) ! 0 \<noteq> CHR ''[''"
    using assms(1) by (cases h) auto
  with l assms show ?thesis
    by (auto simp: SplitHostPort_def)
qed

lemma SplitHostPort_parts:
  assumes "SplitHostPort s = Inr (h, p)"
  shows "CHR '':'' \<notin> set p \<and> suffix ('':'' @ p) s"
proof -
  obtain i where i: "LastIndexByte s (CHR '':'') = Some i" "p = drop (i + 1) s"
    using assms by (auto simp: SplitHostPort_def Let_def split: option.splits sum.splits if_splits prod.splits)
  note n = LastIndexByte_nth [OF i(1)]
  then have "drop i s = '':'' @ p"
    using i(2) Cons_nth_drop_Suc [of i s] by simp
  then have "suffix ('':'' @ p) s"
    by (metis suffix_drop)
  with n i(2) show ?thesis by simp
qed

end
