(* ===== verification/RouterInit.thy ===== *)
theory RouterInit
  imports Routing Election K8s Peernet NetAddr
begin

text \<open>
  The construction of the router (\<open>NewRouter\<close>, \<open>newHost\<close> and \<open>createContentId\<close> in
  \<open>pkg/discovery/routing/router.go\<close>). The libp2p host, the hash table, the lookup cache and content
  identifiers are third-party and arguments (\<open>init_deps\<close>); the leader election, the network of HTTP
  clients and the address factory are the models of their packages.
\<close>

section \<open>Definitions\<close>

record cid_Prefix =
  Version :: int
  Codec :: int
  MhType :: int
  MhLength :: int

text \<open>\<open>libp2p_New\<close> makes a host from a listen address and an address factory, \<open>host_Addrs\<close> and
  \<open>host_id\<close> are its advertised addresses, printed, and its id; \<open>dht_New\<close> takes the host and the
  bootstrap callback's answer to a leader; \<open>prefix_Sum\<close> hashes a key.\<close>

record ('ma, 'h, 'k, 'dht, 'lc, 'cid) init_deps =
  libp2p_New :: "'ma \<Rightarrow> ('ma list \<Rightarrow> 'ma list) \<Rightarrow> goerr + 'h"
  host_Addrs :: "'h \<Rightarrow> string list"
  host_id :: "'h \<Rightarrow> string"
  host_Close :: "'h \<Rightarrow> goerr option"
  host_PrivKey :: "'h \<Rightarrow> 'k"
  addr_ip4 :: "'ma \<Rightarrow> goerr + string"
  addrInfo :: "'ma \<Rightarrow> goerr + 'ma addr_info"
  dht_New :: "'h \<Rightarrow> (goerr + 'ma \<Rightarrow> 'ma addr_info list \<times> p2p_event list) \<Rightarrow> goerr + 'dht"
  dht_Bootstrap :: "'dht \<Rightarrow> goerr option"
  lookupCache_New :: "goerr + 'lc"
  prefix_Sum :: "cid_Prefix \<Rightarrow> string \<Rightarrow> goerr + 'cid"

definition createContentId :: "('ma, 'h, 'k, 'dht, 'lc, 'cid) init_deps \<Rightarrow> string \<Rightarrow> goerr + 'cid" where
  "createContentId I key =
     (let pref = \<lparr>Version = 1, Codec = 0x55, MhType = 0x12, MhLength = -1\<rparr> in
      case prefix_Sum I pref key of Inl err \<Rightarrow> Inl err | Inr c \<Rightarrow> Inr c)"

definition newHost :: "('ma, 'h, 'k, 'dht, 'lc, 'cid) init_deps \<Rightarrow> ('ma, 'rl) el_deps \<Rightarrow> string \<Rightarrow> goerr + 'h" where
  "newHost I E addr = (case SplitHostPort addr of
      Inl err \<Rightarrow> Inl err
    | Inr (h, p) \<Rightarrow> (case NewMultiaddr E (''/ip4/'' @ h @ ''/tcp/'' @ p) of
          Inl err \<Rightarrow> Inl (Wrapped ''could not create host multi address'' err)
        | Inr hostAddr \<Rightarrow> libp2p_New I hostAddr (addrs_factory (addr_ip4 I))))"

text \<open>What \<open>NewRouter\<close> has built: the router, its network, the election it follows and the identity it
  runs for.\<close>

record ('h, 'lc, 'cid, 'ma, 'i, 'c, 'rl) built =
  b_host :: 'h
  b_net :: "('lc, 'cid, 'ma) rnet"
  b_p2pnet :: "('i, 'c) network"
  b_election :: leaderElection
  b_config :: "'rl LeaderElectionConfig"
  b_self :: string

definition NewRouter ::
  "('ma, 'h, 'k, 'dht, 'lc, 'cid) init_deps \<Rightarrow> ('ma, 'rl) el_deps \<Rightarrow> ('k, 'i, 'c) p2p_deps \<Rightarrow> 'cs ClientSet \<Rightarrow> string \<Rightarrow> string \<Rightarrow>
    (goerr + ('h, 'lc, 'cid, 'ma, 'i, 'c, 'rl) built) outcome" where
  "NewRouter I E P clientset hostAddr port = (case newHost I E hostAddr of
      Inl err \<Rightarrow> Ret (Inl (Wrapped ''could not create host'' err))
    | Inr host \<Rightarrow>
        if host_Addrs I host = [] then Panic IndexOutOfRange
        else
          let self = host_Addrs I host ! 0 @ ''/p2p/'' @ host_id I host;
              leaderElection = New ''peerd-leader-election'' (Namespace clientset)
          in case RunOrDie E leaderElection self of
               Inl err \<Rightarrow> Ret (Inl err)
             | Inr config \<Rightarrow> (case dht_New I host (bootstrap_peers (host_id I host) (addrInfo I)) of
                   Inl err \<Rightarrow> Ret (Inl (Wrapped ''could not create distributed hash table'' err))
                 | Inr kdht \<Rightarrow> (case dht_Bootstrap I kdht of
                       Some err \<Rightarrow> Ret (Inl (Wrapped ''could not boostrap distributed hash table'' err))
                     | None \<Rightarrow> (case lookupCache_New I of
                           Inl err \<Rightarrow> Ret (Inl err)
                         | Inr c \<Rightarrow> (case New_network P (host_PrivKey I host) of
                               Inl err \<Rightarrow> Ret (Inl err)
                             | Inr n \<Rightarrow> Ret (Inr \<lparr>b_host = host, b_net = new_rnet (host_id I host) port c, b_p2pnet = n,
                                   b_election = leaderElection, b_config = config, b_self = self\<rparr>))))))"

definition Net :: "('h, 'lc, 'cid, 'ma, 'i, 'c, 'rl) built \<Rightarrow> ('i, 'c) network" where
  "Net r = b_p2pnet r"

definition Close :: "('ma, 'h, 'k, 'dht, 'lc, 'cid) init_deps \<Rightarrow> ('h, 'lc, 'cid, 'ma, 'i, 'c, 'rl) built \<Rightarrow> goerr option" where
  "Close I r = host_Close I (b_host r)"

section \<open>Properties\<close>

text \<open>What libp2p documents of the address factory: the host advertises what the factory makes of the
  addresses it listens on (\<open>listens\<close>).\<close>

definition factory_used :: "('ma, 'h, 'k, 'dht, 'lc, 'cid) init_deps \<Rightarrow> ('ma \<Rightarrow> string) \<Rightarrow> ('ma \<Rightarrow> 'ma list) \<Rightarrow> bool" where
  "factory_used I show_ma listens \<longleftrightarrow> (\<forall>a f h. libp2p_New I a f = Inr h \<longrightarrow> host_Addrs I h = map show_ma (f (listens a)))"

lemma addrs_factory_iff:
  "addrs_factory ip4 addrs = [] \<longleftrightarrow> (\<forall>a \<in> set addrs. \<forall>v. ip4 a = Inr v \<longrightarrow> v = [] \<or> v = ''127.0.0.1'')"
  by (induction addrs) (auto split: sum.splits)

lemma addrs_factory_Cons:
  "addrs_factory ip4 addrs = m # ms \<Longrightarrow> m \<in> set addrs \<and> (\<exists>v. ip4 m = Inr v \<and> v \<noteq> ''127.0.0.1'')"
  by (induction addrs) (auto split: sum.splits if_splits)

lemma bootstrap_not_self: "ai \<in> set (fst (bootstrap_peers self ai_of leader)) \<Longrightarrow> ai_ID ai \<noteq> self"
  by (auto simp: bootstrap_peers_def split: sum.splits if_splits)

lemma NewRouter_Inr:
  assumes "NewRouter I E P cs addr port = Ret (Inr b)" "newHost I E addr = Inr host"
  shows "host_Addrs I host \<noteq> []" "b_self b = host_Addrs I host ! 0 @ ''/p2p/'' @ host_id I host"
    "host_ID (rtr (b_net b)) = host_id I host" "peerRegistryPort (rtr (b_net b)) = port" "le_ns (b_election b) = Namespace cs"
  using assms by (auto simp: NewRouter_def Let_def new_rnet_def New_def split: if_splits sum.splits option.splits)


section \<open>A router built\<close>

text \<open>A host that listens on one address, given as its text.\<close>

definition demo_init :: "string \<Rightarrow> (string, string list, unit, unit, unit, string) init_deps" where
  "demo_init ip = \<lparr>libp2p_New = (\<lambda>a f. Inr (f [a])), host_Addrs = (\<lambda>h. h), host_id = (\<lambda>_. ''self''), host_Close = (\<lambda>_. None), host_PrivKey = (\<lambda>_. ()),
     addr_ip4 = (\<lambda>_. Inr ip), addrInfo = (\<lambda>a. Inr \<lparr>ai_ID = a, Addrs = [a]\<rparr>), dht_New = (\<lambda>_ _. Inr ()), dht_Bootstrap = (\<lambda>_. None),
     lookupCache_New = Inr (), prefix_Sum = (\<lambda>_ k. Inr k)\<rparr>"

definition demo_clientset :: "unit ClientSet" where
  "demo_clientset = \<lparr>Interface = (), InPod = False, Namespace = ''peerd-ns'', cs_Name = ''node1''\<rparr>"

lemma demo_addr: "SplitHostPort ''10.0.0.5:5003'' = Inr (''10.0.0.5'', ''5003'')"
  by code_simp


end
