(* ===== verification/Metrics.thy ===== *)
theory Metrics
  imports Complex_Main GoLib
begin

text \<open>
  \<open>pkg/metrics\<close>: the histograms and what is observed in them. Histograms and their
  registry belong to the Prometheus client: an observation is recorded with its label values, and the
  constructor of evenly spaced buckets is an argument (\<open>LinearBuckets\<close>). A \<open>float64\<close> is a real number,
  an infinity or not a number; rounding is not modelled.
\<close>

section \<open>Definitions\<close>

datatype gofloat = Finite real | PosInf | NegInf | NaN

text \<open>Division of finite numbers.\<close>

definition fdiv :: "real \<Rightarrow> real \<Rightarrow> gofloat" where
  "fdiv a b = (if b \<noteq> 0 then Finite (a / b) else if a > 0 then PosInf else if a < 0 then NegInf else NaN)"

text \<open>Division by a positive constant.\<close>

fun scale :: "gofloat \<Rightarrow> real \<Rightarrow> gofloat" where
  "scale (Finite a) k = Finite (a / k)"
| "scale f k = f"

record HistogramVec =
  h_Name :: string
  h_Help :: string
  h_Buckets :: "real list"
  h_labels :: "string list"
  observed :: "(string list \<times> gofloat) list"

record promMetrics =
  m_name :: string
  requestDuration :: HistogramVec
  peerDiscoveryDuration :: HistogramVec
  peerResponseSpeed :: HistogramVec
  upstreamResponseSpeed :: HistogramVec

definition observe :: "HistogramVec \<Rightarrow> string list \<Rightarrow> gofloat \<Rightarrow> HistogramVec" where
  "observe h labels v = h\<lparr>observed := observed h @ [(labels, v)]\<rparr>"

definition RecordPeerDiscovery :: "promMetrics \<Rightarrow> string \<Rightarrow> real \<Rightarrow> promMetrics" where
  "RecordPeerDiscovery m ip duration =
     m\<lparr>peerDiscoveryDuration := observe (peerDiscoveryDuration m) [m_name m, ip] (Finite duration)\<rparr>"

definition RecordPeerResponse :: "promMetrics \<Rightarrow> string \<Rightarrow> string \<Rightarrow> string \<Rightarrow> real \<Rightarrow> int \<Rightarrow> promMetrics" where
  "RecordPeerResponse m ip key op duration count =
     (let bps = fdiv (of_int count) duration in
      m\<lparr>peerResponseSpeed := observe (peerResponseSpeed m) [m_name m, ip, op] (scale bps (1024 * 1024))\<rparr>)"

definition RecordRequest :: "promMetrics \<Rightarrow> string \<Rightarrow> string \<Rightarrow> real \<Rightarrow> promMetrics" where
  "RecordRequest m method handler duration =
     m\<lparr>requestDuration := observe (requestDuration m) [m_name m, method, handler] (Finite duration)\<rparr>"

definition RecordUpstreamResponse :: "promMetrics \<Rightarrow> string \<Rightarrow> string \<Rightarrow> string \<Rightarrow> real \<Rightarrow> int \<Rightarrow> promMetrics" where
  "RecordUpstreamResponse m hostname key op duration count =
     (let bps = fdiv (of_int count) duration in
      m\<lparr>upstreamResponseSpeed := observe (upstreamResponseSpeed m) [m_name m, hostname, op] (scale bps (1024 * 1024))\<rparr>)"

text \<open>\<open>NewPromMetrics\<close> registers every histogram as it is made; \<open>MustRegister\<close>, the registry's, panics where
  it refuses one.\<close>

definition NewPromMetrics :: "(HistogramVec \<Rightarrow> ('reg, unit) go) \<Rightarrow> (real \<Rightarrow> real \<Rightarrow> nat \<Rightarrow> real list) \<Rightarrow> string \<Rightarrow> string \<Rightarrow> ('reg, promMetrics) go" where
  "NewPromMetrics MustRegister LinearBuckets name pre =
     (let requestDurationHist = \<lparr>h_Name = pre @ ''_request_duration_seconds'', h_Help = ''Duration of requests in seconds.'',
            h_Buckets = LinearBuckets (5 / 1000) (25 / 1000) 200, h_labels = [''self'', ''method'', ''handler''], observed = []\<rparr>;
          peerDiscoveryDurationHist = \<lparr>h_Name = pre @ ''_peer_discovery_duration_seconds'', h_Help = ''Duration of peer discovery in seconds.'',
            h_Buckets = LinearBuckets (1 / 1000) (2 / 1000) 200, h_labels = [''self'', ''ip''], observed = []\<rparr>;
          peerResponseDurationHist = \<lparr>h_Name = pre @ ''_peer_response_speed_mib_per_second'', h_Help = ''Speed of peer response in Mib per second.'',
            h_Buckets = LinearBuckets 1 15 200, h_labels = [''self'', ''ip'', ''op''], observed = []\<rparr>;
          upstreamResponseDurationHist = \<lparr>h_Name = pre @ ''_upstream_response_speed_mib_per_second'', h_Help = ''Speed of upstream response in Mib per second.'',
            h_Buckets = LinearBuckets 1 15 200, h_labels = [''self'', ''hostname'', ''op''], observed = []\<rparr>
      in bind (MustRegister requestDurationHist) (\<lambda>_.
         bind (MustRegister peerDiscoveryDurationHist) (\<lambda>_.
         bind (MustRegister peerResponseDurationHist) (\<lambda>_.
         bind (MustRegister upstreamResponseDurationHist) (\<lambda>_.
         ret \<lparr>m_name = name, requestDuration = requestDurationHist, peerDiscoveryDuration = peerDiscoveryDurationHist,
           peerResponseSpeed = peerResponseDurationHist, upstreamResponseSpeed = upstreamResponseDurationHist\<rparr>)))))"

text \<open>The metrics in the context: \<open>metrics_WithContext\<close> gives the value stored there; the test for a nil
  pointer never succeeds, since the constructor returns the address of a struct.\<close>

definition metrics_WithContext :: "(HistogramVec \<Rightarrow> ('reg, unit) go) \<Rightarrow> (real \<Rightarrow> real \<Rightarrow> nat \<Rightarrow> real list) \<Rightarrow> string \<Rightarrow> string \<Rightarrow> ('reg, goerr + promMetrics option) go" where
  "metrics_WithContext MustRegister LinearBuckets name pre =
     bind (bind (NewPromMetrics MustRegister LinearBuckets name pre) (\<lambda>m. ret (Some m))) (\<lambda>pm.
       if pm = None then ret (Inl (Message ''failed to create prometheus metrics''))
       else ret (Inr pm))"

definition metrics_FromContext :: "promMetrics option \<Rightarrow> promMetrics outcome" where
  "metrics_FromContext ctx = (case ctx of None \<Rightarrow> Panic InterfaceConversion | Some m \<Rightarrow> Ret m)"

text \<open>What the files handler records for a request that took \<open>ms\<close> full milliseconds.\<close>

definition record_handled :: "promMetrics \<Rightarrow> string \<Rightarrow> int \<Rightarrow> promMetrics" where
  "record_handled m method ms = RecordRequest m method ''files'' (of_int ms)"

section \<open>Properties\<close>

text \<open>Every observation carries one value per label, so that no label set is rejected.\<close>

definition labels_match :: "HistogramVec \<Rightarrow> bool" where
  "labels_match h \<longleftrightarrow> (\<forall>(ls, v) \<in> set (observed h). length ls = length (h_labels h))"

definition metrics_typed :: "promMetrics \<Rightarrow> bool" where
  "metrics_typed m \<longleftrightarrow> h_labels (requestDuration m) = [''self'', ''method'', ''handler''] \<and> labels_match (requestDuration m)
     \<and> h_labels (peerDiscoveryDuration m) = [''self'', ''ip''] \<and> labels_match (peerDiscoveryDuration m)
     \<and> h_labels (peerResponseSpeed m) = [''self'', ''ip'', ''op''] \<and> labels_match (peerResponseSpeed m)
     \<and> h_labels (upstreamResponseSpeed m) = [''self'', ''hostname'', ''op''] \<and> labels_match (upstreamResponseSpeed m)"

text \<open>One recording of any kind.\<close>

inductive record_step :: "promMetrics \<Rightarrow> promMetrics \<Rightarrow> bool" where
  "record_step m (RecordPeerDiscovery m ip d)"
| "record_step m (RecordPeerResponse m ip key op d n)"
| "record_step m (RecordRequest m method handler d)"
| "record_step m (RecordUpstreamResponse m hostname key op d n)"

lemma NewPromMetrics_Ret:
  assumes "NewPromMetrics MustRegister LinearBuckets name pre reg = (Ret m, reg')"
  shows "metrics_typed m" "h_Buckets (requestDuration m) = LinearBuckets (5 / 1000) (25 / 1000) 200"
    "observed (requestDuration m) = []" "m_name m = name"
  using assms by (auto simp: NewPromMetrics_def Let_def bind_apply ret_apply metrics_typed_def labels_match_def split: outcome.splits prod.splits)

interpretation ms: invariant_system record_step metrics_typed
proof
  fix m m' assume "metrics_typed m" "record_step m m'"
  from this(2,1) show "metrics_typed m'"
    by cases (auto simp: metrics_typed_def labels_match_def observe_def Let_def RecordPeerDiscovery_def RecordPeerResponse_def
        RecordRequest_def RecordUpstreamResponse_def)
qed

text \<open>C27: the metrics are well typed: whatever is recorded, in any order, every observation has exactly one
  value for each label its histogram was declared with, which is what the client demands of label values
  and otherwise answers with a panic.\<close>

theorem metrics_well_typed:
  assumes "NewPromMetrics MustRegister LinearBuckets name pre reg = (Ret m0, reg')" "reach record_step m0 m"
  shows "metrics_typed m"
  using assms(2) NewPromMetrics_Ret(1) [OF assms(1)] by (rule ms.reach_inv)

text \<open>A registry that accepts a histogram once: the names it knows.\<close>

definition demo_register :: "HistogramVec \<Rightarrow> (string list, unit) go" where
  "demo_register h = (\<lambda>reg. if h_Name h \<in> set reg then (Panic InterfaceConversion, reg) else (Ret (), h_Name h # reg))"

definition demo_buckets :: "real \<Rightarrow> real \<Rightarrow> nat \<Rightarrow> real list" where
  "demo_buckets start width n = map (\<lambda>i. start + width * real i) [0 ..< n]"

lemma demo_metrics: "\<exists>m reg. NewPromMetrics demo_register demo_buckets ''n'' ''peerd'' [] = (Ret m, reg)"
  by (simp add: NewPromMetrics_def Let_def bind_apply ret_apply demo_register_def)

theorem metrics_well_typed_witness:
  "\<exists>m reg. NewPromMetrics demo_register demo_buckets ''n'' ''peerd'' [] = (Ret m, reg)
     \<and> metrics_typed (RecordPeerResponse (RecordRequest m ''GET'' ''files'' 12) ''10.0.0.4'' ''k'' ''pread'' 0 1024)"
proof -
  obtain m reg where m: "NewPromMetrics demo_register demo_buckets ''n'' ''peerd'' [] = (Ret m, reg)"
    using demo_metrics by blast
  have "metrics_typed (RecordPeerResponse (RecordRequest m ''GET'' ''files'' 12) ''10.0.0.4'' ''k'' ''pread'' 0 1024)"
    by (rule metrics_well_typed [OF m reach_step [OF reach_step [OF reach_init]]]) (rule record_step.intros)+
  with m show ?thesis by blast
qed

text \<open>What the client documents of \<open>LinearBuckets\<close>: \<open>n\<close> upper bounds, the first at \<open>start\<close>, each \<open>width\<close>
  above the one before.\<close>

definition linear :: "(real \<Rightarrow> real \<Rightarrow> nat \<Rightarrow> real list) \<Rightarrow> bool" where
  "linear B \<longleftrightarrow> (\<forall>start width n. B start width n = map (\<lambda>i. start + width * real i) [0 ..< n])"

text \<open>C40: the request histogram cannot tell slow requests apart. Its buckets are in seconds and end at 4.98,
  but the handler records milliseconds: every request of five milliseconds or more is observed above
  the last bucket.\<close>

theorem request_durations_overflow:
  assumes "linear LinearBuckets" "5 \<le> ms" "NewPromMetrics MustRegister LinearBuckets name pre reg = (Ret m, reg')"
  shows "\<exists>v. observed (requestDuration (record_handled m method ms)) = [([name, method, ''files''], Finite v)]
    \<and> (\<forall>b \<in> set (h_Buckets (requestDuration m)). b < v)"
proof -
  have "5 / 1000 + 25 / 1000 * real i < of_int ms" if "i < 200" for i
  proof -
    have "real i \<le> 199" using that by simp
    moreover have "(5 :: real) \<le> of_int ms" using assms(2) by simp
    ultimately show ?thesis by (simp add: field_simps)
  qed
  then show ?thesis
    using assms(1) NewPromMetrics_Ret [OF assms(3)] by (simp add: record_handled_def RecordRequest_def observe_def linear_def)
qed

theorem request_durations_overflow_witness:
  "\<exists>m reg. NewPromMetrics demo_register demo_buckets ''n'' ''peerd'' [] = (Ret m, reg)
     \<and> (\<forall>b \<in> set (h_Buckets (requestDuration m)). b < (12 :: real))"
proof -
  obtain m reg where m: "NewPromMetrics demo_register demo_buckets ''n'' ''peerd'' [] = (Ret m, reg)"
    using demo_metrics by blast
  have "linear demo_buckets" by (simp add: linear_def demo_buckets_def)
  from request_durations_overflow [OF this _ m, of 12 "''GET''"] NewPromMetrics_Ret(3) [OF m] m show ?thesis
    by (auto simp: record_handled_def RecordRequest_def observe_def)
qed

end
