(* ===== verification/Proxy.thy ===== *)
theory Proxy
  imports RouterInit Serving Metrics
begin

text \<open>
  \<open>cmd/proxy\<close>: the command line, the start of the server with the events it reports, and the group of
  goroutines that runs until the process is told to stop. The group of \<open>golang.org/x/sync/errgroup\<close> is
  an argument; the servers of \<open>net/http\<close> appear as the ways in which their goroutines can end.
\<close>

section \<open>Arguments and commands\<close>

record ServerCmd =
  HttpAddr :: string
  HttpsAddr :: string
  RouterAddr :: string
  PromAddr :: string
  PrefetchWorkers :: int
  Hosts :: "string list"
  AddMirrorConfiguration :: bool
  Mirrors :: "string list"
  ContainerdHostsConfigPath :: string

record Arguments =
  Server :: "ServerCmd option"
  VersionFlag :: bool
  LogLevel :: string

text \<open>How the server command ends, if it ends: it returns an error or none, or the process exits.\<close>

datatype ended = Returned "goerr option" | Exited int

text \<open>What the start of the server takes from outside: the cluster (\<open>pd_k8s\<close>), libp2p and the hash table
  (\<open>pd_init\<close>, \<open>pd_tls\<close>), the leader election (\<open>pd_el\<close>), and for the store the third-party cache, the file
  system, the environment of its reads and the size of a block.\<close>

record ('cfg, 'cs, 'ma, 'h, 'k, 'dht, 'lc, 'cid, 'rl, 'i, 'c, 'rc, 'x) proxy_deps =
  pd_k8s :: "('cfg, 'cs) k8s_deps"
  pd_init :: "('ma, 'h, 'k, 'dht, 'lc, 'cid) init_deps"
  pd_el :: "('ma, 'rl) el_deps"
  pd_tls :: "('k, 'i, 'c) p2p_deps"
  pd_cache :: "int \<Rightarrow> int \<Rightarrow> 'rc option"
  pd_os :: os_state
  pd_env :: 'x
  pd_block :: int
  pd_reader :: "'x Reader"

definition DefaultFileCachePath :: string where
  "DefaultFileCachePath = ''/tmp/distribution/peerd/cache''"

text \<open>The part of \<open>serverCommand\<close> behind the event recorder. \<open>wait\<close> is what the group of goroutines returns
  for what was built, as the last section of this theory models it; \<open>handlers.Handler\<close> returns no error.\<close>

definition server_body ::
  "('cfg, 'cs, 'ma, 'h, 'k, 'dht, 'lc, 'cid, 'rl, 'i, 'c, 'rc, 'x) proxy_deps \<Rightarrow>
    (('h, 'lc, 'cid, 'ma, 'i, 'c, 'rl) built \<Rightarrow> ('rc, 'x) store \<Rightarrow> goerr option outcome) \<Rightarrow>
    'cs ClientSet \<Rightarrow> ServerCmd \<Rightarrow> string \<Rightarrow> ended outcome" where
  "server_body X wait clientset args httpsPort =
     obind (NewRouter (pd_init X) (pd_el X) (pd_tls X) clientset (RouterAddr args) httpsPort) (\<lambda>r. case r of
       Inl err \<Rightarrow> Ret (Returned (Some err))
     | Inr r \<Rightarrow>
         obind (NewFilesStore (pd_cache X) (pd_os X) (pd_env X) (pd_block X) DefaultFileCachePath (PrefetchWorkers args) (pd_reader X)) (\<lambda>filesStore.
         case filesStore of
           None \<Rightarrow> Ret (Exited 1)
         | Some filesStore \<Rightarrow> obind (wait r filesStore) (\<lambda>err. Ret (Returned err))))"

text \<open>\<open>serverCommand\<close>, with the events recorded so far as its state. The deferred call reports a failure
  when an error is returned; it does not run when the process exits, and after a panic the error is not
  set.\<close>

definition serverCommand ::
  "('cfg, 'cs, 'ma, 'h, 'k, 'dht, 'lc, 'cid, 'rl, 'i, 'c, 'rc, 'x) proxy_deps \<Rightarrow>
    (('h, 'lc, 'cid, 'ma, 'i, 'c, 'rl) built \<Rightarrow> ('rc, 'x) store \<Rightarrow> goerr option outcome) \<Rightarrow>
    string \<Rightarrow> string \<Rightarrow> ServerCmd \<Rightarrow> (event list, ended) go" where
  "serverCommand X wait kubeConfigPath nodeName args = (case SplitHostPort (HttpsAddr args) of
      Inl err \<Rightarrow> ret (Returned (Some err))
    | Inr (_, httpsPort) \<Rightarrow> (case NewKubernetesInterface (pd_k8s X) kubeConfigPath nodeName of
          Inl err \<Rightarrow> ret (Returned (Some err))
        | Inr clientset \<Rightarrow> (case WithContext (pd_k8s X) clientset of
              Inl err \<Rightarrow> ret (Returned (Some err))
            | Inr ctx \<Rightarrow>
                bind (lift_outcome (FromContext ctx)) (\<lambda>eventsRecorder.
                bind (modify (\<lambda>evs. evs @ [er_Initializing eventsRecorder])) (\<lambda>_.
                bind (lift_outcome (server_body X wait clientset args httpsPort)) (\<lambda>e. case e of
                    Returned (Some err) \<Rightarrow> bind (modify (\<lambda>evs. evs @ [er_Failed eventsRecorder])) (\<lambda>_. ret e)
                  | _ \<Rightarrow> ret e))))))"

definition run :: "(ServerCmd \<Rightarrow> (event list, ended) go) \<Rightarrow> Arguments \<Rightarrow> (event list, ended) go" where
  "run server args =
     (if VersionFlag args then ret (Returned None)
      else case Server args of
          Some cmd \<Rightarrow> server cmd
        | None \<Rightarrow> ret (Returned (Some (Message ''unknown subcommand''))))"

text \<open>\<open>main\<close>: the exit status of the process. \<open>parseLevel\<close> is the logger's parser of levels; the metrics are
  registered in the registry \<open>reg\<close>.\<close>

definition main :: "(string \<Rightarrow> bool) \<Rightarrow> (HistogramVec \<Rightarrow> ('reg, unit) go) \<Rightarrow> (real \<Rightarrow> real \<Rightarrow> nat \<Rightarrow> real list) \<Rightarrow> 'reg \<Rightarrow> string \<Rightarrow>
    (ServerCmd \<Rightarrow> (event list, ended) go) \<Rightarrow> Arguments \<Rightarrow> (event list, int) go" where
  "main parseLevel MustRegister LinearBuckets reg nodeName server args =
     (if \<not> parseLevel (LogLevel args) then ret 1
      else bind (lift_outcome (fst (metrics_WithContext MustRegister LinearBuckets nodeName ''peerd'' reg))) (\<lambda>ctx.
        case ctx of
          Inl err \<Rightarrow> ret 1
        | Inr ctx \<Rightarrow> bind (run server args) (\<lambda>e. case e of
              Exited n \<Rightarrow> ret n
            | Returned (Some err) \<Rightarrow> ret 1
            | Returned None \<Rightarrow> ret 0)))"

section \<open>The group of goroutines\<close>

datatype goroutine = GProvider | GHttps | GHttpsShutdown | GHttp | GHttpShutdown | GProm

text \<open>\<open>eg_Wait n rs\<close> is what \<open>Wait\<close> returns for \<open>n\<close> goroutines of which those with the results \<open>rs\<close>, in
  this order, have ended; \<open>None\<close> while it blocks. \<open>eg_cancels rs\<close> tells whether the group's context is
  cancelled.\<close>

record errgroup =
  eg_Wait :: "nat \<Rightarrow> goerr option list \<Rightarrow> goerr option option"
  eg_cancels :: "goerr option list \<Rightarrow> bool"

record gsys =
  alive :: "goroutine list"
  results :: "goerr option list"
  sigterm :: bool
  https_shut :: bool
  http_shut :: bool

definition start_group :: gsys where
  "start_group = \<lparr>alive = [GProvider, GHttps, GHttpsShutdown, GHttp, GHttpShutdown, GProm], results = [],
     sigterm = False, https_shut = False, http_shut = False\<rparr>"

definition ctx_done :: "errgroup \<Rightarrow> gsys \<Rightarrow> bool" where
  "ctx_done G s \<longleftrightarrow> sigterm s \<or> eg_cancels G (results s)"

definition ends :: "goroutine \<Rightarrow> goerr option \<Rightarrow> gsys \<Rightarrow> gsys" where
  "ends g r s = s\<lparr>alive := remove1 g (alive s), results := results s @ [r]\<rparr>"

text \<open>The steps: the signal; the provider ends when its context is done; a server ends with an error of
  its own or, once it was shut down, without one; the goroutine that shuts a server down does so when
  the context is done and ends with the error of that. The server of the metrics is never shut down.\<close>

inductive proxy_step :: "errgroup \<Rightarrow> gsys \<Rightarrow> gsys \<Rightarrow> bool" for G where
  terminated: "proxy_step G s (s\<lparr>sigterm := True\<rparr>)"
| provider_ends: "GProvider \<in> set (alive s) \<Longrightarrow> ctx_done G s \<Longrightarrow> proxy_step G s (ends GProvider None s)"
| https_fails: "GHttps \<in> set (alive s) \<Longrightarrow> proxy_step G s (ends GHttps (Some e) s)"
| https_closed: "GHttps \<in> set (alive s) \<Longrightarrow> https_shut s \<Longrightarrow> proxy_step G s (ends GHttps None s)"
| https_shutdown: "GHttpsShutdown \<in> set (alive s) \<Longrightarrow> ctx_done G s \<Longrightarrow>
    proxy_step G s (ends GHttpsShutdown r (s\<lparr>https_shut := True\<rparr>))"
| http_fails: "GHttp \<in> set (alive s) \<Longrightarrow> proxy_step G s (ends GHttp (Some e) s)"
| http_closed: "GHttp \<in> set (alive s) \<Longrightarrow> http_shut s \<Longrightarrow> proxy_step G s (ends GHttp None s)"
| http_shutdown: "GHttpShutdown \<in> set (alive s) \<Longrightarrow> ctx_done G s \<Longrightarrow>
    proxy_step G s (ends GHttpShutdown r (s\<lparr>http_shut := True\<rparr>))"
| prom_fails: "GProm \<in> set (alive s) \<Longrightarrow> proxy_step G s (ends GProm (Some e) s)"

abbreviation proxy_reach :: "errgroup \<Rightarrow> gsys \<Rightarrow> bool" where
  "proxy_reach G \<equiv> reach (proxy_step G) start_group"

section \<open>Reporting\<close>

text \<open>The recorder the server command works with, once it got that far.\<close>

definition recorder_of :: "('cfg, 'cs) k8s_deps \<Rightarrow> string \<Rightarrow> string \<Rightarrow> ServerCmd \<Rightarrow> eventRecorder option" where
  "recorder_of K path nm args = (case SplitHostPort (HttpsAddr args) of
      Inl err \<Rightarrow> None
    | Inr hp \<Rightarrow> (case NewKubernetesInterface K path nm of
          Inl err \<Rightarrow> None
        | Inr cs \<Rightarrow> (case NewRecorder K cs of Inl err \<Rightarrow> None | Inr er \<Rightarrow> Some er)))"

lemma serverCommand_events:
  assumes "serverCommand X wait path nodeName args evs = (x, evs')"
  shows "(case recorder_of (pd_k8s X) path nodeName args of
      None \<Rightarrow> evs' = evs \<and> (\<exists>err. x = Ret (Returned (Some err)))
    | Some er \<Rightarrow> (\<exists>cs port. x = server_body X wait cs args port)
        \<and> evs' = evs @ er_Initializing er # (if \<exists>err. x = Ret (Returned (Some err)) then [er_Failed er] else []))"
proof (cases "recorder_of (pd_k8s X) path nodeName args")
  case None
  with assms show ?thesis
    by (auto simp: recorder_of_def serverCommand_def WithContext_def ret_apply split: sum.splits)
next
  case (Some er)
  then obtain hst port cs where c: "SplitHostPort (HttpsAddr args) = Inr (hst, port)"
    "NewKubernetesInterface (pd_k8s X) path nodeName = Inr cs" "NewRecorder (pd_k8s X) cs = Inr er"
    by (auto simp: recorder_of_def split: sum.splits)
  let ?b = "server_body X wait cs args port"
  have "(x, evs') = (?b, evs @ er_Initializing er # (if \<exists>err. ?b = Ret (Returned (Some err)) then [er_Failed er] else []))"
    using assms c
    by (auto simp: serverCommand_def WithContext_def FromContext_def bind_apply lift_outcome_apply modify_apply ret_apply
        split: outcome.splits ended.splits option.splits)
  with Some show ?thesis by auto
qed

lemma server_body_exits:
  assumes "server_body X wait cs args port = Ret (Exited n)"
  shows "n = 1 \<and> NewCache (pd_cache X) (pd_os X) (pd_env X) (pd_block X) DefaultFileCachePath = None"
proof -
  let ?new = "NewRouter (pd_init X) (pd_el X) (pd_tls X) cs (RouterAddr args) port"
  from assms obtain r' where "?new = Ret r'"
    unfolding server_body_def obind_eq_Ret by blast
  moreover from this assms obtain r where "r' = Inr r"
    by (cases r') (simp_all add: server_body_def)
  ultimately show ?thesis
    using assms
    by (auto simp: server_body_def obind_eq_Ret NewFilesStore_def split: option.splits if_splits)
qed


section \<open>Stopping\<close>

text \<open>What the package documents: the first error cancels the context, and \<open>Wait\<close> blocks until all
  goroutines have returned, then returns the first error, if any.\<close>

fun first_error :: "goerr option list \<Rightarrow> goerr option" where
  "first_error [] = None"
| "first_error (r # rs) = (if r = None then first_error rs else r)"

definition errgroup_doc :: "errgroup \<Rightarrow> bool" where
  "errgroup_doc G \<longleftrightarrow> (\<forall>n rs. eg_Wait G n rs = (if length rs < n then None else Some (first_error rs)))
     \<and> (\<forall>rs. eg_cancels G rs \<longleftrightarrow> first_error rs \<noteq> None)"

lemma first_error_None: "first_error rs = None \<longleftrightarrow> set rs \<subseteq> {None}"
  by (induction rs) auto

definition group_inv :: "gsys \<Rightarrow> bool" where
  "group_inv s \<longleftrightarrow> length (alive s) + length (results s) = 6 \<and> (GProm \<notin> set (alive s) \<longrightarrow> first_error (results s) \<noteq> None)"

lemma ends_inv:
  assumes "group_inv s" "g \<in> set (alive s)" "g = GProm \<longrightarrow> r \<noteq> None"
  shows "group_inv (ends g r s)"
proof -
  obtain n where "length (alive s) = Suc n" using assms(2) by (cases "alive s") auto
  moreover have "first_error (rs @ [r]) \<noteq> None" if "first_error rs \<noteq> None \<or> r \<noteq> None" for rs
    using that by (auto simp: first_error_None)
  ultimately show ?thesis
    using assms by (auto simp: group_inv_def ends_def length_remove1 in_set_remove1)
qed

lemma group_inv_fields [simp]:
  "group_inv (s\<lparr>sigterm := b\<rparr>) = group_inv s" "group_inv (s\<lparr>https_shut := b\<rparr>) = group_inv s" "group_inv (s\<lparr>http_shut := b\<rparr>) = group_inv s"
  by (simp_all add: group_inv_def)

interpretation gs: invariant_system "proxy_step G" group_inv for G
proof
  fix s s' assume "group_inv s" "proxy_step G s s'"
  from this(2,1) show "group_inv s'" by cases (auto intro!: ends_inv)
qed

lemma proxy_reach_inv: "proxy_reach G s \<Longrightarrow> group_inv s"
  by (erule gs.reach_inv) (simp add: group_inv_def start_group_def)

text \<open>C34: the server cannot be stopped cleanly. Nothing shuts the metrics server down, so the group waits
  for it whatever happened before: \<open>serverCommand\<close> comes back only after that server failed by itself,
  and then always with an error. In particular neither a signal nor the failure of another server makes
  the process end, and that failure is not reported.\<close>

theorem never_stops_cleanly:
  assumes "errgroup_doc G" "proxy_reach G s"
  shows "(GProm \<in> set (alive s) \<longrightarrow> eg_Wait G 6 (results s) = None) \<and> eg_Wait G 6 (results s) \<noteq> Some None"
proof -
  note inv = proxy_reach_inv [OF assms(2)]
  have w: "eg_Wait G 6 (results s) = (if length (results s) < 6 then None else Some (first_error (results s)))"
    using assms(1) by (simp add: errgroup_doc_def)
  have alive: "length (results s) < 6" if "GProm \<in> set (alive s)"
  proof -
    obtain n where "length (alive s) = Suc n" using \<open>GProm \<in> set (alive s)\<close> by (cases "alive s") auto
    with inv show ?thesis by (simp add: group_inv_def)
  qed
  have "first_error (results s) \<noteq> None" if "\<not> length (results s) < 6"
    using inv that alive by (auto simp: group_inv_def)
  with w alive show ?thesis by auto
qed

definition demo_group :: errgroup where
  "demo_group = \<lparr>eg_Wait = (\<lambda>n rs. if length rs < n then None else Some (first_error rs)), eg_cancels = (\<lambda>rs. first_error rs \<noteq> None)\<rparr>"

text \<open>A run in which the signal arrives and everything but the metrics server ends.\<close>

definition demo_stopped :: gsys where
  "demo_stopped = \<lparr>alive = [GProm], results = replicate 5 None, sigterm = True, https_shut = True, http_shut = True\<rparr>"

lemma demo_stopped_reach: "proxy_reach demo_group demo_stopped"
proof -
  note st = reach_step [where step = "proxy_step demo_group"]
  have 0: "proxy_reach demo_group (start_group\<lparr>sigterm := True\<rparr>)"
    by (rule st [OF reach_init proxy_step.terminated])
  have 1: "proxy_reach demo_group (ends GProvider None (start_group\<lparr>sigterm := True\<rparr>))"
    by (rule st [OF 0 proxy_step.provider_ends]) (simp_all add: start_group_def ctx_done_def)
  have 2: "proxy_reach demo_group (ends GHttpsShutdown None ((ends GProvider None (start_group\<lparr>sigterm := True\<rparr>))\<lparr>https_shut := True\<rparr>))"
    by (rule st [OF 1 proxy_step.https_shutdown]) (simp_all add: start_group_def ctx_done_def ends_def)
  have 3: "proxy_reach demo_group (ends GHttps None (ends GHttpsShutdown None ((ends GProvider None (start_group\<lparr>sigterm := True\<rparr>))\<lparr>https_shut := True\<rparr>)))"
    by (rule st [OF 2 proxy_step.https_closed]) (simp_all add: start_group_def ends_def)
  let ?s3 = "ends GHttps None (ends GHttpsShutdown None ((ends GProvider None (start_group\<lparr>sigterm := True\<rparr>))\<lparr>https_shut := True\<rparr>))"
  have 4: "proxy_reach demo_group (ends GHttpShutdown None (?s3\<lparr>http_shut := True\<rparr>))"
    by (rule st [OF 3 proxy_step.http_shutdown]) (simp_all add: start_group_def ends_def ctx_done_def)
  have 5: "proxy_reach demo_group (ends GHttp None (ends GHttpShutdown None (?s3\<lparr>http_shut := True\<rparr>)))"
    by (rule st [OF 4 proxy_step.http_closed]) (simp_all add: start_group_def ends_def)
  have "ends GHttp None (ends GHttpShutdown None (?s3\<lparr>http_shut := True\<rparr>)) = demo_stopped"
    by (simp add: demo_stopped_def start_group_def ends_def eval_nat_numeral)
  with 5 show ?thesis by simp
qed

theorem never_stops_cleanly_witness:
  "proxy_reach demo_group demo_stopped \<and> sigterm demo_stopped \<and> eg_Wait demo_group 6 (results demo_stopped) = None"
proof -
  have "errgroup_doc demo_group" by (simp add: errgroup_doc_def demo_group_def)
  from never_stops_cleanly [OF this demo_stopped_reach] demo_stopped_reach show ?thesis
    by (simp add: demo_stopped_def)
qed

section \<open>A start that fails\<close>

definition demo_cmd :: ServerCmd where
  "demo_cmd = \<lparr>HttpAddr = ''127.0.0.1:5000'', HttpsAddr = ''0.0.0.0:5001'', RouterAddr = ''10.0.0.5:5003'', PromAddr = ''0.0.0.0:5004'', PrefetchWorkers = 50,
     Hosts = [], AddMirrorConfiguration = False, Mirrors = [], ContainerdHostsConfigPath = ''/etc/containerd/certs.d''\<rparr>"

text \<open>A cluster in which the router's lookup cache cannot be made.\<close>

definition demo_proxy :: "(unit, unit, string, string list, unit, unit, unit, string, unit, unit, string, unit, unit) proxy_deps" where
  "demo_proxy = \<lparr>pd_k8s = demo_k8s, pd_init = (demo_init ''10.0.0.5'')\<lparr>lookupCache_New := Inl ErrClosed\<rparr>, pd_el = demo_el, pd_tls = demo_p2p,
     pd_cache = (\<lambda>_ _. None), pd_os = os (empty_cache ()), pd_env = (), pd_block = 1048576, pd_reader = mock_Reader []\<rparr>"


end
