(* ===== verification/Spec2Isabelle.thy ===== *)
theory Spec2Isabelle
  imports Races Adequacy Sharing Root Proxy
begin

text \<open>
  A verification development for Peerd, the peer-to-peer proxy that lets the nodes of a Kubernetes
  cluster share streamed blobs.

  \<^bold>\<open>The program.\<close> A client asks the proxy of its node for a byte range of a blob
  (\<open>cmd/proxy/main.go\<close> starts it, \<open>pkg/handlers\<close> answers). The handler finds the digest in the URL
  (\<open>pkg/urlparser\<close>), cuts the range into chunks of fixed size (\<open>pkg/math\<close>, \<open>pkg/files\<close>) and reads them
  through a file of the store (\<open>pkg/files/store\<close>). The store keeps chunks in a cache on disk
  (\<open>pkg/cache\<close>) and fetches missing ones with a reader (\<open>pkg/discovery/content/reader\<close>), which asks the
  peers that a router finds (\<open>pkg/discovery/routing\<close>, over the clients of \<open>pkg/peernet\<close>) and, failing
  them, the origin. Cached chunks are advertised (\<open>pkg/discovery/content/provider\<close>). The router is set
  up with the cluster's help: a client and events (\<open>pkg/k8s\<close>) and a leader election
  (\<open>pkg/k8s/election\<close>); \<open>pkg/metrics\<close> keeps histograms.

  \<^bold>\<open>The theories.\<close>
  \<^item> \<open>Prelude\<close>: 64-bit integers with the wrap-around written out, the ways a Go call can end (it
    returns, panics or hangs), state-passing computations, step relations, with an invariant rule and a
    termination rule as the locales \<open>invariant_system\<close> and \<open>terminating_system\<close>. \<open>GoLib\<close>, \<open>OsFile\<close>, \<open>NetAddr\<close>:
    what the sources use of \<open>strconv\<close>, \<open>strings\<close>, \<open>net/http\<close> headers, \<open>os\<close> and \<open>net\<close>; the file system takes
    a script that says which system call fails and how many bytes it moved before.
  \<^item> \<open>Segments\<close> (\<open>pkg/math\<close>): the segments of a range tile it.
  \<^item> \<open>SyncMap\<close>, \<open>Item\<close>, \<open>FileCache\<close> (\<open>pkg/cache\<close>): the bounded map with its eviction refines an
    abstract bounded map; a chunk's file; \<open>GetOrCreate\<close> with the item locks, a heap of items and the
    third-party cache as an argument that may refuse or forget entries. Locks are released; a chunk is
    fetched once. \<open>Coherence\<close>: over any sequence of operations the cache never serves wrong bytes as long
    as no write fails half-way, and can do so when one does.
  \<^item> \<open>Concurrent\<close>, \<open>Interleaved\<close>, \<open>SingleFlight\<close>, \<open>Races\<close> (\<open>pkg/cache\<close> again): any number of callers of
    \<open>GetOrCreate\<close> and \<open>Exists\<close>, evictions and drops, interleaved action by action (\<open>get_step\<close>, \<open>exists_step\<close>,
    \<open>drop_step\<close>; a step is a lock operation, a system call, a fetch or a call of the third-party cache).
    The locks exclude each other; no schedule deadlocks or runs forever; while items do not share files,
    callers get the right bytes and a chunk is fetched once; a third-party cache that keeps its entries
    keeps files private. Two schedules with an eviction show a panic and wrong bytes. \<open>Adequacy\<close>: a call that is
    scheduled alone does what the sequential \<open>GetOrCreate\<close> and \<open>Exists\<close> do.
  \<^item> \<open>PContext\<close> (\<open>pkg/context\<close>) and \<open>UrlParser\<close> (\<open>pkg/urlparser\<close>): range headers and their round trip; the
    three regular expressions as data with a matcher for them.
  \<^item> \<open>Routing\<close> (\<open>pkg/discovery/routing\<close>): lookups as interleaved goroutines over channels, negative
    caching, advertising; \<open>RouterInit\<close>: \<open>NewRouter\<close> with every error it can return; \<open>Provider\<close>: the
    advertising loop equals one call with all keys.
  \<^item> \<open>Reader\<close> (\<open>pkg/discovery/content/reader\<close>): requests to peers and to the origin; the \<open>select\<close> of the
    peer loop follows an arbitrary list of events. Peers are asked in order, a peer's request is never
    passed on, and what a successful read returns is the body of the last answer.
  \<^item> \<open>Files\<close>, \<open>Serving\<close>, \<open>Frames\<close> (\<open>pkg/files\<close>, \<open>pkg/files/store\<close>): files, store, prefetch goroutines and
    workers on an explicit heap; the interface \<open>Reader\<close> is the locale \<open>remote_reader\<close>, interpreted on the
    reader and on its mock. A read returns the blob's own bytes; keys round-trip; prefetching covers a
    file; only cached chunks are advertised; what operations leave alone. \<open>Pipeline\<close>: prefetch goroutines,
    workers and the provider over the two bounded channels (\<open>pipe_do\<close>): in every interleaving all work ends,
    nothing waits forever, whatever fails, and every chunk is fetched and advertised once if nothing does.
  \<^item> \<open>Handler\<close>, \<open>Root\<close> (\<open>pkg/handlers\<close>): the handler with \<open>http.ServeContent\<close>, the middleware and the
    routes. Whatever fails, a range request is answered with one status and a part of the requested bytes
    from their start. \<open>Delivery\<close>: while nothing fails, a cache in good condition stays so and serves whole
    chunks. \<open>FullStack\<close>: handler, store, cache, reader and router together answer a range request
    completely, whether the size is known or not and however peers fail, if the origin answers. \<open>Sharing\<close>:
    opening a file starts a pipeline that ends with the whole blob fetched and advertised.
  \<^item> \<open>K8s\<close>, \<open>Election\<close>, \<open>Peernet\<close> (\<open>pkg/k8s\<close>, \<open>pkg/peernet\<close>): the identity events are reported for; callbacks
    and callers of the election as interleaved goroutines, one atomic action per step; clients that
    accept the certificate of their peer only.
  \<^item> \<open>Metrics\<close> (\<open>pkg/metrics\<close>): histograms with their labels, buckets and observations.
  \<^item> \<open>Proxy\<close> (\<open>cmd/proxy\<close>): the start of the server with the events and exit status of every outcome, and
    its group of goroutines.

  \<^bold>\<open>How code becomes definitions.\<close> Structs are records and methods take them as a state; the names are
  those of the source, with a prefix where they clash. Errors are values of \<open>goerr\<close>, one constructor per
  error the sources make or compare; panics and blocking are outcomes. Goroutines that interleave are
  step relations (\<open>cstep\<close>, \<open>gstep\<close>, \<open>estep\<close>, \<open>proxy_step\<close>) or a function of the action taken next (\<open>pipe_do\<close>).
  Packages outside the repository are arguments, grouped in records (\<open>deps\<close>, \<open>net_deps\<close>, \<open>http_deps\<close>,
  \<open>k8s_deps\<close>, \<open>el_deps\<close>, \<open>p2p_deps\<close>, \<open>init_deps\<close>, \<open>gin\<close>, \<open>errgroup\<close>), and what a theorem needs of them is a named
  hypothesis that states documented behaviour (\<open>kv_lawful\<close>, \<open>evicts_lawful\<close>, \<open>p2p_lawful\<close>, \<open>factory_used\<close>, \<open>recovers\<close>,
  \<open>errgroup_doc\<close>, \<open>linear\<close>) or the absence of failures (\<open>calm\<close>, \<open>accepting\<close>, \<open>delivers\<close>, \<open>survives\<close>, \<open>honest\<close>,
  \<open>origin_up\<close>, \<open>lookup_ends\<close>, \<open>accepts_keys\<close>).

  \<^bold>\<open>Bounds and fuel.\<close> Only the copy loop \<open>CopyN\<close> has fuel: every round but the last copies at least one
  byte, so \<open>n + 1\<close> rounds copy \<open>n\<close> bytes, which \<open>copy_loop_ends\<close> proves; the theorems on the handler ask
  for more rounds than the blob has bytes. The segment loop is a partial function and proved to end on
  the arguments the code passes. Integers wrap at 64 bits, the descriptor counter at 32. The theorem on
  evictions assumes a capacity up to a million million, so that the percentage does not wrap; the code
  uses ten million.

  \<^bold>\<open>Where the code does not do what it means to.\<close> Theorems show failures as well: half-written chunks
  that are served as hits, a lock that an origin error leaves held, answers that end early and are
  accepted, whole answers that are taken for a range, lookups under the key of another chunk, the lost
  error of an unknown URL, an early end of file, the races of the election's callback, a server that
  cannot be stopped, durations in the wrong unit, and an eviction at a bad moment, which crashes a call
  or lets it return zeros.

  \<^bold>\<open>Not modelled.\<close> Log messages and logged durations (of the loggers, the fields are); deadlines as clocks
  (they appear as events of the \<open>select\<close>); the multipart answer of \<open>http.ServeContent\<close>, which a GET never
  reaches, conditional headers and the texts of error answers; rounding of floating-point numbers; the
  sending of events. The mocks of the router and of libp2p, the load generators under \<open>tests\<close> and the
  generated \<open>api/docs.go\<close> are not part of the proxy.
\<close>

end
